(* ===== verification/Router_Prelude.thy ===== *)
theory Router_Prelude
  imports Complex_Main "HOL-Library.AList" "HOL-Library.Word" "HOL-Library.Char_ord"
    "HOL-Library.List_Lexorder"
begin

text \<open>
  The shared layer of the development: the machine integers and the saturating and checked
  arithmetic of Rust's standard library, hash maps as association lists with distinct keys,
  and the three contracts (locales) that several components instantiate:
  \<^item> \<open>map_store\<close>: what a keyed store promises (used for every hash map of the router);
  \<^item> \<open>idempotent_norm\<close>: a normalisation that is stable under repetition;
  \<^item> \<open>invariant_system\<close>: an initial state, a step relation and an invariant that every
    step keeps, from which the invariant holds in every reachable state.
\<close>

section \<open>Collections of facts\<close>

named_theorems rust_arith \<open>unfolding rules of Rust's checked and saturating arithmetic\<close>
named_theorems hm_simps \<open>lookup, size and key laws of the hash-map operations\<close>

section \<open>Machine integers\<close>

type_synonym u64 = "64 word"
type_synonym bytes = string

abbreviation u32_max :: nat where "u32_max \<equiv> 4294967295"
abbreviation u64_max :: nat where "u64_max \<equiv> 18446744073709551615"
abbreviation i64_max :: nat where "i64_max \<equiv> 9223372036854775807"
abbreviation i32_max :: nat where "i32_max \<equiv> 2147483647"

text \<open>
  Unsigned values whose operations saturate or are checked are natural numbers with the bound
  written out; \<open>usize\<close> is 64 bits wide on the supported platforms.
\<close>

definition sat_add :: "nat \<Rightarrow> nat \<Rightarrow> nat \<Rightarrow> nat" where
  "sat_add bnd a b = min bnd (a + b)"

definition sat_mul :: "nat \<Rightarrow> nat \<Rightarrow> nat \<Rightarrow> nat" where
  "sat_mul bnd a b = min bnd (a * b)"

definition checked_add :: "nat \<Rightarrow> nat \<Rightarrow> nat \<Rightarrow> nat option" where
  "checked_add bnd a b = (if a + b \<le> bnd then Some (a + b) else None)"

definition checked_mul :: "nat \<Rightarrow> nat \<Rightarrow> nat \<Rightarrow> nat option" where
  "checked_mul bnd a b = (if a * b \<le> bnd then Some (a * b) else None)"

definition div_ceil :: "nat \<Rightarrow> nat \<Rightarrow> nat" where
  "div_ceil a b = (if a mod b = 0 then a div b else a div b + 1)"

definition clamp :: "nat \<Rightarrow> nat \<Rightarrow> nat \<Rightarrow> nat" where
  "clamp lo hi x = (if x < lo then lo else if hi < x then hi else x)"

lemmas [rust_arith] = sat_add_def sat_mul_def checked_add_def checked_mul_def clamp_def

lemma sat_add_le [simp]: "sat_add bnd a b \<le> bnd"
  by (simp add: sat_add_def)

lemma sat_add_exact: "a + b \<le> bnd \<Longrightarrow> sat_add bnd a b = a + b"
  by (simp add: sat_add_def)

lemma sat_add_mono: "a \<le> a' \<Longrightarrow> b \<le> b' \<Longrightarrow> sat_add bnd a b \<le> sat_add bnd a' b'"
  by (simp add: sat_add_def min_def)

lemma checked_add_Some_iff [simp]:
  "checked_add bnd a b = Some c \<longleftrightarrow> c = a + b \<and> a + b \<le> bnd"
  by (auto simp: checked_add_def)

lemma checked_add_None_iff [simp]: "checked_add bnd a b = None \<longleftrightarrow> bnd < a + b"
  by (auto simp: checked_add_def)

lemma checked_mul_Some_iff [simp]:
  "checked_mul bnd a b = Some c \<longleftrightarrow> c = a * b \<and> a * b \<le> bnd"
  by (auto simp: checked_mul_def)

lemma checked_mul_None_iff [simp]: "checked_mul bnd a b = None \<longleftrightarrow> bnd < a * b"
  by (auto simp: checked_mul_def)

lemma clamp_bounds: "lo \<le> hi \<Longrightarrow> lo \<le> clamp lo hi x \<and> clamp lo hi x \<le> hi"
  by (simp add: clamp_def)

lemma clamp_inside: "lo \<le> x \<Longrightarrow> x \<le> hi \<Longrightarrow> clamp lo hi x = x"
  by (simp add: clamp_def)

lemma div_ceil_ge: "0 < b \<Longrightarrow> a \<le> div_ceil a b * b"
proof (cases "a mod b = 0")
  case True
  then show ?thesis
    by (metis div_ceil_def mult_div_mod_eq add.right_neutral mult.commute order_refl)
next
  case False
  assume "0 < b"
  have "a = a div b * b + a mod b" by simp
  also have "\<dots> \<le> a div b * b + b" using \<open>0 < b\<close> by (intro add_left_mono less_imp_le mod_less_divisor)
  also have "\<dots> = div_ceil a b * b" using False by (simp add: div_ceil_def)
  finally show ?thesis .
qed

lemma div_ceil_less: "0 < b \<Longrightarrow> div_ceil a b * b < a + b"
proof (cases "a mod b = 0")
  case True
  assume "0 < b"
  have "a div b * b = a" using True by auto
  then show ?thesis using True \<open>0 < b\<close> by (simp add: div_ceil_def)
next
  case False
  assume "0 < b"
  have "a div b * b + a mod b = a" by simp
  then have "a div b * b < a" using False by linarith
  then show ?thesis using False by (simp add: div_ceil_def)
qed

section \<open>Hash maps\<close>

text \<open>
  A \<open>HashMap\<close> or \<open>BTreeMap\<close> is an association list with distinct keys; the order of the list
  is the (unspecified) iteration order of the hash map.
\<close>

type_synonym ('k, 'v) hmap = "('k \<times> 'v) list"

abbreviation hm_get :: "('k, 'v) hmap \<Rightarrow> 'k \<Rightarrow> 'v option" where
  "hm_get m k \<equiv> map_of m k"

abbreviation hm_insert :: "'k \<Rightarrow> 'v \<Rightarrow> ('k, 'v) hmap \<Rightarrow> ('k, 'v) hmap" where
  "hm_insert \<equiv> AList.update"

abbreviation hm_remove :: "'k \<Rightarrow> ('k, 'v) hmap \<Rightarrow> ('k, 'v) hmap" where
  "hm_remove \<equiv> AList.delete"

abbreviation hm_keys :: "('k, 'v) hmap \<Rightarrow> 'k list" where
  "hm_keys m \<equiv> map fst m"

abbreviation hm_ok :: "('k, 'v) hmap \<Rightarrow> bool" where
  "hm_ok m \<equiv> distinct (map fst m)"

definition hm_get_or :: "'v \<Rightarrow> ('k, 'v) hmap \<Rightarrow> 'k \<Rightarrow> 'v" where
  "hm_get_or d m k = (case hm_get m k of None \<Rightarrow> d | Some v \<Rightarrow> v)"

text \<open>\<open>retain\<close> on a hash map: keep the entries that satisfy the predicate.\<close>

definition hm_retain :: "('k \<Rightarrow> 'v \<Rightarrow> bool) \<Rightarrow> ('k, 'v) hmap \<Rightarrow> ('k, 'v) hmap" where
  "hm_retain p m = filter (\<lambda>(k, v). p k v) m"

text \<open>\<open>*entry(k).or_default() += 1\<close> on a map of counters.\<close>

definition hm_incr :: "'k \<Rightarrow> ('k, nat) hmap \<Rightarrow> ('k, nat) hmap" where
  "hm_incr k m = hm_insert k (hm_get_or 0 m k + 1) m"

lemma hm_get_insert [hm_simps, simp]:
  "hm_get (hm_insert k v m) k' = (if k = k' then Some v else hm_get m k')"
  by (simp add: update_conv')

lemma hm_get_remove [hm_simps, simp]:
  "hm_get (hm_remove k m) k' = (if k = k' then None else hm_get m k')"
  by (simp add: delete_conv')

lemma hm_ok_insert [simp]: "hm_ok m \<Longrightarrow> hm_ok (hm_insert k v m)"
  by (simp add: distinct_update)

lemma hm_ok_remove [simp]: "hm_ok m \<Longrightarrow> hm_ok (hm_remove k m)"
  by (simp add: distinct_delete)

lemma hm_ok_retain [simp]: "hm_ok m \<Longrightarrow> hm_ok (hm_retain p m)"
  unfolding hm_retain_def by (rule distinct_map_filter)

lemma hm_get_or_insert [hm_simps, simp]:
  "hm_get_or d (hm_insert k v m) k' = (if k = k' then v else hm_get_or d m k')"
  by (simp add: hm_get_or_def)

lemma hm_get_or_remove [hm_simps, simp]:
  "hm_get_or d (hm_remove k m) k' = (if k = k' then d else hm_get_or d m k')"
  by (simp add: hm_get_or_def)

lemma hm_get_incr [hm_simps]:
  "hm_get_or 0 (hm_incr k m) k' = (if k = k' then hm_get_or 0 m k + 1 else hm_get_or 0 m k')"
  by (simp add: hm_incr_def)

lemma hm_ok_incr [simp]: "hm_ok m \<Longrightarrow> hm_ok (hm_incr k m)"
  by (simp add: hm_incr_def)

lemma hm_keys_insert [hm_simps]: "set (hm_keys (hm_insert k v m)) = insert k (set (hm_keys m))"
  by (simp add: dom_update [unfolded dom_map_of_conv_image_fst])

lemma hm_keys_remove [hm_simps]: "set (hm_keys (hm_remove k m)) = set (hm_keys m) - {k}"
  by (simp add: delete_keys [simplified])

lemma hm_get_None_iff: "hm_get m k = None \<longleftrightarrow> k \<notin> set (hm_keys m)"
  by (simp add: map_of_eq_None_iff)

lemma hm_length_insert_new [hm_simps]:
  "k \<notin> set (hm_keys m) \<Longrightarrow> hm_insert k v m = m @ [(k, v)]"
  by (induction m) auto

lemma hm_insert_same: "hm_get m k = Some v \<Longrightarrow> hm_insert k v m = m"
  by (induction m) (auto split: if_splits)

lemma hm_remove_absent [hm_simps]: "k \<notin> set (hm_keys m) \<Longrightarrow> hm_remove k m = m"
  by (simp add: delete_id)

lemma hm_remove_filter: "hm_remove k m = filter (\<lambda>p. fst p \<noteq> k) m"
  by (induction m) auto

lemma hm_get_retain:
  "hm_ok m \<Longrightarrow> hm_get (hm_retain p m) k
     = (case hm_get m k of None \<Rightarrow> None | Some v \<Rightarrow> if p k v then Some v else None)"
proof (induction m)
  case Nil
  then show ?case by (simp add: hm_retain_def)
next
  case (Cons e m)
  then show ?case
    by (cases e) (auto simp: hm_retain_def hm_get_None_iff split: option.splits dest: map_of_SomeD)
qed

text \<open>
  What the components rely on: a store that gives back what was written last, forgets what was
  removed, and keeps its own well-formedness.
\<close>

locale map_store =
  fixes get :: "'m \<Rightarrow> 'k \<Rightarrow> 'v option"
    and ins :: "'k \<Rightarrow> 'v \<Rightarrow> 'm \<Rightarrow> 'm"
    and rem :: "'k \<Rightarrow> 'm \<Rightarrow> 'm"
    and ok :: "'m \<Rightarrow> bool"
  assumes get_ins: "ok m \<Longrightarrow> get (ins k v m) k' = (if k = k' then Some v else get m k')"
    and get_rem: "ok m \<Longrightarrow> get (rem k m) k' = (if k = k' then None else get m k')"
    and ok_ins: "ok m \<Longrightarrow> ok (ins k v m)"
    and ok_rem: "ok m \<Longrightarrow> ok (rem k m)"
begin

lemma get_fold_ins:
  assumes "ok m"
  shows "get (fold (\<lambda>(k, v). ins k v) kvs m) k
    = (case map_of (rev kvs) k of None \<Rightarrow> get m k | Some v \<Rightarrow> Some v)"
  using assms
proof (induction kvs arbitrary: m)
  case Nil
  then show ?case by simp
next
  case (Cons e kvs)
  then show ?case
    by (cases e) (auto simp: get_ins ok_ins map_add_def split: option.splits)
qed

lemma get_ins_rem: "ok m \<Longrightarrow> get m k = Some v \<Longrightarrow> get (ins k v (rem k m)) = get m"
  by (rule ext) (auto simp: get_ins get_rem ok_rem)

lemma get_rem_ins_fresh: "ok m \<Longrightarrow> get m k = None \<Longrightarrow> get (rem k (ins k v m)) = get m"
  by (rule ext) (auto simp: get_ins get_rem ok_ins)

end

interpretation hm: map_store map_of AList.update AList.delete hm_ok
  by unfold_locales simp_all

section \<open>Counting\<close>

lemma count_list_filter: "count_list xs x = length (filter (\<lambda>y. y = x) xs)"
  by (induction xs) auto

lemma length_filter_snoc:
  "length (filter p (xs @ [x])) = length (filter p xs) + (if p x then 1 else 0)"
  by simp

lemma hm_get_drop_keys: "hm_get (filter (\<lambda>e. fst e \<notin> D) m) k = (if k \<in> D then None else hm_get m k)"
  by (induction m) auto

lemma hm_sum_new:
  fixes f :: "'k \<times> 'v \<Rightarrow> 'a :: comm_monoid_add"
  shows "hm_get m k = None \<Longrightarrow> sum_list (map f (hm_insert k v m)) = sum_list (map f m) + f (k, v)"
  by (simp add: hm_get_None_iff hm_length_insert_new)

lemma hm_sum_update:
  fixes f :: "'k \<times> 'v \<Rightarrow> 'a :: ab_group_add"
  shows "hm_get m k = Some w \<Longrightarrow>
    sum_list (map f (hm_insert k v m)) = sum_list (map f m) - f (k, w) + f (k, v)"
  by (induction m) (auto split: if_splits)

lemma hm_sum_filter:
  fixes f :: "'k \<times> 'v \<Rightarrow> 'a :: comm_monoid_add"
  shows "(\<And>e. e \<in> set m \<Longrightarrow> \<not> p e \<Longrightarrow> f e = 0) \<Longrightarrow> sum_list (map f (filter p m)) = sum_list (map f m)"
  by (induction m) auto

lemma find_SomeD: "find p xs = Some x \<Longrightarrow> x \<in> set xs \<and> p x"
  by (auto simp: find_Some_iff)

lemma find_None_all: "find p xs = None \<longleftrightarrow> (\<forall>x \<in> set xs. \<not> p x)"
  by (auto simp: find_None_iff)

section \<open>Stable normalisations\<close>

locale idempotent_norm =
  fixes norm :: "'a \<Rightarrow> 'a"
  assumes norm_idem: "norm (norm x) = norm x"
begin

lemma norm_range_fixed: "y \<in> range norm \<longleftrightarrow> norm y = y"
  using norm_idem by (metis rangeE rangeI)

lemma map_norm_idem: "map norm (map norm xs) = map norm xs"
  by (simp add: norm_idem)

lemma norm_fixed_list: "\<forall>x \<in> set xs. norm x = x \<Longrightarrow> map norm xs = xs"
  by (simp add: map_idI)

end

section \<open>Step systems and their invariants\<close>

inductive reach :: "('s \<Rightarrow> bool) \<Rightarrow> ('s \<Rightarrow> 's \<Rightarrow> bool) \<Rightarrow> 's \<Rightarrow> bool"
  for init :: "'s \<Rightarrow> bool" and step :: "'s \<Rightarrow> 's \<Rightarrow> bool" where
  reach_init: "init s \<Longrightarrow> reach init step s"
| reach_step: "reach init step s \<Longrightarrow> step s t \<Longrightarrow> reach init step t"

locale invariant_system =
  fixes init :: "'s \<Rightarrow> bool"
    and step :: "'s \<Rightarrow> 's \<Rightarrow> bool"
    and inv :: "'s \<Rightarrow> bool"
  assumes inv_init: "init s \<Longrightarrow> inv s"
    and inv_step: "step s t \<Longrightarrow> inv s \<Longrightarrow> inv t"
begin

lemma reach_inv: "reach init step s \<Longrightarrow> inv s"
  by (induction rule: reach.induct) (auto intro: inv_init inv_step)

lemma inv_rtranclp: "step\<^sup>*\<^sup>* s t \<Longrightarrow> inv s \<Longrightarrow> inv t"
  by (induction rule: rtranclp_induct) (auto intro: inv_step)

end

end
