(* ===== verification/Rust_Strings.thy ===== *)
theory Rust_Strings
  imports Router_Prelude
begin

text \<open>
  The string operations of Rust's standard library that the router uses, on UTF-8 text: a
  string is the list of its bytes, so \<open>length\<close> is Rust's \<open>len()\<close> and the order of
  \<open>List_Lexorder\<close> is Rust's order on \<open>str\<close>. White space is Unicode's White\_Space property,
  given by the UTF-8 encodings of its code points; since UTF-8 is self-synchronising, removing
  encodings from the front and from the back removes exactly the white-space characters there.
  The last part instantiates the contract of stable normalisations for \<open>trim\<close> and for ASCII
  lower-casing.
\<close>

section \<open>White space\<close>

definition byte :: "nat \<Rightarrow> char" where
  "byte n = char_of n"

definition ascii_ws :: "string list" where
  "ascii_ws = map (\<lambda>n. [byte n]) [9, 10, 11, 12, 13, 32]"

definition unicode_ws :: "string list" where
  "unicode_ws =
     map (map byte)
      ([[194, 133], [194, 160], [225, 154, 128]]
       @ map (\<lambda>n. [226, 128, n]) [128 ..< 139]
       @ [[226, 128, 168], [226, 128, 169], [226, 128, 175], [226, 129, 159], [227, 128, 128]])"

definition white_space :: "string list" where
  "white_space = ascii_ws @ unicode_ws"

text \<open>Drop encodings of the given list from the front as long as there is one.\<close>

definition starts_with :: "string \<Rightarrow> string \<Rightarrow> bool" where
  "starts_with w s = (take (length w) s = w)"

definition leading :: "string list \<Rightarrow> string \<Rightarrow> string option" where
  "leading ws s = find (\<lambda>w. w \<noteq> [] \<and> starts_with w s) ws"

lemma leading_Some: "leading ws s = Some w \<Longrightarrow> w \<in> set ws \<and> w \<noteq> [] \<and> starts_with w s"
  by (auto simp: leading_def dest: find_SomeD)

lemma starts_with_length: "starts_with w s \<Longrightarrow> length w \<le> length s"
  by (metis starts_with_def length_take min.cobounded2 min.commute)

function strip_leading :: "string list \<Rightarrow> string \<Rightarrow> string" where
  "strip_leading ws s =
     (case leading ws s of None \<Rightarrow> s | Some w \<Rightarrow> strip_leading ws (drop (length w) s))"
  by pat_completeness auto
termination
proof (relation "measure (\<lambda>(ws, s). length s)")
  fix ws s w
  assume "leading ws s = Some w"
  then have "0 < length w" and "length w \<le> length s"
    by (auto dest!: leading_Some intro: starts_with_length)
  then have "length s - length w < length s" by linarith
  then show "((ws, drop (length w) s), (ws, s)) \<in> measure (\<lambda>(ws, s). length s)" by simp
qed simp

declare strip_leading.simps [simp del]

definition trim_start :: "string \<Rightarrow> string" where
  "trim_start s = strip_leading white_space s"

definition trim_end :: "string \<Rightarrow> string" where
  "trim_end s = rev (strip_leading (map rev white_space) (rev s))"

definition trim :: "string \<Rightarrow> string" where
  "trim s = trim_end (trim_start s)"

section \<open>Matching, case and characters\<close>

definition strip_prefix :: "string \<Rightarrow> string \<Rightarrow> string option" where
  "strip_prefix p s = (if starts_with p s then Some (drop (length p) s) else None)"

definition strip_suffix :: "string \<Rightarrow> string \<Rightarrow> string option" where
  "strip_suffix p s = map_option rev (strip_prefix (rev p) (rev s))"

definition trim_end_matches :: "char \<Rightarrow> string \<Rightarrow> string" where
  "trim_end_matches c s = rev (dropWhile (\<lambda>x. x = c) (rev s))"

definition trim_start_matches :: "char \<Rightarrow> string \<Rightarrow> string" where
  "trim_start_matches c s = dropWhile (\<lambda>x. x = c) s"

definition trim_matches :: "char \<Rightarrow> string \<Rightarrow> string" where
  "trim_matches c s = trim_end_matches c (trim_start_matches c s)"

definition to_ascii_lower :: "char \<Rightarrow> char" where
  "to_ascii_lower c =
     (let n = (of_char c :: nat) in if 65 \<le> n \<and> n \<le> 90 then char_of (n + 32) else c)"

definition ascii_lowercase :: "string \<Rightarrow> string" where
  "ascii_lowercase s = map to_ascii_lower s"

definition eq_ignore_ascii_case :: "string \<Rightarrow> string \<Rightarrow> bool" where
  "eq_ignore_ascii_case a b = (ascii_lowercase a = ascii_lowercase b)"

definition is_ascii_digit :: "char \<Rightarrow> bool" where
  "is_ascii_digit c = (let n = (of_char c :: nat) in 48 \<le> n \<and> n \<le> 57)"

definition is_ascii_alphanumeric :: "char \<Rightarrow> bool" where
  "is_ascii_alphanumeric c =
     (let n = (of_char c :: nat)
      in (48 \<le> n \<and> n \<le> 57) \<or> (65 \<le> n \<and> n \<le> 90) \<or> (97 \<le> n \<and> n \<le> 122))"

text \<open>\<open>split(p)\<close>: the pieces between the separators; \<open>n\<close> separators give \<open>n + 1\<close> pieces.\<close>

fun split_by :: "(char \<Rightarrow> bool) \<Rightarrow> string \<Rightarrow> string list" where
  "split_by p [] = [[]]"
| "split_by p (x # xs) =
     (if p x then [] # split_by p xs
      else (case split_by p xs of [] \<Rightarrow> [[x]] | w # ws \<Rightarrow> (x # w) # ws))"

abbreviation split_on :: "char \<Rightarrow> string \<Rightarrow> string list" where
  "split_on c \<equiv> split_by (\<lambda>x. x = c)"

text \<open>\<open>chars().take(n)\<close>: a character starts at a byte that is not a UTF-8 continuation byte.\<close>

definition is_continuation :: "char \<Rightarrow> bool" where
  "is_continuation c = (let n = (of_char c :: nat) in 128 \<le> n \<and> n < 192)"

fun take_chars :: "nat \<Rightarrow> string \<Rightarrow> string" where
  "take_chars n [] = []"
| "take_chars 0 (c # cs) = (if is_continuation c then c # take_chars 0 cs else [])"
| "take_chars (Suc n) (c # cs) =
     (if is_continuation c then c # take_chars (Suc n) cs else c # take_chars n cs)"

definition char_count :: "string \<Rightarrow> nat" where
  "char_count s = length (filter (\<lambda>c. \<not> is_continuation c) s)"

text \<open>Decimal printing and parsing of unsigned integers (\<open>to_string\<close>, \<open>parse::<usize>\<close>).\<close>

fun show_nat :: "nat \<Rightarrow> string" where
  "show_nat n = (if n < 10 then [char_of (48 + n)]
                 else show_nat (n div 10) @ [char_of (48 + n mod 10)])"

declare show_nat.simps [simp del]

definition digits_value :: "string \<Rightarrow> nat" where
  "digits_value s = foldl (\<lambda>acc c. acc * 10 + (of_char c - 48)) 0 s"

definition parse_nat :: "nat \<Rightarrow> string \<Rightarrow> nat option" where
  "parse_nat bnd s =
     (let t = (case s of [] \<Rightarrow> [] | c # cs \<Rightarrow> if c = CHR ''+'' then cs else s)
      in if t \<noteq> [] \<and> list_all is_ascii_digit t \<and> digits_value t \<le> bnd
         then Some (digits_value t) else None)"

definition parse_i64 :: "string \<Rightarrow> int option" where
  "parse_i64 s =
     (case s of
        [] \<Rightarrow> None
      | c # cs \<Rightarrow>
          if c = CHR ''-''
          then (if cs \<noteq> [] \<and> list_all is_ascii_digit cs \<and> digits_value cs \<le> i64_max + 1
                then Some (- int (digits_value cs)) else None)
          else map_option int (parse_nat i64_max s))"

section \<open>Laws\<close>

lemma leading_None_prefix: "leading ws s = None \<Longrightarrow> leading ws (take n s) = None"
proof -
  assume none: "leading ws s = None"
  have "starts_with w (take n s) \<Longrightarrow> starts_with w s" for w
    unfolding starts_with_def by (metis length_take min.absorb1 min.cobounded2 take_take)
  then show ?thesis
    using none by (auto simp: leading_def find_None_all)
qed

lemma strip_leading_fixed: "leading ws (strip_leading ws s) = None"
proof (induction ws s rule: strip_leading.induct)
  case (1 ws s)
  then show ?case
    by (subst strip_leading.simps) (auto split: option.splits)
qed

lemma strip_leading_id: "leading ws s = None \<Longrightarrow> strip_leading ws s = s"
  by (subst strip_leading.simps) simp

lemma strip_leading_drop: "\<exists>n. strip_leading ws s = drop n s"
proof (induction ws s rule: strip_leading.induct)
  case (1 ws s)
  show ?case
  proof (cases "leading ws s")
    case None
    then have "strip_leading ws s = drop 0 s" by (simp add: strip_leading_id)
    then show ?thesis ..
  next
    case (Some w)
    with 1 obtain n where "strip_leading ws (drop (length w) s) = drop n (drop (length w) s)"
      by blast
    then have "strip_leading ws s = drop (n + length w) s"
      using Some by (subst strip_leading.simps) simp
    then show ?thesis ..
  qed
qed

lemma trim_end_take: "\<exists>n. trim_end s = take n s"
proof -
  obtain n where "strip_leading (map rev white_space) (rev s) = drop n (rev s)"
    using strip_leading_drop by blast
  then have "trim_end s = take (length s - n) s"
    by (simp add: trim_end_def rev_drop)
  then show ?thesis ..
qed

lemma trim_end_idem: "trim_end (trim_end s) = trim_end s"
  by (simp add: trim_end_def strip_leading_id strip_leading_fixed)

lemma trim_start_after_end: "leading white_space s = None \<Longrightarrow> trim_start (trim_end s) = trim_end s"
  using trim_end_take [of s] leading_None_prefix [of white_space s]
  by (auto simp: trim_start_def intro: strip_leading_id)

lemma trim_idem [simp]: "trim (trim s) = trim s"
  using trim_start_after_end [of "trim_start s"] strip_leading_fixed [of white_space s]
  by (simp add: trim_def trim_start_def trim_end_idem)

lemma leading_Nil: "leading ws [] = None"
  by (auto simp: leading_def find_None_all starts_with_def)

lemma trim_Nil [simp]: "trim [] = []"
  by (simp add: trim_def trim_end_def trim_start_def strip_leading_id leading_Nil)

lemma trim_length: "length (trim s) \<le> length s"
proof -
  obtain n where "trim_start s = drop n s"
    using strip_leading_drop by (auto simp: trim_start_def)
  moreover obtain k where "trim s = take k (trim_start s)"
    using trim_end_take [of "trim_start s"] by (auto simp: trim_def)
  ultimately show ?thesis by simp
qed

text \<open>A string of letters, digits and punctuation without white space at its ends is trimmed.\<close>

lemma trim_fixed_iff:
  "trim s = s \<longleftrightarrow> leading white_space s = None \<and> leading (map rev white_space) (rev s) = None"
proof
  assume t: "trim s = s"
  obtain n where n: "trim_start s = drop n s"
    using strip_leading_drop by (auto simp: trim_start_def)
  have "length (trim s) \<le> length (trim_start s)"
    using trim_end_take [of "trim_start s"] by (auto simp: trim_def)
  then have "s = [] \<or> n = 0" using t n by (cases s) auto
  then have st: "trim_start s = s" using n by auto
  then have "leading white_space s = None"
    using strip_leading_fixed [of white_space s] by (simp add: trim_start_def)
  moreover have "trim_end s = s" using t st by (simp add: trim_def)
  then have "strip_leading (map rev white_space) (rev s) = rev s"
    by (metis trim_end_def rev_rev_ident)
  then have "leading (map rev white_space) (rev s) = None"
    using strip_leading_fixed [of "map rev white_space" "rev s"] by simp
  ultimately show "leading white_space s = None \<and> leading (map rev white_space) (rev s) = None" ..
next
  assume "leading white_space s = None \<and> leading (map rev white_space) (rev s) = None"
  then show "trim s = s"
    by (simp add: trim_def trim_start_def trim_end_def strip_leading_id)
qed

lemma to_ascii_lower_idem: "to_ascii_lower (to_ascii_lower c) = to_ascii_lower c"
  by (simp add: to_ascii_lower_def Let_def)

lemma ascii_lowercase_idem: "ascii_lowercase (ascii_lowercase s) = ascii_lowercase s"
  by (simp add: ascii_lowercase_def to_ascii_lower_idem)

interpretation trim: idempotent_norm trim
  by unfold_locales simp

interpretation lower: idempotent_norm ascii_lowercase
  by unfold_locales (rule ascii_lowercase_idem)

lemma strip_prefix_append [simp]: "strip_prefix p (p @ s) = Some s"
  by (simp add: strip_prefix_def starts_with_def)

lemma strip_prefix_Some: "strip_prefix p s = Some r \<longleftrightarrow> s = p @ r"
  by (auto simp: strip_prefix_def starts_with_def) (metis append_take_drop_id)

lemma char_count_take_chars: "char_count (take_chars n s) \<le> n"
  by (induction n s rule: take_chars.induct) (auto simp: char_count_def)

lemma take_chars_all: "char_count s \<le> n \<Longrightarrow> take_chars n s = s"
  by (induction n s rule: take_chars.induct) (auto simp: char_count_def split: if_splits)

lemma split_by_nonempty: "split_by p s \<noteq> []"
  by (induction s) (auto split: list.splits)

lemma split_by_pieces: "w \<in> set (split_by p s) \<Longrightarrow> \<forall>c \<in> set w. \<not> p c"
proof (induction s arbitrary: w)
  case Nil
  then show ?case by simp
next
  case (Cons x s)
  show ?case
  proof (cases "p x")
    case True
    with Cons show ?thesis by auto
  next
    case False
    obtain v vs where "split_by p s = v # vs"
      using split_by_nonempty by (meson neq_Nil_conv)
    with Cons False show ?thesis by fastforce
  qed
qed

lemma set_trim: "set (trim s) \<subseteq> set s"
proof -
  obtain n where "trim_start s = drop n s"
    using strip_leading_drop by (auto simp: trim_start_def)
  moreover obtain k where "trim s = take k (trim_start s)"
    using trim_end_take [of "trim_start s"] by (auto simp: trim_def)
  ultimately show ?thesis by (auto dest: in_set_takeD in_set_dropD)
qed

lemma show_nat_nonempty: "show_nat n \<noteq> []"
  by (subst show_nat.simps) simp

lemma digits_value_snoc: "digits_value (s @ [c]) = digits_value s * 10 + (of_char c - 48)"
  by (simp add: digits_value_def)

lemma of_char_digit: "d < 10 \<Longrightarrow> (of_char (char_of (48 + d) :: char) :: nat) = 48 + d"
  by simp

lemma show_nat_digits: "list_all is_ascii_digit (show_nat n) \<and> digits_value (show_nat n) = n"
proof (induction n rule: show_nat.induct)
  case (1 n)
  show ?case
  proof (cases "n < 10")
    case True
    then show ?thesis
      by (subst (1 2) show_nat.simps) (simp add: is_ascii_digit_def digits_value_def)
  next
    case False
    have "n mod 10 < 10" by simp
    then have c: "(of_char (char_of (48 + n mod 10) :: char) :: nat) = 48 + n mod 10"
      by (rule of_char_digit)
    have "digits_value (show_nat n) = digits_value (show_nat (n div 10)) * 10 + n mod 10"
      using False by (subst show_nat.simps) (simp add: digits_value_snoc c)
    moreover have "is_ascii_digit (char_of (48 + n mod 10))"
      using \<open>n mod 10 < 10\<close> by (simp only: is_ascii_digit_def Let_def c) simp
    then have "list_all is_ascii_digit (show_nat n)"
      using 1 [OF False] False by (subst show_nat.simps) simp
    ultimately show ?thesis using 1 [OF False] by simp
  qed
qed

lemma parse_show_nat: "n \<le> bnd \<Longrightarrow> parse_nat bnd (show_nat n) = Some n"
proof -
  assume "n \<le> bnd"
  obtain c cs where s: "show_nat n = c # cs"
    using show_nat_nonempty by (meson neq_Nil_conv)
  have "is_ascii_digit c" using show_nat_digits [of n] s by simp
  then have "c \<noteq> CHR ''+''" by (auto simp: is_ascii_digit_def)
  then show ?thesis
    using s show_nat_digits [of n] \<open>n \<le> bnd\<close> by (simp add: parse_nat_def)
qed

section \<open>Trimming printable text\<close>

definition graphic :: "char \<Rightarrow> bool" where
  "graphic c \<longleftrightarrow> 33 \<le> (of_char c :: nat) \<and> (of_char c :: nat) \<le> 126"

lemma white_space_ends:
  "w \<in> set white_space \<Longrightarrow> w \<noteq> [] \<and> \<not> graphic (hd w) \<and> \<not> graphic (last w)"
  by (auto simp: white_space_def ascii_ws_def unicode_ws_def graphic_def byte_def of_char_of)

lemma leading_graphic:
  assumes "\<And>w. w \<in> set ws \<Longrightarrow> w \<noteq> [] \<and> \<not> graphic (hd w)" and "\<And>c. c \<in> set s \<Longrightarrow> graphic c"
  shows "leading ws s = None"
proof (rule ccontr)
  assume "leading ws s \<noteq> None"
  then obtain w where w: "w \<in> set ws" "w \<noteq> []" "take (length w) s = w"
    by (auto simp: starts_with_def dest: leading_Some)
  then have "hd w \<in> set s" by (metis hd_in_set in_set_takeD)
  then show False using assms w(1) by blast
qed

lemma trim_graphic: "(\<And>c. c \<in> set s \<Longrightarrow> graphic c) \<Longrightarrow> trim s = s"
  unfolding trim_fixed_iff
proof
  assume g: "\<And>c. c \<in> set s \<Longrightarrow> graphic c"
  show "leading white_space s = None" by (rule leading_graphic) (use g white_space_ends in auto)
  show "leading (map rev white_space) (rev s) = None"
    by (rule leading_graphic) (use g white_space_ends in \<open>auto simp: hd_rev\<close>)
qed

lemma eq_char_of_iff: "c = char_of n \<longleftrightarrow> take_bit 8 n = of_char (c :: char)" for n :: nat
  by (metis char_of_eq_iff)

lemma byte_32: "byte 32 = CHR '' ''"
  by (simp add: byte_def char_of_eq_iff)

lemma trim_space: "trim (CHR '' '' # s) = trim s"
proof -
  have "\<exists>w. leading white_space (CHR '' '' # s) = Some w"
  proof (rule ccontr)
    assume "\<not> ?thesis"
    moreover have "[byte 32] \<in> set white_space" by (simp add: white_space_def ascii_ws_def)
    ultimately show False by (auto simp: leading_def find_None_all starts_with_def byte_32)
  qed
  then obtain w where w: "leading white_space (CHR '' '' # s) = Some w" ..
  then have "w \<in> set white_space" "starts_with w (CHR '' '' # s)" by (auto dest: leading_Some)
  then have "w = '' ''"
    by (auto simp: white_space_def ascii_ws_def unicode_ws_def starts_with_def byte_def eq_char_of_iff char_of_eq_iff)
  then have "strip_leading white_space (CHR '' '' # s) = strip_leading white_space s"
    using w by (subst strip_leading.simps) simp
  then show ?thesis by (simp add: trim_def trim_start_def)
qed

end
