(* ===== verification/Proxy_Models.thy ===== *)
theory Proxy_Models
  imports Rust_Strings
begin

text \<open>
  The data the router works on (\<open>src-tauri/src/models.rs\<close>, \<open>vector_policy.rs\<close>,
  \<open>gufo.rs\<close>): routes, API keys, the router configuration with its defaults, running instances
  and targets, and the public model identifier that stands for an instance at the API.
  Of the instance configuration, which has some two hundred launch fields, the record holds
  the fields that the router and the identifier chain read.  Identifiers that the code draws
  at random (\<open>Uuid::new_v4\<close>) are arguments of the constructors.
\<close>

section \<open>Enumerations\<close>

datatype engine_kind = LlamaCpp | Gufo

datatype model_workload = Inference | Embedding | Reranker

fun is_vector :: "model_workload \<Rightarrow> bool" where
  "is_vector w = (w \<noteq> Inference)"

fun workload_as_str :: "model_workload \<Rightarrow> string" where
  "workload_as_str Inference = ''inference''"
| "workload_as_str Embedding = ''embedding''"
| "workload_as_str Reranker = ''reranker''"

definition workload_from_storage :: "string \<Rightarrow> model_workload" where
  "workload_from_storage v =
     (if v = ''embedding'' then Embedding else if v = ''reranker'' then Reranker else Inference)"

section \<open>Records\<close>

record proxy_route =
  rt_id :: string
  rt_enabled :: bool
  rt_model_alias :: string
  rt_target_instance_id :: string
  rt_priority :: int
  rt_weight :: nat
  rt_max_concurrent_requests :: nat

definition proxy_route_default :: "string \<Rightarrow> proxy_route" where
  "proxy_route_default uuid = \<lparr> rt_id = uuid, rt_enabled = True, rt_model_alias = [],
     rt_target_instance_id = [], rt_priority = 0, rt_weight = 1, rt_max_concurrent_requests = 0 \<rparr>"

definition DEFAULT_QUOTA_OUTPUT_TOKENS :: nat where
  "DEFAULT_QUOTA_OUTPUT_TOKENS = 32768"

record proxy_api_key =
  ak_id :: string
  ak_name :: string
  ak_key :: string
  ak_enabled :: bool
  ak_scopes :: "string list"
  ak_requests_per_minute :: nat
  ak_max_concurrent_requests :: nat
  ak_daily_token_budget :: nat
  ak_monthly_token_budget :: nat
  ak_daily_token_limit :: nat
  ak_monthly_token_limit :: nat
  ak_quota_default_output_tokens :: nat

definition proxy_api_key_default :: "string \<Rightarrow> proxy_api_key" where
  "proxy_api_key_default uuid = \<lparr> ak_id = uuid, ak_name = [], ak_key = [], ak_enabled = True,
     ak_scopes = [''inference'', ''discovery''], ak_requests_per_minute = 0,
     ak_max_concurrent_requests = 0, ak_daily_token_budget = 0, ak_monthly_token_budget = 0,
     ak_daily_token_limit = 0, ak_monthly_token_limit = 0,
     ak_quota_default_output_tokens = DEFAULT_QUOTA_OUTPUT_TOKENS \<rparr>"

record proxy_config =
  pc_enabled :: bool
  pc_host :: string
  pc_port :: nat
  pc_public_api_key :: string
  pc_default_instance_id :: string
  pc_routes :: "proxy_route list"
  pc_routing_strategy :: string
  pc_strict_model_routing :: bool
  pc_timeout_ms :: nat
  pc_connect_timeout_ms :: nat
  pc_streaming_idle_timeout_ms :: nat
  pc_health_check_interval_ms :: nat
  pc_health_check_timeout_ms :: nat
  pc_unhealthy_threshold :: nat
  pc_recovery_cooldown_ms :: nat
  pc_max_concurrent_requests :: nat
  pc_queue_timeout_ms :: nat
  pc_fair_queue_enabled :: bool
  pc_requests_per_minute :: nat
  pc_cors_allowed_origins :: "string list"
  pc_api_keys :: "proxy_api_key list"
  pc_background_service_mode :: bool
  pc_runtime_service_enabled :: bool

definition proxy_config_default :: proxy_config where
  "proxy_config_default = \<lparr> pc_enabled = False, pc_host = ''127.0.0.1'', pc_port = 11435,
     pc_public_api_key = [], pc_default_instance_id = [], pc_routes = [],
     pc_routing_strategy = ''priorityFailover'', pc_strict_model_routing = True,
     pc_timeout_ms = 600000, pc_connect_timeout_ms = 5000,
     pc_streaming_idle_timeout_ms = 300000, pc_health_check_interval_ms = 5000,
     pc_health_check_timeout_ms = 2000, pc_unhealthy_threshold = 3,
     pc_recovery_cooldown_ms = 15000, pc_max_concurrent_requests = 64,
     pc_queue_timeout_ms = 1000, pc_fair_queue_enabled = False, pc_requests_per_minute = 0,
     pc_cors_allowed_origins = [], pc_api_keys = [], pc_background_service_mode = False,
     pc_runtime_service_enabled = False \<rparr>"

record proxy_target =
  pt_instance_id :: string
  pt_name :: string
  pt_alias :: string
  pt_host :: string
  pt_port :: nat
  pt_running :: bool

record instance_config =
  ic_engine_kind :: engine_kind
  ic_launch_mode :: string
  ic_explicit_overrides :: "string list option"
  ic_name :: string
  ic_model_path :: string
  ic_alias :: string
  ic_ctx_size :: nat
  ic_ctx_size_auto :: bool
  ic_host :: string
  ic_port :: nat
  ic_api_key :: string
  ic_api_key_file :: string
  ic_ssl_key_file :: string
  ic_ssl_cert_file :: string
  ic_api_prefix :: string
  ic_embedding :: bool
  ic_reranking :: bool

record running_instance =
  ri_instance_id :: string
  ri_port :: nat
  ri_host :: string
  ri_telemetry_session_id :: "string option"
  ri_workload :: string
  ri_launch_config :: "instance_config option"

section \<open>Public model identifiers\<close>

abbreviation is_separator :: "char \<Rightarrow> bool" where
  "is_separator c \<equiv> c = CHR ''/'' \<or> c = CHR 0x5C"

definition gguf_suffix :: string where
  "gguf_suffix = ''.gguf''"

definition model_file_stem :: "string \<Rightarrow> string option" where
  "model_file_stem value =
     (case find (\<lambda>component. trim component \<noteq> []) (rev (split_by is_separator (trim value))) of
        None \<Rightarrow> None
      | Some component \<Rightarrow>
          (let file_name = trim component
           in if file_name = [] then None
              else (let stem = trim (case strip_suffix gguf_suffix (ascii_lowercase file_name) of
                                       Some _ \<Rightarrow> take (length file_name - length gguf_suffix) file_name
                                     | None \<Rightarrow> file_name)
                    in if stem \<noteq> [] then Some stem else None)))"

definition public_model_id :: "instance_config \<Rightarrow> string" where
  "public_model_id config =
     (let alias = trim (ic_alias config);
          name = trim (ic_name config);
          from_path = (case model_file_stem (ic_model_path config) of
                         Some s \<Rightarrow> s | None \<Rightarrow> ''model'')
      in if alias \<noteq> [] then alias
         else if name \<noteq> [] then
           (if \<not> list_ex is_separator name then name
            else (case model_file_stem name of Some stem \<Rightarrow> stem | None \<Rightarrow> from_path))
         else from_path)"

definition ensure_managed_public_model_alias :: "instance_config \<Rightarrow> instance_config \<times> bool" where
  "ensure_managed_public_model_alias config =
     (if eq_ignore_ascii_case (ic_launch_mode config) ''manual'' then (config, False)
      else if trim (ic_alias config) = [] \<and> trim (ic_name config) = []
              \<and> model_file_stem (ic_model_path config) = None then (config, False)
      else
        (let alias = public_model_id config;
             changed1 = (ic_alias config \<noteq> alias);
             config1 = (if changed1 then config\<lparr>ic_alias := alias\<rparr> else config)
         in case ic_explicit_overrides config1 of
              None \<Rightarrow> (config1, changed1)
            | Some ov \<Rightarrow>
                if \<not> list_ex (\<lambda>field. field = ''alias'') ov
                then (config1\<lparr>ic_explicit_overrides := Some (ov @ [''alias''])\<rparr>, True)
                else (config1, changed1)))"

section \<open>Laws\<close>

lemma workload_roundtrip [simp]: "workload_from_storage (workload_as_str w) = w"
  by (cases w) (simp_all add: workload_from_storage_def)

lemma model_file_stem_no_separator:
  assumes "model_file_stem v = Some s"
  shows "s \<noteq> [] \<and> trim s = s \<and> \<not> list_ex is_separator s"
proof -
  obtain comp where comp: "comp \<in> set (split_by is_separator (trim v))"
    and s: "s \<noteq> []" "trim s = s" and sub: "set s \<subseteq> set (trim comp)"
    using assms set_trim
    by (fastforce simp: model_file_stem_def Let_def split: option.splits if_splits
        dest: find_SomeD in_set_takeD)
  have "\<forall>c \<in> set comp. \<not> is_separator c" by (rule split_by_pieces [OF comp])
  then have "\<not> list_ex is_separator s"
    using sub set_trim [of comp] by (auto simp: list_ex_iff)
  with s show ?thesis by blast
qed

lemma public_model_id_props:
  "public_model_id c \<noteq> [] \<and> (trim (ic_alias c) = [] \<longrightarrow> \<not> list_ex is_separator (public_model_id c))"
  by (auto simp: public_model_id_def Let_def dest: model_file_stem_no_separator split: option.splits)

end
