(* ===== verification/Admission.thy ===== *)
theory Admission
  imports Proxy_Models
begin

text \<open>
  The admission gate of the router (\<open>src-tauri/src/commands/proxy_admission.rs\<close>): a global and
  a per-key concurrency limit, a bounded queue of waiters and, in fair mode, a rotation of the
  keys that wait.  Every operation runs under one mutex, so an operation is a function on the
  state.  The asynchronous \<open>acquire\<close> is split where it releases the mutex: \<open>acquire_start\<close>
  is its first critical section, \<open>acquire_poll\<close> one turn of its loop, \<open>waiter_drop\<close> the
  destructor that runs when the wait ends by success, timeout or cancellation.  \<open>adm_step\<close>
  interleaves these sections in any order; \<open>adm_inv\<close> is what every interleaving keeps.
\<close>

section \<open>State and operations\<close>

definition MAX_WAITERS :: nat where "MAX_WAITERS = 4096"
definition MAX_KEY_WAITERS :: nat where "MAX_KEY_WAITERS = 256"

record adm =
  adm_limit :: nat
  adm_fair :: bool
  adm_limits :: "(string, nat) hmap"
  adm_next :: u64
  adm_waiting :: "(u64 \<times> string) list"
  adm_turns :: "string list"
  adm_active :: "(u64, string \<times> string \<times> string) hmap"
  adm_key_active :: "(string, nat) hmap"

definition adm_default :: adm where
  "adm_default = \<lparr> adm_limit = 64, adm_fair = False, adm_limits = [], adm_next = 0,
     adm_waiting = [], adm_turns = [], adm_active = [], adm_key_active = [] \<rparr>"

definition key_limit :: "adm \<Rightarrow> string \<Rightarrow> nat" where
  "key_limit s key =
     min (case hm_get (adm_limits s) key of
            Some n \<Rightarrow> if 0 < n then n else adm_limit s
          | None \<Rightarrow> adm_limit s)
         (adm_limit s)"

definition available :: "adm \<Rightarrow> string \<Rightarrow> bool" where
  "available s key = (hm_get_or 0 (adm_key_active s) key < key_limit s key)"

definition selected :: "adm \<Rightarrow> u64 option" where
  "selected s =
     (if adm_limit s \<le> length (adm_active s) then None
      else if adm_fair s then
        (case find (available s) (adm_turns s) of
           None \<Rightarrow> None
         | Some key \<Rightarrow> map_option fst (find (\<lambda>(_, k). k = key) (adm_waiting s)))
      else map_option fst (find (\<lambda>(_, key). available s key) (adm_waiting s)))"

fun take_ticket :: "u64 \<Rightarrow> (u64 \<times> string) list \<Rightarrow> (string \<times> (u64 \<times> string) list) option" where
  "take_ticket i [] = None"
| "take_ticket i ((t, k) # ws) =
     (if t = i then Some (k, ws)
      else map_option (\<lambda>(key, rest). (key, (t, k) # rest)) (take_ticket i ws))"

definition remove_waiter :: "u64 \<Rightarrow> bool \<Rightarrow> adm \<Rightarrow> adm \<times> string option" where
  "remove_waiter i rot s =
     (case take_ticket i (adm_waiting s) of
        None \<Rightarrow> (s, None)
      | Some (key, rest) \<Rightarrow>
          (let remaining = list_ex (\<lambda>(_, k). k = key) rest;
               turns = (if rot \<or> \<not> remaining
                        then filter (\<lambda>k. k \<noteq> key) (adm_turns s) @ (if remaining then [key] else [])
                        else adm_turns s)
           in (s\<lparr>adm_waiting := rest, adm_turns := turns\<rparr>, Some key)))"

definition waiter_drop :: "u64 \<Rightarrow> adm \<Rightarrow> adm" where
  "waiter_drop i s = fst (remove_waiter i False s)"

definition permit_target :: "u64 \<Rightarrow> string \<Rightarrow> string \<Rightarrow> adm \<Rightarrow> adm" where
  "permit_target i model inst s =
     (case hm_get (adm_active s) i of
        None \<Rightarrow> s
      | Some (key, _, _) \<Rightarrow>
          s\<lparr>adm_active := hm_insert i (key, take_chars 512 model, inst) (adm_active s)\<rparr>)"

definition permit_drop :: "u64 \<Rightarrow> adm \<Rightarrow> adm" where
  "permit_drop i s =
     (case hm_get (adm_active s) i of
        None \<Rightarrow> s
      | Some (key, _, _) \<Rightarrow>
          (let s1 = s\<lparr>adm_active := hm_remove i (adm_active s)\<rparr>
           in case hm_get (adm_key_active s1) key of
                None \<Rightarrow> s1
              | Some count \<Rightarrow>
                  (let count' = count - 1
                   in s1\<lparr>adm_key_active :=
                          (if count' = 0 then hm_remove key (adm_key_active s1)
                           else hm_insert key count' (adm_key_active s1))\<rparr>)))"

definition adm_configure :: "proxy_config \<Rightarrow> adm \<Rightarrow> adm" where
  "adm_configure config s =
     s\<lparr> adm_limit := max (pc_max_concurrent_requests config) 1,
        adm_fair := pc_fair_queue_enabled config,
        adm_limits := fold (\<lambda>key. hm_insert (ak_id key) (ak_max_concurrent_requests key))
                        (pc_api_keys config) [] \<rparr>"

definition admit :: "u64 \<Rightarrow> string \<Rightarrow> adm \<Rightarrow> adm" where
  "admit i key s =
     s\<lparr> adm_key_active := hm_incr key (adm_key_active s),
        adm_active := hm_insert i (key, [], []) (adm_active s) \<rparr>"

datatype start_result = Granted u64 | Rejected | Queued u64

definition acquire_start :: "string \<Rightarrow> adm \<Rightarrow> adm \<times> start_result" where
  "acquire_start key s =
     (if length (adm_active s) < adm_limit s \<and> available s key \<and> selected s = None
      then (let i = adm_next s
            in (admit i key (s\<lparr>adm_next := i + 1\<rparr>), Granted i))
      else if MAX_WAITERS \<le> length (adm_waiting s)
              \<or> MAX_KEY_WAITERS \<le> length (filter (\<lambda>(_, k). k = key) (adm_waiting s))
      then (s, Rejected)
      else (let i = adm_next s
            in (s\<lparr> adm_next := i + 1,
                   adm_turns := (if list_ex (\<lambda>k. k = key) (adm_turns s) then adm_turns s
                                 else adm_turns s @ [key]),
                   adm_waiting := adm_waiting s @ [(i, key)] \<rparr>, Queued i)))"

text \<open>
  One turn of the waiting loop.  \<open>Pending\<close>: not selected yet, wait for a notification;
  \<open>Panicked\<close>: the \<open>unwrap\<close> of \<open>remove_waiter\<close> failed.
\<close>

datatype poll_result = Pending | Acquired adm | Panicked

definition acquire_poll :: "u64 \<Rightarrow> adm \<Rightarrow> poll_result" where
  "acquire_poll i s =
     (if selected s = Some i
      then (case remove_waiter i True s of
              (s1, Some key) \<Rightarrow> Acquired (admit i key s1)
            | (s1, None) \<Rightarrow> Panicked)
      else Pending)"

definition active_count :: "adm \<Rightarrow> nat" where
  "active_count s = length (adm_active s)"

record key_snapshot =
  ks_id :: string
  ks_active :: nat
  ks_queued :: nat
  ks_limit :: nat

record adm_snapshot =
  sn_active :: nat
  sn_queued :: nat
  sn_limit :: nat
  sn_queue_limit :: nat
  sn_fair :: bool
  sn_keys :: "(string, key_snapshot) hmap"
  sn_models :: "(string, nat) hmap"
  sn_instances :: "(string, nat) hmap"

definition snapshot_entry :: "adm \<Rightarrow> string \<Rightarrow> (string, key_snapshot) hmap \<Rightarrow> (string, key_snapshot) hmap" where
  "snapshot_entry s key keys =
     (case hm_get keys key of
        Some _ \<Rightarrow> keys
      | None \<Rightarrow> hm_insert key \<lparr> ks_id = key, ks_active = hm_get_or 0 (adm_key_active s) key,
                             ks_queued = 0, ks_limit = key_limit s key \<rparr> keys)"

text \<open>\<open>keys.get_mut(key).unwrap().queued += 1\<close> panics (\<open>None\<close>) when the key has no entry.\<close>

fun count_queued :: "(u64 \<times> string) list \<Rightarrow> (string, key_snapshot) hmap \<Rightarrow> (string, key_snapshot) hmap option" where
  "count_queued [] keys = Some keys"
| "count_queued ((_, key) # ws) keys =
     (case hm_get keys key of
        None \<Rightarrow> None
      | Some e \<Rightarrow> count_queued ws (hm_insert key (e\<lparr>ks_queued := ks_queued e + 1\<rparr>) keys))"

definition count_named :: "string \<Rightarrow> (string, nat) hmap \<Rightarrow> (string, nat) hmap" where
  "count_named name m = (if name \<noteq> [] then hm_incr name m else m)"

definition adm_snapshot_of :: "adm \<Rightarrow> adm_snapshot option" where
  "adm_snapshot_of s =
     (let keys = fold (snapshot_entry s)
                   (hm_keys (adm_limits s) @ hm_keys (adm_key_active s) @ adm_turns s) []
      in case count_queued (adm_waiting s) keys of
           None \<Rightarrow> None
         | Some keys' \<Rightarrow> Some
             \<lparr> sn_active = length (adm_active s), sn_queued = length (adm_waiting s),
               sn_limit = adm_limit s, sn_queue_limit = MAX_WAITERS, sn_fair = adm_fair s,
               sn_keys = keys',
               sn_models = fold (\<lambda>(_, _, model, _). count_named model) (adm_active s) [],
               sn_instances = fold (\<lambda>(_, _, _, inst). count_named inst) (adm_active s) [] \<rparr>)"

section \<open>Interleavings\<close>

text \<open>
  A state of the interleaving semantics is the number of tickets drawn so far together with the
  gate.  The ticket counter is a wrapping 64-bit word; the invariant is claimed while at most
  \<open>2^64\<close> tickets were drawn.
\<close>

fun drawn :: "start_result \<Rightarrow> nat \<Rightarrow> nat" where
  "drawn Rejected n = n"
| "drawn (Granted i) n = Suc n"
| "drawn (Queued i) n = Suc n"

inductive adm_step :: "nat \<times> adm \<Rightarrow> nat \<times> adm \<Rightarrow> bool" where
  step_configure: "adm_step (n, s) (n, adm_configure config s)"
| step_start: "acquire_start key s = (s', r) \<Longrightarrow> adm_step (n, s) (drawn r n, s')"
| step_poll: "acquire_poll i s = Acquired s' \<Longrightarrow> adm_step (n, s) (n, s')"
| step_cancel: "adm_step (n, s) (n, waiter_drop i s)"
| step_target: "adm_step (n, s) (n, permit_target i model inst s)"
| step_release: "adm_step (n, s) (n, permit_drop i s)"

inductive_cases adm_stepE: "adm_step (n, s) t"

definition adm_init :: "nat \<times> adm \<Rightarrow> bool" where
  "adm_init p = (p = (0, adm_default))"

section \<open>Invariant\<close>

definition holders :: "adm \<Rightarrow> string \<Rightarrow> nat" where
  "holders s key = length (filter (\<lambda>(_, k, _). k = key) (adm_active s))"

definition waiters :: "adm \<Rightarrow> string \<Rightarrow> nat" where
  "waiters s key = length (filter (\<lambda>(_, k). k = key) (adm_waiting s))"

definition tickets :: "nat \<Rightarrow> u64 set" where
  "tickets n = of_nat ` {..<n}"

definition queue_ok :: "adm \<Rightarrow> bool" where
  "queue_ok s \<longleftrightarrow> distinct (adm_turns s) \<and> set (adm_turns s) = snd ` set (adm_waiting s)
     \<and> length (adm_waiting s) \<le> MAX_WAITERS \<and> (\<forall>key. waiters s key \<le> MAX_KEY_WAITERS)"

definition counts_ok :: "adm \<Rightarrow> bool" where
  "counts_ok s \<longleftrightarrow> hm_ok (adm_key_active s)
     \<and> (\<forall>key. hm_get (adm_key_active s) key
               = (if holders s key = 0 then None else Some (holders s key)))"

definition ids_ok :: "nat \<Rightarrow> adm \<Rightarrow> bool" where
  "ids_ok n s \<longleftrightarrow> adm_next s = of_nat n
     \<and> distinct (map fst (adm_waiting s) @ hm_keys (adm_active s))
     \<and> set (map fst (adm_waiting s) @ hm_keys (adm_active s)) \<subseteq> tickets n"

definition adm_ok :: "nat \<Rightarrow> adm \<Rightarrow> bool" where
  "adm_ok n s \<longleftrightarrow> 1 \<le> adm_limit s \<and> ids_ok n s \<and> queue_ok s \<and> counts_ok s"

definition adm_inv :: "nat \<times> adm \<Rightarrow> bool" where
  "adm_inv p = (fst p \<le> 2 ^ 64 \<longrightarrow> adm_ok (fst p) (snd p))"

section \<open>Library lemmas\<close>

lemma tickets_mono [intro]: "i \<in> tickets n \<Longrightarrow> i \<in> tickets (Suc n)"
  by (auto simp: tickets_def)

lemma ticket_fresh: "n < 2 ^ 64 \<Longrightarrow> (of_nat n :: u64) \<notin> tickets n"
  by (auto simp: tickets_def word_of_nat_eq_iff take_bit_nat_eq_self)

lemma ticket_next: "(of_nat n :: u64) \<in> tickets (Suc n)"
  by (auto simp: tickets_def)

lemma take_ticket_None: "take_ticket i ws = None \<longleftrightarrow> i \<notin> fst ` set ws"
  by (induction i ws rule: take_ticket.induct) auto

lemma take_ticket_SomeE:
  assumes "take_ticket i ws = Some (key, rest)"
  obtains pre post where "ws = pre @ (i, key) # post" "rest = pre @ post" "i \<notin> fst ` set pre"
  using assms
proof (induction ws arbitrary: rest thesis)
  case Nil
  then show ?case by simp
next
  case (Cons w ws)
  obtain t k where w: "w = (t, k)" by fastforce
  show ?case
  proof (cases "t = i")
    case True
    then show ?thesis using Cons.prems w by (intro Cons.prems(1) [of "[]" ws]) auto
  next
    case False
    then obtain r where r: "take_ticket i ws = Some (key, r)" "rest = w # r"
      using Cons.prems(2) w by auto
    show ?thesis
      by (rule Cons.IH [OF _ r(1)], rule_tac pre = "w # pre" and post = post in Cons.prems(1))
        (use r False w in auto)
  qed
qed

lemma take_ticket_unique:
  "i \<notin> fst ` set pre \<Longrightarrow> take_ticket i (pre @ (i, key) # post) = Some (key, pre @ post)"
  by (induction pre) auto

lemma remove_waiter_absent: "i \<notin> fst ` set (adm_waiting s) \<Longrightarrow> remove_waiter i r s = (s, None)"
  by (simp add: remove_waiter_def take_ticket_None [THEN iffD2])

lemma remove_waiter_fields:
  "adm_limit (fst (remove_waiter i r s)) = adm_limit s"
  "adm_limits (fst (remove_waiter i r s)) = adm_limits s"
  "adm_next (fst (remove_waiter i r s)) = adm_next s"
  "adm_active (fst (remove_waiter i r s)) = adm_active s"
  "adm_key_active (fst (remove_waiter i r s)) = adm_key_active s"
  "adm_fair (fst (remove_waiter i r s)) = adm_fair s"
  by (auto simp: remove_waiter_def Let_def split: option.splits)

lemma remove_waiter_waiting:
  "remove_waiter i r s = (s', Some key) \<Longrightarrow> take_ticket i (adm_waiting s) = Some (key, adm_waiting s')"
  by (auto simp: remove_waiter_def Let_def split: option.splits)

lemma remove_waiter_queue_ok:
  assumes "queue_ok s"
  shows "queue_ok (fst (remove_waiter i r s))"
proof (cases "take_ticket i (adm_waiting s)")
  case None
  then show ?thesis using assms by (simp add: remove_waiter_def)
next
  case (Some p)
  then obtain key rest where t: "take_ticket i (adm_waiting s) = Some (key, rest)" by (cases p) auto
  then obtain pre post where w: "adm_waiting s = pre @ (i, key) # post" "rest = pre @ post"
    by (elim take_ticket_SomeE)
  have wle: "waiters (fst (remove_waiter i r s)) k \<le> waiters s k" for k
    using t w by (simp add: remove_waiter_def Let_def waiters_def)
  have len: "length (adm_waiting (fst (remove_waiter i r s))) \<le> length (adm_waiting s)"
    using t w by (simp add: remove_waiter_def Let_def)
  have ex: "list_ex (\<lambda>(_, k). k = key) rest \<longleftrightarrow> key \<in> snd ` set rest"
    by (force simp: list_ex_iff)
  have "set (adm_turns s) = insert key (snd ` set rest)" "distinct (adm_turns s)"
    using assms w by (auto simp: queue_ok_def)
  then have "set (adm_turns (fst (remove_waiter i r s))) = snd ` set rest
      \<and> distinct (adm_turns (fst (remove_waiter i r s)))"
    using t by (auto simp: remove_waiter_def ex)
  moreover have "adm_waiting (fst (remove_waiter i r s)) = rest"
    using t by (simp add: remove_waiter_def Let_def)
  moreover have "waiters (fst (remove_waiter i r s)) k \<le> MAX_KEY_WAITERS" for k
    using wle [of k] assms unfolding queue_ok_def by (metis order_trans)
  moreover have "length (adm_waiting (fst (remove_waiter i r s))) \<le> MAX_WAITERS"
    using len assms unfolding queue_ok_def by linarith
  ultimately show ?thesis unfolding queue_ok_def by simp
qed

lemma remove_waiter_ids_ok:
  assumes "ids_ok n s"
  shows "ids_ok n (fst (remove_waiter i r s))"
proof (cases "take_ticket i (adm_waiting s)")
  case None
  then show ?thesis using assms by (simp add: remove_waiter_def)
next
  case (Some p)
  then obtain key rest where t: "take_ticket i (adm_waiting s) = Some (key, rest)" by (cases p) auto
  then obtain pre post where w: "adm_waiting s = pre @ (i, key) # post" "rest = pre @ post"
    by (elim take_ticket_SomeE)
  then show ?thesis
    using assms t by (auto simp: ids_ok_def remove_waiter_def Let_def)
qed

lemma remove_waiter_counts_ok: "counts_ok s \<Longrightarrow> counts_ok (fst (remove_waiter i r s))"
  by (simp add: counts_ok_def holders_def remove_waiter_fields)

lemma admit_counts_ok:
  assumes "counts_ok s" and "i \<notin> set (hm_keys (adm_active s))"
  shows "counts_ok (admit i key s)"
proof -
  have "holders (admit i key s) k = holders s k + (if k = key then 1 else 0)" for k
    using assms(2) by (simp add: holders_def admit_def hm_length_insert_new)
  moreover have "hm_get_or 0 (adm_key_active s) k = holders s k" for k
    using assms(1) by (simp add: counts_ok_def hm_get_or_def)
  ultimately show ?thesis
    using assms(1) by (auto simp: counts_ok_def admit_def hm_incr_def)
qed

lemma admit_ids_ok:
  assumes "distinct (i # map fst (adm_waiting s) @ hm_keys (adm_active s))"
    and "set (i # map fst (adm_waiting s) @ hm_keys (adm_active s)) \<subseteq> tickets n"
    and "adm_next s = of_nat n"
  shows "ids_ok n (admit i key s)"
  using assms by (auto simp: ids_ok_def admit_def hm_length_insert_new)

lemma admit_queue_ok: "queue_ok s \<Longrightarrow> queue_ok (admit i key s)"
  by (simp add: queue_ok_def admit_def waiters_def)

lemma counts_okD: "counts_ok s \<Longrightarrow> hm_get_or 0 (adm_key_active s) key = holders s key"
  by (simp add: counts_ok_def hm_get_or_def)

lemma holders_remove:
  assumes "hm_ok (adm_active s)" and "hm_get (adm_active s) i = Some (key, m, t)"
  shows "holders s k = holders (s\<lparr>adm_active := hm_remove i (adm_active s)\<rparr>) k
           + (if k = key then 1 else 0)"
proof -
  obtain pre post where a: "adm_active s = pre @ (i, key, m, t) # post"
    using map_of_SomeD [OF assms(2)] by (meson split_list)
  then have "i \<notin> fst ` set pre" "i \<notin> fst ` set post" using assms(1) by auto
  then have "hm_remove i pre = pre" "hm_remove i post = post" by simp_all
  then have "hm_remove i (adm_active s) = pre @ post"
    using a by (simp add: hm_remove_filter)
  then show ?thesis using a by (simp add: holders_def)
qed

lemma permit_drop_counts_ok:
  assumes "counts_ok s" and "hm_ok (adm_active s)"
  shows "counts_ok (permit_drop i s)"
proof (cases "hm_get (adm_active s) i")
  case None
  then show ?thesis using assms by (simp add: permit_drop_def)
next
  case (Some v)
  then obtain key m t where v: "hm_get (adm_active s) i = Some (key, m, t)" by (cases v) auto
  have h: "holders s k = holders (s\<lparr>adm_active := hm_remove i (adm_active s)\<rparr>) k
             + (if k = key then 1 else 0)" for k
    by (rule holders_remove [OF assms(2) v])
  have hd: "holders (permit_drop i s) k = holders (s\<lparr>adm_active := hm_remove i (adm_active s)\<rparr>) k" for k
    using v by (auto simp: permit_drop_def holders_def Let_def split: option.splits)
  have c: "hm_get (adm_key_active s) key = Some (holders s key)"
    using assms(1) h [of key] by (simp add: counts_ok_def)
  then show ?thesis
    using assms(1) v hd h [of key] h
    by (auto simp: counts_ok_def permit_drop_def Let_def)
qed

lemma permit_drop_fields [simp]:
  "adm_limit (permit_drop i s) = adm_limit s"
  "adm_waiting (permit_drop i s) = adm_waiting s"
  "adm_turns (permit_drop i s) = adm_turns s"
  "adm_next (permit_drop i s) = adm_next s"
  "adm_active (permit_drop i s) = hm_remove i (adm_active s)"
  by (auto simp: permit_drop_def Let_def hm_get_None_iff split: option.splits)

lemma permit_target_fields [simp]:
  "adm_limit (permit_target i m t s) = adm_limit s"
  "adm_waiting (permit_target i m t s) = adm_waiting s"
  "adm_turns (permit_target i m t s) = adm_turns s"
  "adm_next (permit_target i m t s) = adm_next s"
  "adm_key_active (permit_target i m t s) = adm_key_active s"
  "hm_keys (adm_active (permit_target i m t s)) = hm_keys (adm_active s)"
  by (auto simp: permit_target_def update_keys map_of_SomeD dest: map_of_SomeD split: option.splits
      intro: rev_image_eqI)

lemma holders_insert_same:
  assumes "hm_get xs i = Some (key, m, t)"
  shows "length (filter (\<lambda>(_, k, _). k = x) (hm_insert i (key, m', t') xs))
       = length (filter (\<lambda>(_, k, _). k = x) xs)"
  using assms by (induction xs) (auto split: if_splits)

lemma permit_target_counts_ok: "counts_ok s \<Longrightarrow> counts_ok (permit_target i m t s)"
proof -
  have "holders (permit_target i m t s) k = holders s k" for k
    by (auto simp: permit_target_def holders_def holders_insert_same split: option.splits)
  then show "counts_ok s \<Longrightarrow> ?thesis" by (simp add: counts_ok_def)
qed

lemma selected_waiting:
  assumes "selected s = Some i"
  obtains key where "(i, key) \<in> set (adm_waiting s)" "available s key"
    "length (adm_active s) < adm_limit s"
  using assms
  by (auto simp: selected_def not_le split: if_splits option.splits dest!: find_SomeD)

lemma acquire_poll_no_panic: "acquire_poll i s \<noteq> Panicked"
proof
  assume p: "acquire_poll i s = Panicked"
  then have "selected s = Some i" by (auto simp: acquire_poll_def split: if_splits)
  then have "take_ticket i (adm_waiting s) \<noteq> None"
    by (elim selected_waiting) (simp add: take_ticket_None rev_image_eqI)
  then show False
    using p by (auto simp: acquire_poll_def remove_waiter_def Let_def split: if_splits)
qed

lemma acquire_poll_AcquiredE:
  assumes "acquire_poll i s = Acquired s'"
  obtains s1 key where "selected s = Some i" "remove_waiter i True s = (s1, Some key)"
    "s' = admit i key s1"
  using assms by (auto simp: acquire_poll_def split: if_splits prod.splits option.splits)

section \<open>The invariant is kept by every step\<close>

lemma adm_okI: "1 \<le> adm_limit s \<Longrightarrow> ids_ok n s \<Longrightarrow> queue_ok s \<Longrightarrow> counts_ok s \<Longrightarrow> adm_ok n s"
  by (simp add: adm_ok_def)

lemma adm_okD:
  assumes "adm_ok n s"
  shows "1 \<le> adm_limit s" "ids_ok n s" "queue_ok s" "counts_ok s"
  using assms by (simp_all add: adm_ok_def)

lemma ids_ok_next_fresh:
  assumes "ids_ok n s" "n < 2 ^ 64"
  shows "adm_next s \<notin> tickets n" "adm_next s \<in> tickets (Suc n)"
    "adm_next s \<notin> fst ` set (adm_waiting s)" "adm_next s \<notin> fst ` set (adm_active s)"
proof -
  show f: "adm_next s \<notin> tickets n" using assms ticket_fresh by (simp add: ids_ok_def)
  show "adm_next s \<in> tickets (Suc n)" using assms ticket_next by (simp add: ids_ok_def)
  show "adm_next s \<notin> fst ` set (adm_waiting s)" "adm_next s \<notin> fst ` set (adm_active s)"
    using f assms(1) by (auto simp: ids_ok_def)
qed

lemma ids_ok_grow:
  assumes "ids_ok n s"
  shows "set (map fst (adm_waiting s) @ hm_keys (adm_active s)) \<subseteq> tickets (Suc n)"
proof
  fix x
  assume "x \<in> set (map fst (adm_waiting s) @ hm_keys (adm_active s))"
  then have "x \<in> tickets n" using assms unfolding ids_ok_def by blast
  then show "x \<in> tickets (Suc n)" by (rule tickets_mono)
qed

lemma grant_ok:
  assumes "adm_ok n s" "n < 2 ^ 64"
  shows "adm_ok (Suc n) (admit (adm_next s) key (s\<lparr>adm_next := adm_next s + 1\<rparr>))"
proof (rule adm_okI)
  note ok = adm_okD [OF assms(1)] and fresh = ids_ok_next_fresh [OF adm_okD(2) [OF assms(1)] assms(2)]
  show "1 \<le> adm_limit (admit (adm_next s) key (s\<lparr>adm_next := adm_next s + 1\<rparr>))"
    using ok(1) by (simp add: admit_def)
  show "ids_ok (Suc n) (admit (adm_next s) key (s\<lparr>adm_next := adm_next s + 1\<rparr>))"
  proof (rule admit_ids_ok)
    let ?t = "s\<lparr>adm_next := adm_next s + 1\<rparr>"
    show "distinct (adm_next s # map fst (adm_waiting ?t) @ hm_keys (adm_active ?t))"
      using ok(2) fresh by (simp add: ids_ok_def)
    show "set (adm_next s # map fst (adm_waiting ?t) @ hm_keys (adm_active ?t)) \<subseteq> tickets (Suc n)"
      using ids_ok_grow [OF ok(2)] fresh(2) by simp
    show "adm_next ?t = of_nat (Suc n)"
      using ok(2) by (simp add: ids_ok_def add.commute)
  qed
  show "queue_ok (admit (adm_next s) key (s\<lparr>adm_next := adm_next s + 1\<rparr>))"
    using ok(3) by (intro admit_queue_ok) (simp add: queue_ok_def waiters_def)
  show "counts_ok (admit (adm_next s) key (s\<lparr>adm_next := adm_next s + 1\<rparr>))"
    by (rule admit_counts_ok)
      (use ok(4) fresh(4) in \<open>simp_all add: counts_ok_def holders_def\<close>)
qed

definition enqueue :: "string \<Rightarrow> adm \<Rightarrow> adm" where
  "enqueue key s = s\<lparr> adm_next := adm_next s + 1,
      adm_turns := (if list_ex (\<lambda>k. k = key) (adm_turns s) then adm_turns s else adm_turns s @ [key]),
      adm_waiting := adm_waiting s @ [(adm_next s, key)] \<rparr>"

lemma enqueue_ok:
  assumes "adm_ok n s" "n < 2 ^ 64"
    and room: "length (adm_waiting s) < MAX_WAITERS" "waiters s key < MAX_KEY_WAITERS"
  shows "adm_ok (Suc n) (enqueue key s)"
proof (rule adm_okI)
  note ok = adm_okD [OF assms(1)] and fresh = ids_ok_next_fresh [OF adm_okD(2) [OF assms(1)] assms(2)]
  show "1 \<le> adm_limit (enqueue key s)" using ok(1) by (simp add: enqueue_def)
  have "adm_next (enqueue key s) = of_nat (Suc n)"
    using ok(2) by (simp add: ids_ok_def enqueue_def add.commute)
  moreover have "distinct (map fst (adm_waiting (enqueue key s)) @ hm_keys (adm_active (enqueue key s)))"
    using ok(2) fresh(3,4) by (simp add: ids_ok_def enqueue_def)
  moreover have "set (map fst (adm_waiting (enqueue key s)) @ hm_keys (adm_active (enqueue key s)))
      \<subseteq> tickets (Suc n)"
    using ids_ok_grow [OF ok(2)] fresh(2) by (simp add: enqueue_def)
  ultimately show "ids_ok (Suc n) (enqueue key s)" by (simp add: ids_ok_def)
  show "queue_ok (enqueue key s)"
    using ok(3) room unfolding queue_ok_def enqueue_def
    by (auto simp: waiters_def list_ex_iff Suc_le_eq)
  show "counts_ok (enqueue key s)"
    using ok(4) by (simp add: counts_ok_def holders_def enqueue_def)
qed

lemma acquire_start_GrantedD:
  assumes "acquire_start key s = (s', Granted i)"
  shows "i = adm_next s" "s' = admit (adm_next s) key (s\<lparr>adm_next := adm_next s + 1\<rparr>)"
    "length (adm_active s) < adm_limit s" "available s key" "selected s = None"
  using assms by (auto simp: acquire_start_def Let_def split: if_splits)

lemma acquire_start_QueuedD:
  assumes "acquire_start key s = (s', Queued i)"
  shows "i = adm_next s" "s' = enqueue key s"
    "length (adm_waiting s) < MAX_WAITERS" "waiters s key < MAX_KEY_WAITERS"
  using assms by (auto simp: acquire_start_def Let_def enqueue_def waiters_def not_le split: if_splits)

lemma acquire_start_RejectedD:
  assumes "acquire_start key s = (s', Rejected)"
  shows "s' = s" "length (adm_waiting s) \<ge> MAX_WAITERS \<or> waiters s key \<ge> MAX_KEY_WAITERS"
  using assms by (auto simp: acquire_start_def Let_def waiters_def split: if_splits)

lemma acquire_start_inv:
  assumes "adm_inv (n, s)" and "acquire_start key s = (s', r)"
  shows "adm_inv (drawn r n, s')"
proof (cases r)
  case Rejected
  then show ?thesis using assms acquire_start_RejectedD(1) [of key s s'] by simp
next
  case (Granted i)
  with assms show ?thesis
    by (auto simp: adm_inv_def Suc_le_eq dest!: acquire_start_GrantedD(2) intro: grant_ok)
next
  case (Queued i)
  note q = acquire_start_QueuedD [OF assms(2) [unfolded Queued]]
  show ?thesis
    using assms(1) q(3,4) unfolding Queued q(2)
    by (auto simp: adm_inv_def Suc_le_eq intro: enqueue_ok)
qed

lemma acquire_poll_ok:
  assumes "adm_ok n s" and st: "acquire_poll i s = Acquired s'"
  shows "adm_ok n s'"
proof (rule adm_okI)
  note ok = adm_okD [OF assms(1)]
  obtain s1 key where s1: "remove_waiter i True s = (s1, Some key)" "s' = admit i key s1"
    by (rule acquire_poll_AcquiredE [OF st])
  have fs: "fst (remove_waiter i True s) = s1" using s1 by simp
  have ok1: "ids_ok n s1" "queue_ok s1" "counts_ok s1"
    using remove_waiter_ids_ok [OF ok(2), of i True] remove_waiter_queue_ok [OF ok(3), of i True]
      remove_waiter_counts_ok [OF ok(4), of i True] by (simp_all add: fs)
  obtain pre post where w: "adm_waiting s = pre @ (i, key) # post" "adm_waiting s1 = pre @ post"
    by (rule take_ticket_SomeE [OF remove_waiter_waiting [OF s1(1)]])
  have a: "adm_active s1 = adm_active s" "adm_limit s1 = adm_limit s" "adm_next s1 = adm_next s"
    using remove_waiter_fields [of i True s] by (simp_all add: fs)
  show "ids_ok n s'"
    unfolding s1(2) by (rule admit_ids_ok) (use ok(2) w a in \<open>simp_all add: ids_ok_def, blast?\<close>)
  show "queue_ok s'" unfolding s1(2) using ok1(2) by (rule admit_queue_ok)
  show "counts_ok s'"
    unfolding s1(2) using ok1(3) by (rule admit_counts_ok) (use ok(2) w a in \<open>simp add: ids_ok_def\<close>)
  show "1 \<le> adm_limit s'" using ok(1) by (simp add: s1(2) admit_def a)
qed

lemma adm_configure_ok: "adm_ok n s \<Longrightarrow> adm_ok n (adm_configure c s)"
  by (simp add: adm_ok_def adm_configure_def ids_ok_def queue_ok_def counts_ok_def holders_def
      waiters_def)

lemma waiter_drop_ok: "adm_ok n s \<Longrightarrow> adm_ok n (waiter_drop i s)"
  by (simp add: adm_ok_def waiter_drop_def remove_waiter_ids_ok remove_waiter_queue_ok
      remove_waiter_counts_ok remove_waiter_fields)

lemma permit_target_ok: "adm_ok n s \<Longrightarrow> adm_ok n (permit_target i m t s)"
  by (simp add: adm_ok_def ids_ok_def queue_ok_def waiters_def permit_target_counts_ok
      del: set_map)

lemma permit_drop_ok:
  assumes "adm_ok n s"
  shows "adm_ok n (permit_drop i s)"
proof (rule adm_okI)
  note ok = adm_okD [OF assms]
  show "1 \<le> adm_limit (permit_drop i s)" using ok(1) by simp
  have "set (hm_keys (hm_remove i (adm_active s))) \<subseteq> set (hm_keys (adm_active s))"
    by (simp add: hm_keys_remove del: set_map)
  moreover have "distinct (hm_keys (hm_remove i (adm_active s)))"
    using ok(2) by (intro hm_ok_remove) (simp add: ids_ok_def)
  ultimately show "ids_ok n (permit_drop i s)"
    using ok(2) unfolding ids_ok_def permit_drop_fields distinct_append set_append by blast
  show "queue_ok (permit_drop i s)" using ok(3) by (simp add: queue_ok_def waiters_def)
  show "counts_ok (permit_drop i s)"
    using ok(2,4) by (intro permit_drop_counts_ok) (simp_all add: ids_ok_def)
qed

lemmas gate_ok_intros =
  adm_configure_ok acquire_poll_ok waiter_drop_ok permit_target_ok permit_drop_ok

interpretation gate: invariant_system adm_init adm_step adm_inv
proof
  show "adm_init p \<Longrightarrow> adm_inv p" for p
    by (simp add: adm_init_def adm_inv_def adm_default_def adm_ok_def ids_ok_def queue_ok_def
        counts_ok_def holders_def waiters_def)
  show "adm_step p q \<Longrightarrow> adm_inv p \<Longrightarrow> adm_inv q" for p q
  proof (induction rule: adm_step.induct)
    case (step_start key s s' r n)
    then show ?case by (blast intro: acquire_start_inv)
  qed (auto simp: adm_inv_def intro: gate_ok_intros)
qed

section \<open>Behaviour of the operations\<close>

lemma admit_effect:
  assumes "i \<notin> fst ` set (adm_active s)"
  shows "length (adm_active (admit i key s)) = length (adm_active s) + 1"
    "hm_get (adm_active (admit i key s)) i = Some (key, [], [])"
    "holders (admit i key s) k = holders s k + (if k = key then 1 else 0)"
  using assms by (simp add: admit_def hm_length_insert_new, simp add: admit_def,
      simp add: admit_def holders_def hm_length_insert_new)

lemma key_limit_cong: "adm_limit s = adm_limit t \<Longrightarrow> adm_limits s = adm_limits t \<Longrightarrow> key_limit s = key_limit t"
  by (rule ext) (simp add: key_limit_def split: option.split)

lemma first_waiter_of:
  assumes "key \<in> snd ` set ws"
  obtains i where "find (\<lambda>(_, k). k = key) ws = Some (i, key)"
  using assms
proof (cases "find (\<lambda>(_, k). k = key) ws")
  case None
  then show ?thesis using assms by (auto simp: find_None_all)
next
  case (Some p)
  then show ?thesis using that find_SomeD [OF Some] by (cases p) auto
qed

lemma selected_None_iff:
  assumes "queue_ok s"
  shows "selected s = None \<longleftrightarrow>
    adm_limit s \<le> length (adm_active s) \<or> (\<forall>key \<in> snd ` set (adm_waiting s). \<not> available s key)"
proof (cases "adm_fair s")
  case True
  show ?thesis
  proof (cases "find (available s) (adm_turns s)")
    case None
    then have "\<forall>key \<in> snd ` set (adm_waiting s). \<not> available s key"
      using assms by (auto simp: find_None_all queue_ok_def)
    then show ?thesis using None True by (simp add: selected_def)
  next
    case (Some key)
    then have k: "key \<in> snd ` set (adm_waiting s)" "available s key"
      using assms find_SomeD [OF Some] by (simp_all add: queue_ok_def)
    obtain i where "find (\<lambda>(_, k). k = key) (adm_waiting s) = Some (i, key)"
      by (rule first_waiter_of [OF k(1)])
    then have "selected s = None \<longleftrightarrow> adm_limit s \<le> length (adm_active s)"
      using Some True by (auto simp: selected_def)
    then show ?thesis using k by blast
  qed
next
  case False
  then show ?thesis by (auto simp: selected_def find_None_all split: if_splits)
qed

lemma find_split:
  assumes "find p xs = Some x"
  obtains ys zs where "xs = ys @ x # zs" "p x" "\<forall>y \<in> set ys. \<not> p y"
proof -
  obtain i where i: "i < length xs" "p (xs ! i)" "x = xs ! i" "\<forall>j < i. \<not> p (xs ! j)"
    using assms by (auto simp: find_Some_iff)
  have "xs = take i xs @ xs ! i # drop (Suc i) xs" using i(1) by (rule id_take_nth_drop)
  moreover have "\<forall>y \<in> set (take i xs). \<not> p y"
    using i(1,4) by (auto simp: in_set_conv_nth)
  ultimately show ?thesis using that i by metis
qed

lemma selected_fifo_lemma:
  assumes "queue_ok s" and "selected s = Some i"
  obtains pre key post where "adm_waiting s = pre @ (i, key) # post" "key \<notin> snd ` set pre"
    "available s key" "\<not> adm_fair s \<Longrightarrow> \<forall>k \<in> snd ` set pre. \<not> available s k"
    "adm_fair s \<Longrightarrow> find (available s) (adm_turns s) = Some key"
proof (cases "adm_fair s")
  case True
  then obtain key where f: "find (available s) (adm_turns s) = Some key"
    and w: "map_option fst (find (\<lambda>(_, k). k = key) (adm_waiting s)) = Some i"
    using assms(2) by (auto simp: selected_def split: if_splits option.splits)
  then obtain e where e: "find (\<lambda>(_, k). k = key) (adm_waiting s) = Some e" "fst e = i" by auto
  obtain pre post where "adm_waiting s = pre @ e # post" "\<forall>y \<in> set pre. snd y \<noteq> key" "snd e = key"
    using find_split [OF e(1)] by (metis (mono_tags, lifting) case_prod_beta)
  moreover have "e = (i, key)" using e(2) \<open>snd e = key\<close> by (cases e) auto
  ultimately show ?thesis using that [of pre key post] True f find_SomeD [OF f] by auto
next
  case False
  then have "map_option fst (find (\<lambda>(_, k). available s k) (adm_waiting s)) = Some i"
    using assms(2) by (auto simp: selected_def split: if_splits)
  then obtain e where e: "find (\<lambda>(_, k). available s k) (adm_waiting s) = Some e" "fst e = i" by auto
  obtain pre post where p: "adm_waiting s = pre @ e # post" "\<forall>y \<in> set pre. \<not> available s (snd y)"
    "available s (snd e)"
    using find_split [OF e(1)] by (metis (mono_tags, lifting) case_prod_beta)
  then have "snd e \<notin> snd ` set pre" by auto
  then show ?thesis using that [of pre "snd e" post] p e(2) False by (cases e) auto
qed

definition turn_index :: "string \<Rightarrow> adm \<Rightarrow> nat" where
  "turn_index k s = length (takeWhile (\<lambda>x. x \<noteq> k) (adm_turns s))"

lemma turn_index_filter:
  "k \<in> set xs \<Longrightarrow> k \<noteq> key \<Longrightarrow>
    length (takeWhile (\<lambda>x. x \<noteq> k) (filter (\<lambda>x. x \<noteq> key) xs @ ys)) \<le> length (takeWhile (\<lambda>x. x \<noteq> k) xs)"
  by (induction xs) auto

lemma turn_index_filter_less:
  "key \<in> set xs \<Longrightarrow> k \<in> set b \<Longrightarrow> k \<noteq> key \<Longrightarrow> xs = a @ key # b \<Longrightarrow> k \<notin> set a \<Longrightarrow>
    length (takeWhile (\<lambda>x. x \<noteq> k) (filter (\<lambda>x. x \<noteq> key) xs @ ys)) < length (takeWhile (\<lambda>x. x \<noteq> k) xs)"
proof -
  assume k: "k \<in> set b" "k \<noteq> key" "xs = a @ key # b" "k \<notin> set a"
  have "length (takeWhile (\<lambda>x. x \<noteq> k) (filter (\<lambda>x. x \<noteq> key) a @ z)) \<le> length a
      + length (takeWhile (\<lambda>x. x \<noteq> k) z)" for z
    by (induction a) auto
  moreover have "length (takeWhile (\<lambda>x. x \<noteq> k) (a @ z)) = length a + length (takeWhile (\<lambda>x. x \<noteq> k) z)" for z
    using k(4) by (induction a) auto
  ultimately show ?thesis
    using turn_index_filter [OF k(1,2), of ys] k(2,3)
    by (simp add: le_less_trans [OF _ less_add_Suc1] less_Suc_eq_le)
      (meson add_left_mono le_trans)
qed

lemma remove_waiter_turns:
  assumes "remove_waiter i r s = (s', Some key)"
  shows "adm_turns s' = adm_turns s \<or> (\<exists>ys. adm_turns s' = filter (\<lambda>k. k \<noteq> key) (adm_turns s) @ ys)"
    "r \<Longrightarrow> \<exists>ys. adm_turns s' = filter (\<lambda>k. k \<noteq> key) (adm_turns s) @ ys"
  using assms by (auto simp: remove_waiter_def Let_def split: option.splits if_splits)

lemma turn_index_remove:
  assumes "queue_ok s" "k \<in> set (adm_turns s)" "k \<in> set (adm_turns (fst (remove_waiter i False s)))"
  shows "turn_index k (fst (remove_waiter i False s)) \<le> turn_index k s"
proof (cases "take_ticket i (adm_waiting s)")
  case None
  then show ?thesis by (simp add: remove_waiter_def)
next
  case (Some p)
  obtain key rest where p: "p = (key, rest)" by fastforce
  show ?thesis
  proof (cases "list_ex (\<lambda>(_, k). k = key) rest")
    case True
    then show ?thesis using Some p by (simp add: remove_waiter_def turn_index_def)
  next
    case False
    then have "adm_turns (fst (remove_waiter i False s)) = filter (\<lambda>x. x \<noteq> key) (adm_turns s) @ []"
      using Some p by (simp add: remove_waiter_def)
    moreover from this have "k \<noteq> key" using assms(3) by auto
    ultimately show ?thesis
      using turn_index_filter [OF assms(2) \<open>k \<noteq> key\<close>, of "[]"] by (simp add: turn_index_def)
  qed
qed

lemma admit_turns [simp]: "adm_turns (admit i key s) = adm_turns s"
  by (simp add: admit_def)

lemma turn_index_poll:
  assumes q: "queue_ok s" and d: "distinct (map fst (adm_waiting s))"
    and st: "acquire_poll i s = Acquired s'"
    and k: "k \<in> set (adm_turns s)" "(i, k) \<notin> set (adm_waiting s)"
  shows "turn_index k s' \<le> turn_index k s"
    and "adm_fair s \<Longrightarrow> available s k \<Longrightarrow> turn_index k s' < turn_index k s"
proof -
  obtain s1 key where s1: "selected s = Some i" "remove_waiter i True s = (s1, Some key)"
    "s' = admit i key s1"
    by (rule acquire_poll_AcquiredE [OF st])
  obtain ys where ys: "adm_turns s' = filter (\<lambda>k. k \<noteq> key) (adm_turns s) @ ys"
    using remove_waiter_turns(2) [OF s1(2)] s1(3) by auto
  have tt: "take_ticket i (adm_waiting s) = Some (key, adm_waiting s1)"
    by (rule remove_waiter_waiting [OF s1(2)])
  have "(i, key) \<in> set (adm_waiting s)" by (rule take_ticket_SomeE [OF tt]) simp
  then have ne: "k \<noteq> key" using k(2) by auto
  show "turn_index k s' \<le> turn_index k s"
    unfolding turn_index_def ys by (rule turn_index_filter [OF k(1) ne])
  assume fair: "adm_fair s" and av: "available s k"
  obtain pre key' post where f: "adm_waiting s = pre @ (i, key') # post" "key' \<notin> snd ` set pre"
    "find (available s) (adm_turns s) = Some key'"
    using fair by (rule_tac selected_fifo_lemma [OF q s1(1)]) blast
  obtain a b where ab: "adm_turns s = a @ key' # b" "\<forall>y \<in> set a. \<not> available s y"
    by (rule find_split [OF f(3)])
  have "(i, key') \<in> set (adm_waiting s)" using f(1) by simp
  then have eq: "key' = key"
    using \<open>(i, key) \<in> set (adm_waiting s)\<close> d by (metis eq_key_imp_eq_value)
  have "k \<notin> set a" using ab(2) av by auto
  moreover from this have "k \<in> set b" using k(1) ab(1) ne eq by auto
  ultimately show "turn_index k s' < turn_index k s"
    unfolding turn_index_def ys using ab(1) ne eq
    by (intro turn_index_filter_less [of _ _ _ b a]) auto
qed

lemma hm_insert_insert: "hm_insert k v (hm_insert k w m) = hm_insert k v m"
  by (induction m) auto

lemma hm_remove_insert_new: "k \<notin> set (hm_keys m) \<Longrightarrow> hm_remove k (hm_insert k v m) = m"
  by (induction m) auto

lemma permit_drop_admit:
  assumes "counts_ok s" and fresh: "i \<notin> set (hm_keys (adm_active s))"
  shows "permit_drop i (admit i key s) = s"
proof (cases "hm_get (adm_key_active s) key")
  case None
  then have "key \<notin> set (hm_keys (adm_key_active s))" by (simp add: hm_get_None_iff)
  then show ?thesis
    using None fresh
    by (simp add: permit_drop_def admit_def hm_incr_def hm_get_or_def hm_remove_insert_new
        del: set_map)
next
  case (Some c)
  then have "0 < c" using assms(1) by (auto simp: counts_ok_def split: if_splits)
  then show ?thesis
    using Some fresh
    by (simp add: permit_drop_def admit_def hm_incr_def hm_get_or_def hm_remove_insert_new
        hm_insert_insert hm_insert_same del: set_map)
qed

lemma waiter_drop_enqueue:
  assumes q: "queue_ok s" and fresh: "adm_next s \<notin> fst ` set (adm_waiting s)"
  shows "waiter_drop (adm_next s) (enqueue key s) = s\<lparr>adm_next := adm_next s + 1\<rparr>"
proof -
  have t: "take_ticket (adm_next s) (adm_waiting s @ [(adm_next s, key)]) = Some (key, adm_waiting s)"
    using take_ticket_unique [OF fresh, of key "[]"] by simp
  have ex: "list_ex (\<lambda>(_, k). k = key) (adm_waiting s) \<longleftrightarrow> key \<in> set (adm_turns s)"
    using q by (force simp: list_ex_iff queue_ok_def)
  have f: "key \<notin> set (adm_turns s) \<Longrightarrow> filter (\<lambda>k. k \<noteq> key) (adm_turns s) = adm_turns s"
    by (auto simp: filter_id_conv)
  show ?thesis
    using f by (simp add: waiter_drop_def remove_waiter_def enqueue_def t ex)
      (simp add: list_ex_iff)
qed

lemma snapshot_entry_get:
  "hm_get (snapshot_entry s key m) k =
     (case hm_get m k of Some e \<Rightarrow> Some e
      | None \<Rightarrow> if k = key then Some \<lparr> ks_id = key, ks_active = hm_get_or 0 (adm_key_active s) key,
                  ks_queued = 0, ks_limit = key_limit s key \<rparr> else None)"
  by (auto simp: snapshot_entry_def split: option.splits)

lemma snapshot_entries_get:
  assumes "\<And>k e. hm_get m k = Some e \<Longrightarrow> e = \<lparr> ks_id = k, ks_active = hm_get_or 0 (adm_key_active s) k,
             ks_queued = 0, ks_limit = key_limit s k \<rparr>"
  shows "hm_get (fold (snapshot_entry s) xs m) k =
     (if hm_get m k \<noteq> None \<or> k \<in> set xs
      then Some \<lparr> ks_id = k, ks_active = hm_get_or 0 (adm_key_active s) k, ks_queued = 0,
                  ks_limit = key_limit s k \<rparr> else None)"
  using assms
proof (induction xs arbitrary: m)
  case Nil
  then show ?case by auto
next
  case (Cons x xs)
  have "hm_get (snapshot_entry s x m) k = Some e \<Longrightarrow> e = \<lparr> ks_id = k,
      ks_active = hm_get_or 0 (adm_key_active s) k, ks_queued = 0, ks_limit = key_limit s k \<rparr>" for k e
    using Cons.prems by (auto simp: snapshot_entry_get split: option.splits if_splits)
  note ih = Cons.IH [OF this]
  have "hm_get (snapshot_entry s x m) k \<noteq> None \<longleftrightarrow> hm_get m k \<noteq> None \<or> k = x"
    by (simp add: snapshot_entry_get split: option.splits)
  then show ?case using ih by (simp only: fold_Cons comp_def list.set insert_iff disj_assoc)
qed

lemma count_queued_get:
  assumes "\<forall>key \<in> snd ` set ws. hm_get m key \<noteq> None"
  shows "\<exists>m'. count_queued ws m = Some m' \<and>
    (\<forall>k. hm_get m' k = map_option (\<lambda>e. e\<lparr>ks_queued := ks_queued e
            + length (filter (\<lambda>(_, k'). k' = k) ws)\<rparr>) (hm_get m k))"
  using assms
proof (induction ws m rule: count_queued.induct)
  case (1 keys)
  then show ?case by (simp add: option.map_ident)
next
  case (2 i key ws m)
  then obtain e where e: "hm_get m key = Some e" by auto
  let ?m = "hm_insert key (e\<lparr>ks_queued := ks_queued e + 1\<rparr>) m"
  have "\<forall>key \<in> snd ` set ws. hm_get ?m key \<noteq> None" using 2(2) by auto
  from 2(1) [OF e this] obtain m' where m': "count_queued ws ?m = Some m'"
    "\<And>k. hm_get m' k = map_option (\<lambda>e. e\<lparr>ks_queued := ks_queued e
            + length (filter (\<lambda>(_, k'). k' = k) ws)\<rparr>) (hm_get ?m k)" by blast
  have "hm_get m' k = map_option (\<lambda>e. e\<lparr>ks_queued := ks_queued e
            + length (filter (\<lambda>(_, k'). k' = k) ((i, key) # ws))\<rparr>) (hm_get m k)" for k
    using e m'(2) [of k] by (cases "k = key") simp_all
  then show ?case using e m'(1) by simp
qed

section \<open>Witness run\<close>

text \<open>
  Limit one, fair mode: key a holds the only permit, keys b and c wait; then a releases.
\<close>

definition demo_config :: proxy_config where
  "demo_config = proxy_config_default\<lparr>pc_max_concurrent_requests := 1, pc_fair_queue_enabled := True\<rparr>"

definition demo_gate :: adm where
  "demo_gate = adm_configure demo_config adm_default"

definition demo_held :: adm where
  "demo_held = fst (acquire_start ''c'' (fst (acquire_start ''b'' (fst (acquire_start ''a'' demo_gate)))))"

definition demo_free :: adm where
  "demo_free = permit_drop 0 demo_held"

lemma demo_gate_eq: "demo_gate = \<lparr> adm_limit = 1, adm_fair = True, adm_limits = [], adm_next = 0,
   adm_waiting = [], adm_turns = [], adm_active = [], adm_key_active = [] \<rparr>"
  by (simp add: demo_gate_def adm_configure_def demo_config_def proxy_config_default_def adm_default_def)

lemmas gate_defs = acquire_start_def available_def key_limit_def selected_def admit_def hm_incr_def
  hm_get_or_def MAX_WAITERS_def MAX_KEY_WAITERS_def permit_drop_def

lemma demo_start_a: "acquire_start ''a'' demo_gate = (\<lparr> adm_limit = 1, adm_fair = True, adm_limits = [],
   adm_next = 1, adm_waiting = [], adm_turns = [], adm_active = [(0, ''a'', [], [])],
   adm_key_active = [(''a'', 1)] \<rparr>, Granted 0)"
  by (simp add: demo_gate_eq gate_defs)

lemma demo_start_b: "acquire_start ''b'' (fst (acquire_start ''a'' demo_gate)) = (\<lparr> adm_limit = 1,
   adm_fair = True, adm_limits = [], adm_next = 2, adm_waiting = [(1, ''b'')], adm_turns = [''b''],
   adm_active = [(0, ''a'', [], [])], adm_key_active = [(''a'', 1)] \<rparr>, Queued 1)"
  unfolding demo_start_a by (simp add: gate_defs)

lemma demo_start_c: "acquire_start ''c'' (fst (acquire_start ''b'' (fst (acquire_start ''a'' demo_gate))))
   = (\<lparr> adm_limit = 1, adm_fair = True, adm_limits = [], adm_next = 3,
   adm_waiting = [(1, ''b''), (2, ''c'')], adm_turns = [''b'', ''c''],
   adm_active = [(0, ''a'', [], [])], adm_key_active = [(''a'', 1)] \<rparr>, Queued 2)"
  unfolding demo_start_b by (simp add: gate_defs)

lemma demo_free_eq: "demo_free = \<lparr> adm_limit = 1, adm_fair = True, adm_limits = [], adm_next = 3,
   adm_waiting = [(1, ''b''), (2, ''c'')], adm_turns = [''b'', ''c''], adm_active = [],
   adm_key_active = [] \<rparr>"
  unfolding demo_free_def demo_held_def demo_start_c by (simp add: gate_defs)

lemma gate_reach_step: "reach adm_init adm_step p \<Longrightarrow> adm_step p q \<Longrightarrow> reach adm_init adm_step q"
  by (rule reach_step)

lemma demo_gate_reach: "reach adm_init adm_step (0, demo_gate)"
  unfolding demo_gate_def
  by (rule gate_reach_step [OF reach_init step_configure]) (simp add: adm_init_def)

lemma gate_reach_start:
  assumes "reach adm_init adm_step (n, s)" and "acquire_start key s = (s', r)" and "m = drawn r n"
  shows "reach adm_init adm_step (m, s')"
  unfolding assms(3) by (rule gate_reach_step [OF assms(1) step_start [OF assms(2)]])

lemma demo_reach:
  "reach adm_init adm_step (1, fst (acquire_start ''a'' demo_gate))"
  "reach adm_init adm_step (3, demo_held)" "reach adm_init adm_step (3, demo_free)"
proof -
  show a: "reach adm_init adm_step (1, fst (acquire_start ''a'' demo_gate))"
    by (rule gate_reach_start [OF demo_gate_reach, of "''a''" _ "Granted 0"]) (simp_all add: demo_start_a)
  have b: "reach adm_init adm_step (2, fst (acquire_start ''b'' (fst (acquire_start ''a'' demo_gate))))"
    by (rule gate_reach_start [OF a, of "''b''" _ "Queued 1"]) (simp_all add: demo_start_b)
  show c: "reach adm_init adm_step (3, demo_held)"
    unfolding demo_held_def
    by (rule gate_reach_start [OF b, of "''c''" _ "Queued 2"]) (simp_all add: demo_start_c)
  show "reach adm_init adm_step (3, demo_free)"
    unfolding demo_free_def by (rule gate_reach_step [OF c step_release])
qed

lemma reach_ok: "reach adm_init adm_step (n, s) \<Longrightarrow> n \<le> 2 ^ 64 \<Longrightarrow> adm_ok n s"
  using gate.reach_inv [of "(n, s)"] by (simp add: adm_inv_def)

lemma granted_released:
  assumes "adm_ok n s" "n < 2 ^ 64" and g: "acquire_start key s = (s', Granted i)"
  shows "permit_drop i s' = s\<lparr>adm_next := adm_next s + 1\<rparr>"
proof -
  note ok = adm_okD [OF assms(1)]
  note fresh = ids_ok_next_fresh [OF ok(2) assms(2)]
  show ?thesis
    unfolding acquire_start_GrantedD(1,2) [OF g]
    by (rule permit_drop_admit) (use ok(4) fresh(4) in \<open>simp_all add: counts_ok_def holders_def\<close>)
qed

section \<open>Properties\<close>

text \<open>
  C1. In every state that any interleaving of configuration changes, acquisitions, polls,
  cancellations, target updates and releases can reach (while at most \<open>2^64\<close> tickets were
  drawn), no ticket is both waiting and active or occurs twice, the per-key counters are exactly
  the numbers of live permits (a key without permits has no counter), the rotation holds each
  waiting key once and no other key, and the queue never exceeds its global and per-key bounds.
\<close>

theorem gate_invariant:
  assumes "reach adm_init adm_step (n, s)" and "n \<le> 2 ^ 64"
  shows "distinct (map fst (adm_waiting s) @ map fst (adm_active s))
    \<and> (\<forall>key. hm_get (adm_key_active s) key = (if holders s key = 0 then None else Some (holders s key)))
    \<and> distinct (adm_turns s) \<and> set (adm_turns s) = snd ` set (adm_waiting s)
    \<and> length (adm_waiting s) \<le> MAX_WAITERS \<and> (\<forall>key. waiters s key \<le> MAX_KEY_WAITERS)"
  using adm_okD [OF reach_ok [OF assms]] by (simp add: ids_ok_def queue_ok_def counts_ok_def)

theorem gate_invariant_witness:
  "distinct (map fst (adm_waiting demo_held) @ map fst (adm_active demo_held))
    \<and> waiters demo_held ''b'' \<le> MAX_KEY_WAITERS"
  using gate_invariant [OF demo_reach(2)] by simp

text \<open>
  C2. A permit, whether granted at once or to a selected waiter, is fresh, adds exactly one
  active request, and leaves the number of active requests within the global limit and the
  number of its key within the key's limit.
\<close>

theorem admission_respects_limits:
  assumes "reach adm_init adm_step (n, s)" and "n < 2 ^ 64"
    and "acquire_start key s = (s', Granted i) \<or> acquire_poll i s = Acquired s' \<and> (i, key) \<in> set (adm_waiting s)"
  shows "hm_get (adm_active s') i = Some (key, [], [])
    \<and> length (adm_active s') = length (adm_active s) + 1 \<and> length (adm_active s') \<le> adm_limit s
    \<and> holders s' key = holders s key + 1 \<and> holders s' key \<le> key_limit s key"
  using assms(3)
proof
  note ok = adm_okD [OF reach_ok [OF assms(1) less_imp_le [OF assms(2)]]]
  assume st: "acquire_start key s = (s', Granted i)"
  note g = acquire_start_GrantedD [OF st]
  have "i \<notin> fst ` set (adm_active (s\<lparr>adm_next := adm_next s + 1\<rparr>))"
    using ids_ok_next_fresh(4) [OF ok(2) assms(2)] g(1) by simp
  note e = admit_effect [OF this, of key, folded g(1) g(2)]
  have "holders s key < key_limit s key"
    using g(4) counts_okD [OF ok(4)] by (simp add: available_def)
  then show ?thesis
    using e(1,2) e(3) [of key] g(1-3) by (simp add: holders_def)
next
  note ok = adm_okD [OF reach_ok [OF assms(1) less_imp_le [OF assms(2)]]]
  assume st: "acquire_poll i s = Acquired s' \<and> (i, key) \<in> set (adm_waiting s)"
  obtain s1 key' where s1: "selected s = Some i" "remove_waiter i True s = (s1, Some key')"
    "s' = admit i key' s1"
    using st by (blast elim: acquire_poll_AcquiredE)
  have f: "adm_active s1 = adm_active s" "adm_limit s1 = adm_limit s"
    using remove_waiter_fields [of i True s] s1(2) by simp_all
  have d: "distinct (map fst (adm_waiting s))" using ok(2) by (simp add: ids_ok_def)
  have "(i, key') \<in> set (adm_waiting s)"
    by (rule take_ticket_SomeE [OF remove_waiter_waiting [OF s1(2)]]) simp
  then have k: "key' = key" using st d by (metis eq_key_imp_eq_value)
  have "i \<notin> fst ` set (adm_active s1)" using st ok(2) f(1) by (force simp: ids_ok_def)
  note e = admit_effect [OF this, of key, folded s1(3) [unfolded k]]
  obtain k2 where "(i, k2) \<in> set (adm_waiting s)" "available s k2" "length (adm_active s) < adm_limit s"
    by (rule selected_waiting [OF s1(1)])
  moreover from this have "k2 = key" using st d by (metis eq_key_imp_eq_value)
  ultimately have "holders s key < key_limit s key" "length (adm_active s) < adm_limit s"
    using counts_okD [OF ok(4)] by (simp_all add: available_def)
  then show ?thesis
    using e(1,2) e(3) [of key] f by (simp add: holders_def)
qed

theorem admission_respects_limits_witness:
  "\<exists>s'. acquire_poll 1 demo_free = Acquired s' \<and> length (adm_active s') \<le> adm_limit demo_free
     \<and> holders s' ''b'' \<le> key_limit demo_free ''b''"
proof -
  have ne: "acquire_poll 1 demo_free \<noteq> Pending"
    by (simp add: acquire_poll_def demo_free_eq selected_def available_def key_limit_def hm_get_or_def
        remove_waiter_def)
  then obtain s' where s': "acquire_poll 1 demo_free = Acquired s'"
    using acquire_poll_no_panic [of 1 demo_free] by (cases "acquire_poll 1 demo_free") auto
  have w: "(1, ''b'') \<in> set (adm_waiting demo_free)" by (simp add: demo_free_eq)
  show ?thesis
    using admission_respects_limits [OF demo_reach(3), of "''b''" s' 1] s' w by simp
qed

text \<open>
  C3. The gate is work-conserving: as long as the queue invariant holds, no waiter is selected
  only if the global limit is reached or every key that waits has used up its own limit; and a
  selected waiter is the oldest of its key, its key is under its limit, and it is the first
  waiter (in arrival order) or, in fair mode, of the first key of the rotation, that can be served.
\<close>

theorem selection_correct:
  assumes "reach adm_init adm_step (n, s)" and "n \<le> 2 ^ 64"
  shows "(selected s = None \<longleftrightarrow> adm_limit s \<le> length (adm_active s)
            \<or> (\<forall>key \<in> snd ` set (adm_waiting s). \<not> available s key))
    \<and> (\<forall>i. selected s = Some i \<longrightarrow> (\<exists>pre key post. adm_waiting s = pre @ (i, key) # post
         \<and> key \<notin> snd ` set pre \<and> available s key
         \<and> (\<not> adm_fair s \<longrightarrow> (\<forall>k \<in> snd ` set pre. \<not> available s k))
         \<and> (adm_fair s \<longrightarrow> find (available s) (adm_turns s) = Some key)))"
proof -
  note q = adm_okD(3) [OF reach_ok [OF assms]]
  have "\<exists>pre key post. adm_waiting s = pre @ (i, key) # post
         \<and> key \<notin> snd ` set pre \<and> available s key
         \<and> (\<not> adm_fair s \<longrightarrow> (\<forall>k \<in> snd ` set pre. \<not> available s k))
         \<and> (adm_fair s \<longrightarrow> find (available s) (adm_turns s) = Some key)" if "selected s = Some i" for i
    by (rule selected_fifo_lemma [OF q that]) blast
  then show ?thesis using selected_None_iff [OF q] by blast
qed

theorem selection_correct_witness:
  "selected demo_free = Some 1 \<and> selected demo_held = None
     \<and> (\<exists>pre key post. adm_waiting demo_free = pre @ (1, key) # post \<and> key \<notin> snd ` set pre)"
proof -
  have s: "selected demo_free = Some 1"
    by (simp add: demo_free_eq selected_def available_def key_limit_def hm_get_or_def)
  have h: "selected demo_held = None"
    unfolding demo_held_def demo_start_c by (simp add: selected_def)
  show ?thesis
    using selection_correct [OF demo_reach(3)] s h by auto
qed

text \<open>
  A newly arriving request is admitted ahead of the queue only when no waiting request could
  be served: it never overtakes a waiter whose key is under its limit.
\<close>

theorem no_overtaking:
  assumes "reach adm_init adm_step (n, s)" and "n \<le> 2 ^ 64"
    and "acquire_start key s = (s', Granted i)" and "(j, k) \<in> set (adm_waiting s)"
  shows "\<not> available s k \<and> k \<noteq> key"
proof -
  note g = acquire_start_GrantedD [OF assms(3)]
  have "\<not> available s k"
    using selected_None_iff [OF adm_okD(3) [OF reach_ok [OF assms(1,2)]]] g(3,5) assms(4) by force
  then show ?thesis using g(4) by auto
qed

definition demo_capped :: adm where
  "demo_capped = fst (acquire_start ''a'' (fst (acquire_start ''a'' (adm_configure
     (proxy_config_default\<lparr>pc_api_keys := [(proxy_api_key_default ''a'')\<lparr>ak_max_concurrent_requests := 1\<rparr>]\<rparr>)
     adm_default))))"

lemma demo_capped_reach: "reach adm_init adm_step (2, demo_capped)"
proof -
  let ?c = "proxy_config_default\<lparr>pc_api_keys := [(proxy_api_key_default ''a'')\<lparr>ak_max_concurrent_requests := 1\<rparr>]\<rparr>"
  let ?s0 = "adm_configure ?c adm_default"
  have 0: "reach adm_init adm_step (0, ?s0)"
    by (rule gate_reach_step [OF reach_init step_configure]) (simp add: adm_init_def)
  have 1: "reach adm_init adm_step (1, fst (acquire_start ''a'' ?s0))"
    by (rule gate_reach_start [OF 0, of "''a''" _ "Granted 0"])
      (simp_all add: adm_configure_def proxy_config_default_def proxy_api_key_default_def
        adm_default_def gate_defs)
  show ?thesis unfolding demo_capped_def
    by (rule gate_reach_start [OF 1, of "''a''" _ "Queued 1"])
      (simp_all add: adm_configure_def proxy_config_default_def proxy_api_key_default_def
        adm_default_def gate_defs)
qed

theorem no_overtaking_witness:
  "\<exists>s'. acquire_start ''b'' demo_capped = (s', Granted 2) \<and> \<not> available demo_capped ''a''"
proof -
  have s: "\<exists>s'. acquire_start ''b'' demo_capped = (s', Granted 2)"
    and w: "(1, ''a'') \<in> set (adm_waiting demo_capped)"
    by (simp_all add: demo_capped_def adm_configure_def proxy_config_default_def
        proxy_api_key_default_def adm_default_def gate_defs)
  then obtain s' where "acquire_start ''b'' demo_capped = (s', Granted 2)" by blast
  with no_overtaking [OF demo_capped_reach _ this w] show ?thesis by auto
qed

text \<open>
  C4. The rotation is fair: when a waiter of another key is admitted, the place of a waiting key
  in the rotation never gets worse, and in fair mode, if the key could be served itself, its
  place improves strictly; so a key that stays servable is admitted after at most as many
  admissions of other keys as there are keys before it.
\<close>

theorem rotation_progress:
  assumes "reach adm_init adm_step (n, s)" and "n \<le> 2 ^ 64"
    and "acquire_poll i s = Acquired s'"
    and "k \<in> set (adm_turns s)" and "(i, k) \<notin> set (adm_waiting s)"
  shows "turn_index k s' \<le> turn_index k s
    \<and> (adm_fair s \<and> available s k \<longrightarrow> turn_index k s' < turn_index k s)"
proof -
  note ok = adm_okD [OF reach_ok [OF assms(1,2)]]
  have d: "distinct (map fst (adm_waiting s))" using ok(2) by (simp add: ids_ok_def)
  show ?thesis using turn_index_poll [OF ok(3) d assms(3-5)] by blast
qed

theorem rotation_progress_witness:
  "\<exists>s'. acquire_poll 1 demo_free = Acquired s' \<and> turn_index ''c'' s' < turn_index ''c'' demo_free"
proof -
  have ne: "acquire_poll 1 demo_free \<noteq> Pending"
    by (simp add: acquire_poll_def demo_free_eq selected_def available_def key_limit_def hm_get_or_def
        remove_waiter_def)
  then obtain s' where s': "acquire_poll 1 demo_free = Acquired s'"
    using acquire_poll_no_panic [of 1 demo_free] by (cases "acquire_poll 1 demo_free") auto
  have "''c'' \<in> set (adm_turns demo_free)" "(1, ''c'') \<notin> set (adm_waiting demo_free)"
    "adm_fair demo_free" "available demo_free ''c''"
    by (simp_all add: demo_free_eq available_def key_limit_def hm_get_or_def)
  then show ?thesis using rotation_progress [OF demo_reach(3) _ s', of "''c''"] s' by auto
qed

text \<open>
  C5. Leaving no trace: a request that was queued and then times out or is cancelled, and a
  request that was granted and then releases its permit, both restore the gate exactly, except
  for the ticket counter.
\<close>

theorem acquire_roundtrip:
  assumes "reach adm_init adm_step (n, s)" and "n < 2 ^ 64"
  shows "(acquire_start key s = (s', Queued i) \<longrightarrow> waiter_drop i s' = s\<lparr>adm_next := adm_next s + 1\<rparr>)
    \<and> (acquire_start key s = (s', Granted i) \<longrightarrow> permit_drop i s' = s\<lparr>adm_next := adm_next s + 1\<rparr>)"
proof -
  note ok = adm_okD [OF reach_ok [OF assms(1) less_imp_le [OF assms(2)]]]
  note fresh = ids_ok_next_fresh [OF ok(2) assms(2)]
  have "waiter_drop i s' = s\<lparr>adm_next := adm_next s + 1\<rparr>" if "acquire_start key s = (s', Queued i)"
    unfolding acquire_start_QueuedD(1,2) [OF that] by (rule waiter_drop_enqueue [OF ok(3) fresh(3)])
  moreover have "permit_drop i s' = s\<lparr>adm_next := adm_next s + 1\<rparr>"
    if "acquire_start key s = (s', Granted i)"
    by (rule granted_released [OF reach_ok [OF assms(1) less_imp_le [OF assms(2)]] assms(2) that])
  ultimately show ?thesis by blast
qed

theorem acquire_roundtrip_witness:
  "waiter_drop 2 demo_held = (fst (acquire_start ''b'' (fst (acquire_start ''a'' demo_gate))))\<lparr>adm_next := 3\<rparr>
   \<and> permit_drop 0 (fst (acquire_start ''a'' demo_gate)) = demo_gate\<lparr>adm_next := 1\<rparr>"
proof -
  have b: "reach adm_init adm_step (2, fst (acquire_start ''b'' (fst (acquire_start ''a'' demo_gate))))"
    by (rule gate_reach_start [OF demo_reach(1), of "''b''" _ "Queued 1"]) (simp_all add: demo_start_b)
  have "waiter_drop 2 demo_held
      = (fst (acquire_start ''b'' (fst (acquire_start ''a'' demo_gate))))\<lparr>adm_next := 3\<rparr>"
    using acquire_roundtrip [OF b, of "''c''" demo_held 2]
    by (simp add: demo_held_def demo_start_c) (simp add: demo_start_b)
  moreover have "permit_drop 0 (fst (acquire_start ''a'' demo_gate)) = demo_gate\<lparr>adm_next := 1\<rparr>"
    using acquire_roundtrip [OF demo_gate_reach, of "''a''" "fst (acquire_start ''a'' demo_gate)" 0]
    by (simp add: demo_start_a) (simp add: demo_gate_eq)
  ultimately show ?thesis ..
qed

text \<open>
  Taking a snapshot never panics on the entry lookup of a waiting key, and what it shows is
  exact: for each listed key the queued, active and limit figures are the numbers of waiters and
  of live permits and the effective limit, and every key that waits is listed.
\<close>

theorem snapshot_total_and_exact:
  assumes "reach adm_init adm_step (n, s)" and "n \<le> 2 ^ 64"
  shows "\<exists>sn. adm_snapshot_of s = Some sn
    \<and> sn_active sn = length (adm_active s) \<and> sn_queued sn = length (adm_waiting s)
    \<and> (\<forall>key e. hm_get (sn_keys sn) key = Some e \<longrightarrow> ks_id e = key \<and> ks_queued e = waiters s key
          \<and> ks_active e = holders s key \<and> ks_limit e = key_limit s key)
    \<and> (\<forall>key \<in> snd ` set (adm_waiting s). hm_get (sn_keys sn) key \<noteq> None)"
proof -
  note ok = adm_okD [OF reach_ok [OF assms]]
  let ?ks = "hm_keys (adm_limits s) @ hm_keys (adm_key_active s) @ adm_turns s"
  let ?m = "fold (snapshot_entry s) ?ks []"
  have m: "hm_get ?m k = (if k \<in> set ?ks
      then Some \<lparr> ks_id = k, ks_active = hm_get_or 0 (adm_key_active s) k, ks_queued = 0,
                  ks_limit = key_limit s k \<rparr> else None)" for k
    by (subst snapshot_entries_get) simp_all
  have all: "\<forall>key \<in> snd ` set (adm_waiting s). hm_get ?m key \<noteq> None"
    using ok(3) unfolding m queue_ok_def by auto
  then obtain m' where m': "count_queued (adm_waiting s) ?m = Some m'"
    "\<And>k. hm_get m' k = map_option (\<lambda>e. e\<lparr>ks_queued := ks_queued e
            + length (filter (\<lambda>(_, k'). k' = k) (adm_waiting s))\<rparr>) (hm_get ?m k)"
    using count_queued_get [of "adm_waiting s" ?m] by blast
  have "\<exists>sn. adm_snapshot_of s = Some sn \<and> sn_active sn = length (adm_active s)
      \<and> sn_queued sn = length (adm_waiting s) \<and> sn_keys sn = m'"
    using m'(1) by (simp add: adm_snapshot_of_def del: fold_append)
  moreover have "ks_id e = key \<and> ks_queued e = waiters s key \<and> ks_active e = holders s key
      \<and> ks_limit e = key_limit s key" if "hm_get m' key = Some e" for key e
    using that unfolding m'(2) m by (auto simp: waiters_def counts_okD [OF ok(4)] split: if_splits)
  moreover have "\<forall>key \<in> snd ` set (adm_waiting s). hm_get m' key \<noteq> None"
    using all unfolding m'(2) by blast
  ultimately show ?thesis by blast
qed

theorem snapshot_total_and_exact_witness:
  "\<exists>sn. adm_snapshot_of demo_held = Some sn \<and> sn_queued sn = 2"
proof -
  have "length (adm_waiting demo_held) = 2" unfolding demo_held_def demo_start_c by simp
  then show ?thesis using snapshot_total_and_exact [OF demo_reach(2)] by auto
qed

end
