(* ===== verification/Atomic_Budget.thy ===== *)
theory Atomic_Budget
  imports Router_Prelude
begin

text \<open>
  Byte budgets kept in one atomic counter: the compare-and-swap loops \<open>reserve\<close> and
  \<open>saturating_sub\<close> of \<open>src-tauri/src/commands/atomic_counter.rs\<close>, the response reservations of
  \<open>proxy_delivery.rs\<close> built on \<open>reserve\<close>, and \<open>try_acquire_body_bytes\<close> of
  \<open>proxy_runtime.rs\<close>, which has a loop of its own.  \<open>cas_step\<close> interleaves the atomic
  accesses of any number of threads; a weak compare-and-swap may fail at any time.  The locale
  \<open>cas_budget\<close> states what one turn of a loop has to compute, and shows from it that the counter
  is the sum of the live reservations and stays within the limit.  Both loops instantiate it.
\<close>

section \<open>One turn of each loop\<close>

text \<open>
  The value a turn tries to swap in: \<open>None\<close> is the early return \<open>false\<close> or \<open>None\<close>.
\<close>

definition reserve_next :: "nat \<Rightarrow> nat \<Rightarrow> nat \<Rightarrow> nat option" where
  "reserve_next amount limit current =
     (case checked_add u64_max current amount of
        None \<Rightarrow> None
      | Some n \<Rightarrow> if n \<le> limit then Some n else None)"

definition body_bytes_next :: "nat \<Rightarrow> nat \<Rightarrow> nat \<Rightarrow> nat option" where
  "body_bytes_next bytes limit active =
     (case checked_add u64_max active bytes of
        None \<Rightarrow> None
      | Some n \<Rightarrow> if n > limit then None else Some n)"

text \<open>
  A loop run against a script of what each compare-and-swap meets: the value the counter has
  at that moment, and whether the weak exchange fails spuriously.  The result is the answer and
  the counter after it; \<open>None\<close> is "still looping when the script ends".  \<open>reserve\<close> takes the
  value of a failed exchange as its next current value.
\<close>

fun reserve_loop :: "nat \<Rightarrow> nat \<Rightarrow> nat \<Rightarrow> (nat \<times> bool) list \<Rightarrow> (bool \<times> nat option) option" where
  "reserve_loop amount limit current [] =
     (case reserve_next amount limit current of None \<Rightarrow> Some (False, None) | Some _ \<Rightarrow> None)"
| "reserve_loop amount limit current ((actual, spurious) # env) =
     (case reserve_next amount limit current of
        None \<Rightarrow> Some (False, None)
      | Some n \<Rightarrow> if actual = current \<and> \<not> spurious then Some (True, Some n)
                 else reserve_loop amount limit actual env)"

fun saturating_sub_loop :: "nat \<Rightarrow> nat \<Rightarrow> (nat \<times> bool) list \<Rightarrow> nat option" where
  "saturating_sub_loop amount current [] = None"
| "saturating_sub_loop amount current ((actual, spurious) # env) =
     (if actual = current \<and> \<not> spurious then Some (current - amount)
      else saturating_sub_loop amount actual env)"

section \<open>Threads over one counter\<close>

text \<open>
  A thread is idle, in the loop of a first reservation, holds a reservation of some size, or is
  in the loop that grows the reservation it holds (\<open>ResponseReservation::resize\<close>).
\<close>

datatype pc =
  Idle
| Trying nat nat
| Holding nat
| Growing nat nat nat

record cas_sys =
  shared :: nat
  threads :: "pc list"

fun held :: "pc \<Rightarrow> nat" where
  "held Idle = 0"
| "held (Trying a cur) = 0"
| "held (Holding a) = a"
| "held (Growing a b cur) = a"

definition total_held :: "cas_sys \<Rightarrow> nat" where
  "total_held s = sum_list (map held (threads s))"

text \<open>\<open>fetch_sub\<close> wraps around at the width of \<open>usize\<close>.\<close>

definition fetch_sub :: "nat \<Rightarrow> nat \<Rightarrow> nat" where
  "fetch_sub c a = (c + 2 ^ 64 - a) mod 2 ^ 64"

definition thread_set :: "nat \<Rightarrow> pc \<Rightarrow> cas_sys \<Rightarrow> cas_sys" where
  "thread_set i p s = s\<lparr>threads := (threads s)[i := p]\<rparr>"

definition at_pc :: "cas_sys \<Rightarrow> nat \<Rightarrow> pc \<Rightarrow> bool" where
  "at_pc s i p \<longleftrightarrow> i < length (threads s) \<and> threads s ! i = p"

inductive cas_step :: "(nat \<Rightarrow> nat \<Rightarrow> nat \<Rightarrow> nat option) \<Rightarrow> nat \<Rightarrow> cas_sys \<Rightarrow> cas_sys \<Rightarrow> bool"
  for nxt :: "nat \<Rightarrow> nat \<Rightarrow> nat \<Rightarrow> nat option" and limit :: nat where
  acquire_load: "at_pc s i Idle \<Longrightarrow> cas_step nxt limit s (thread_set i (Trying a (shared s)) s)"
| acquire_reject: "at_pc s i (Trying a cur) \<Longrightarrow> nxt a limit cur = None \<Longrightarrow>
    cas_step nxt limit s (thread_set i Idle s)"
| acquire_retry: "at_pc s i (Trying a cur) \<Longrightarrow> nxt a limit cur = Some n \<Longrightarrow>
    cas_step nxt limit s (thread_set i (Trying a (shared s)) s)"
| acquire_swap: "at_pc s i (Trying a cur) \<Longrightarrow> nxt a limit cur = Some n \<Longrightarrow> shared s = cur \<Longrightarrow>
    cas_step nxt limit s (thread_set i (Holding a) (s\<lparr>shared := n\<rparr>))"
| resize_shrink: "at_pc s i (Holding a) \<Longrightarrow> b \<le> a \<Longrightarrow>
    cas_step nxt limit s (thread_set i (Holding b) (s\<lparr>shared := fetch_sub (shared s) (a - b)\<rparr>))"
| resize_load: "at_pc s i (Holding a) \<Longrightarrow> a < b \<Longrightarrow>
    cas_step nxt limit s (thread_set i (Growing a b (shared s)) s)"
| resize_reject: "at_pc s i (Growing a b cur) \<Longrightarrow> nxt (b - a) limit cur = None \<Longrightarrow>
    cas_step nxt limit s (thread_set i (Holding a) s)"
| resize_retry: "at_pc s i (Growing a b cur) \<Longrightarrow> nxt (b - a) limit cur = Some n \<Longrightarrow>
    cas_step nxt limit s (thread_set i (Growing a b (shared s)) s)"
| resize_swap: "at_pc s i (Growing a b cur) \<Longrightarrow> nxt (b - a) limit cur = Some n \<Longrightarrow> shared s = cur \<Longrightarrow>
    cas_step nxt limit s (thread_set i (Holding b) (s\<lparr>shared := n\<rparr>))"
| release: "at_pc s i (Holding a) \<Longrightarrow>
    cas_step nxt limit s (thread_set i Idle (s\<lparr>shared := fetch_sub (shared s) a\<rparr>))"

definition cas_init :: "cas_sys \<Rightarrow> bool" where
  "cas_init s \<longleftrightarrow> shared s = 0 \<and> (\<forall>p \<in> set (threads s). p = Idle)"

definition growing_ok :: "pc \<Rightarrow> bool" where
  "growing_ok p = (case p of Growing a b cur \<Rightarrow> a < b | _ \<Rightarrow> True)"

definition cas_inv :: "nat \<Rightarrow> cas_sys \<Rightarrow> bool" where
  "cas_inv limit s \<longleftrightarrow> shared s = total_held s \<and> shared s \<le> limit \<and> shared s \<le> u64_max
     \<and> (\<forall>p \<in> set (threads s). growing_ok p)"

lemma sum_list_thread_update:
  assumes "i < length xs"
  shows "sum_list (map held (xs[i := p])) + held (xs ! i) = sum_list (map held xs) + held p"
  using assms by (induction xs arbitrary: i) (auto split: nat.splits)

lemma total_held_set:
  "at_pc s i q \<Longrightarrow> total_held (thread_set i p s) + held q = total_held s + held p"
  using sum_list_thread_update [of i "threads s" p]
  by (simp add: total_held_def thread_set_def at_pc_def)

lemma held_le_total: "at_pc s i q \<Longrightarrow> held q \<le> total_held s"
  by (auto simp: at_pc_def total_held_def intro: member_le_sum_list)

lemma growing_ok_set:
  "\<forall>p \<in> set (threads s). growing_ok p \<Longrightarrow> growing_ok q \<Longrightarrow> \<forall>p \<in> set (threads (thread_set i q s)). growing_ok p"
  using set_update_subset_insert [of "threads s" i q] by (auto simp: thread_set_def)

lemma fetch_sub_exact: "a \<le> c \<Longrightarrow> c \<le> u64_max \<Longrightarrow> fetch_sub c a = c - a"
proof -
  assume a: "a \<le> c" and c: "c \<le> u64_max"
  have "c + 2 ^ 64 - a = (c - a) + 2 ^ 64" using a by (metis Nat.add_diff_assoc2)
  then have "fetch_sub c a = (c - a) mod 2 ^ 64" by (simp only: fetch_sub_def mod_add_self2)
  moreover have "c - a < 2 ^ 64" using c by simp
  ultimately show ?thesis by (simp only: mod_less)
qed

lemma shared_thread_set [simp]: "shared (thread_set i p s) = shared s"
  by (simp add: thread_set_def)

lemma total_held_shared [simp]:
  "total_held (thread_set i p (s\<lparr>shared := n\<rparr>)) = total_held (thread_set i p s)"
  by (simp add: total_held_def thread_set_def)

locale cas_budget =
  fixes nxt :: "nat \<Rightarrow> nat \<Rightarrow> nat \<Rightarrow> nat option"
  assumes nxt_iff: "nxt a limit cur = Some n \<longleftrightarrow> n = cur + a \<and> n \<le> limit \<and> n \<le> u64_max"
begin

lemma swap_inv:
  assumes "cas_inv limit s" and "at_pc s i q" and "nxt d limit (shared s) = Some n"
    and "held p = held q + d" and "growing_ok p"
  shows "cas_inv limit (thread_set i p (s\<lparr>shared := n\<rparr>))"
  using assms total_held_set [OF assms(2), of p] growing_ok_set [of s p i]
  by (simp add: cas_inv_def nxt_iff) (simp add: thread_set_def)

lemma local_inv:
  assumes "cas_inv limit s" and "at_pc s i q" and "held p = held q" and "growing_ok p"
  shows "cas_inv limit (thread_set i p s)"
  using assms total_held_set [OF assms(2), of p] growing_ok_set [of s p i]
  by (simp add: cas_inv_def)

lemma sub_inv:
  assumes "cas_inv limit s" and "at_pc s i q" and "held q = held p + d" and "growing_ok p"
  shows "cas_inv limit (thread_set i p (s\<lparr>shared := fetch_sub (shared s) d\<rparr>))"
proof -
  have "d \<le> shared s" using assms held_le_total [OF assms(2)] by (simp add: cas_inv_def)
  then have "fetch_sub (shared s) d = shared s - d"
    using assms(1) by (simp add: fetch_sub_exact cas_inv_def)
  moreover have "total_held (thread_set i p s) = shared s - d"
    using assms(1,3) total_held_set [OF assms(2), of p] by (simp add: cas_inv_def)
  moreover have "\<forall>p \<in> set (threads (thread_set i p (s\<lparr>shared := shared s - d\<rparr>))). growing_ok p"
    using assms(1,4) growing_ok_set [of "s\<lparr>shared := shared s - d\<rparr>" p i] by (simp add: cas_inv_def)
  ultimately show ?thesis
    using assms(1) order_trans [OF diff_le_self [of "shared s" d]] by (simp add: cas_inv_def)
qed

lemma step_inv: "cas_step nxt limit s t \<Longrightarrow> cas_inv limit s \<Longrightarrow> cas_inv limit t"
proof (induction rule: cas_step.induct)
  case (resize_swap s i a b cur n)
  then have "a < b" by (auto simp: cas_inv_def at_pc_def growing_ok_def dest!: nth_mem split: pc.splits)
  with resize_swap show ?case by (intro swap_inv) (auto simp: growing_ok_def)
next
  case (resize_retry s i a b cur n)
  then have "a < b" by (auto simp: cas_inv_def at_pc_def growing_ok_def dest!: nth_mem split: pc.splits)
  with resize_retry show ?case by (intro local_inv) (auto simp: growing_ok_def)
qed (auto intro: swap_inv local_inv sub_inv simp: growing_ok_def)

lemma init_inv: "cas_init s \<Longrightarrow> cas_inv limit s"
proof -
  assume "cas_init s"
  then have "map held (threads s) = map (\<lambda>_. 0) (threads s)" and "\<forall>p \<in> set (threads s). growing_ok p"
    by (auto simp: cas_init_def growing_ok_def)
  then show ?thesis
    using \<open>cas_init s\<close> by (simp add: cas_inv_def cas_init_def total_held_def)
qed

lemma reach_budget: "reach cas_init (cas_step nxt limit) s \<Longrightarrow> cas_inv limit s"
  by (induction rule: reach.induct) (auto intro: init_inv step_inv)

end

interpretation reserve: cas_budget reserve_next
  by unfold_locales (auto simp: reserve_next_def split: option.splits if_splits)

interpretation body: cas_budget body_bytes_next
  by unfold_locales (auto simp: body_bytes_next_def split: option.splits if_splits)

section \<open>Properties\<close>

text \<open>
  C6. However the accesses of any number of threads interleave, and however often weak exchanges
  fail, the atomic counter behind \<open>reserve\<close> equals the sum of the reservations that are held
  and never exceeds the limit; releases and shrinking never wrap below zero.
\<close>

theorem reserve_budget:
  assumes "reach cas_init (cas_step reserve_next limit) s"
  shows "shared s = total_held s \<and> shared s \<le> limit
    \<and> (\<forall>i a. at_pc s i (Holding a) \<longrightarrow> fetch_sub (shared s) a = shared s - a \<and> a \<le> shared s)"
proof -
  note inv = reserve.reach_budget [OF assms]
  have "a \<le> shared s" if "at_pc s i (Holding a)" for i a
    using held_le_total [OF that] inv by (simp add: cas_inv_def)
  then show ?thesis using inv fetch_sub_exact by (simp add: cas_inv_def)
qed

definition cas_demo :: cas_sys where
  "cas_demo = \<lparr>shared = 0, threads = [Idle, Idle]\<rparr>"

theorem reserve_budget_witness:
  "\<exists>s. reach cas_init (cas_step reserve_next 10) s \<and> at_pc s 0 (Holding 7) \<and> shared s = 7
     \<and> fetch_sub (shared s) 7 = 0"
proof -
  let ?s1 = "thread_set 0 (Trying 7 (shared cas_demo)) cas_demo"
  let ?s2 = "thread_set 0 (Holding 7) (?s1\<lparr>shared := 7\<rparr>)"
  have "reach cas_init (cas_step reserve_next 10) cas_demo"
    by (rule reach_init) (simp add: cas_init_def cas_demo_def)
  then have "reach cas_init (cas_step reserve_next 10) ?s1"
    by (rule reach_step) (rule acquire_load, simp add: at_pc_def cas_demo_def)
  then have r: "reach cas_init (cas_step reserve_next 10) ?s2"
    by (rule reach_step)
      (rule acquire_swap [of _ _ _ 0], simp_all add: at_pc_def cas_demo_def thread_set_def reserve_next_def
        checked_add_def)
  have a: "at_pc ?s2 0 (Holding 7)" by (simp add: at_pc_def cas_demo_def thread_set_def)
  show ?thesis using r a reserve_budget [OF r] by (intro exI [of _ ?s2]) simp
qed

text \<open>
  The same holds for the request-body budget, whose loop in \<open>try_acquire_body_bytes\<close> is
  written differently: the bytes in flight are the sum of the live body permits and never exceed
  the limit.
\<close>

theorem body_budget:
  assumes "reach cas_init (cas_step body_bytes_next limit) s"
  shows "shared s = total_held s \<and> shared s \<le> limit"
  using body.reach_budget [OF assms] by (simp add: cas_inv_def)

theorem body_budget_witness:
  "shared cas_demo = total_held cas_demo \<and> shared cas_demo \<le> 5"
  using body_budget [of 5 cas_demo] by (simp add: reach_init cas_init_def cas_demo_def)

text \<open>
  The answer of a run of \<open>reserve\<close> is right at the moment it takes effect: it reports
  success exactly when some exchange met the value it computed from, and then the counter moves
  from a value \<open>c\<close> of the script to \<open>c + amount \<le> limit\<close>; it reports failure only for a value
  it read at which the reservation would overflow or exceed the limit.  Without interference it
  answers in one turn.
\<close>

theorem reserve_loop_correct:
  "(reserve_loop amount limit current env = Some (True, Some n) \<longrightarrow>
      (\<exists>c. (c, False) \<in> set env \<and> n = c + amount \<and> n \<le> limit \<and> n \<le> u64_max))
   \<and> (reserve_loop amount limit current env = Some (False, r) \<longrightarrow>
      (\<exists>c \<in> insert current (fst ` set env). limit < c + amount \<or> u64_max < c + amount))
   \<and> reserve_loop amount limit current ((current, False) # env)
      = (if current + amount \<le> limit \<and> current + amount \<le> u64_max
         then Some (True, Some (current + amount)) else Some (False, None))"
proof -
  have t: "reserve_loop amount limit current env = Some (True, Some n) \<Longrightarrow>
      \<exists>c. (c, False) \<in> set env \<and> n = c + amount \<and> n \<le> limit \<and> n \<le> u64_max"
    by (induction amount limit current env rule: reserve_loop.induct)
      (auto simp: reserve_next_def split: option.splits if_splits)
  have f: "reserve_loop amount limit current env = Some (False, r) \<Longrightarrow>
      \<exists>c \<in> insert current (fst ` set env). limit < c + amount \<or> u64_max < c + amount"
    by (induction amount limit current env rule: reserve_loop.induct)
      (fastforce simp: reserve_next_def split: option.splits if_splits)+
  show ?thesis using t f by (auto simp: reserve_next_def checked_add_def)
qed

theorem reserve_loop_correct_witness:
  "reserve_loop 3 10 5 [(6, False), (6, False)] = Some (True, Some 9)
    \<and> (\<exists>c. (c, False) \<in> set [(6, False), (6 :: nat, False)] \<and> (9 :: nat) = c + 3)"
proof -
  have r: "reserve_loop 3 10 5 [(6, False), (6, False)] = Some (True, Some 9)"
    by (simp add: reserve_next_def checked_add_def)
  then show ?thesis
    using reserve_loop_correct [of 3 10 5 "[(6, False), (6, False)]" 9] by auto
qed

end
