(* ===== verification/Json_Value.thy ===== *)
theory Json_Value
  imports Rust_Strings
begin

text \<open>
  JSON values as the code sees them through \<open>serde_json::Value\<close>: a number is an unsigned
  integer, a negative integer or a finite float, an object is a map with distinct keys.
  Parsing and printing bytes are \<open>serde_json\<close>'s and stay parameters of the definitions that
  use them; here are the accessors, which return \<open>None\<close> on a value of another kind.
  A float is kept as the rational number it denotes.
\<close>

datatype json_number = PosInt nat | NegInt int | Float rat

datatype json =
  JNull
| JBool bool
| JNumber json_number
| JString string
| JArray "json list"
| JObject "(string \<times> json) list"

fun json_get :: "json \<Rightarrow> string \<Rightarrow> json option" where
  "json_get (JObject kvs) k = map_of kvs k"
| "json_get _ k = None"

fun as_u64 :: "json \<Rightarrow> nat option" where
  "as_u64 (JNumber (PosInt n)) = Some n"
| "as_u64 _ = None"

fun as_i64 :: "json \<Rightarrow> int option" where
  "as_i64 (JNumber (PosInt n)) = (if n \<le> i64_max then Some (int n) else None)"
| "as_i64 (JNumber (NegInt i)) = Some i"
| "as_i64 _ = None"

fun as_f64 :: "json \<Rightarrow> rat option" where
  "as_f64 (JNumber (PosInt n)) = Some (of_nat n)"
| "as_f64 (JNumber (NegInt i)) = Some (of_int i)"
| "as_f64 (JNumber (Float r)) = Some r"
| "as_f64 _ = None"

fun as_str :: "json \<Rightarrow> string option" where
  "as_str (JString s) = Some s"
| "as_str _ = None"

fun as_bool :: "json \<Rightarrow> bool option" where
  "as_bool (JBool b) = Some b"
| "as_bool _ = None"

fun as_array :: "json \<Rightarrow> json list option" where
  "as_array (JArray xs) = Some xs"
| "as_array _ = None"

fun as_object :: "json \<Rightarrow> (string \<times> json) list option" where
  "as_object (JObject kvs) = Some kvs"
| "as_object _ = None"

fun is_null :: "json \<Rightarrow> bool" where
  "is_null JNull = True"
| "is_null _ = False"

fun is_number :: "json \<Rightarrow> bool" where
  "is_number (JNumber n) = True"
| "is_number _ = False"

fun is_string :: "json \<Rightarrow> bool" where
  "is_string (JString s) = True"
| "is_string _ = False"

fun is_array :: "json \<Rightarrow> bool" where
  "is_array (JArray xs) = True"
| "is_array _ = False"

fun is_object :: "json \<Rightarrow> bool" where
  "is_object (JObject kvs) = True"
| "is_object _ = False"

text \<open>\<open>get(a).or_else(|| get(b))\<close>, \<open>get(k).and_then(f)\<close> and \<open>pointer("/a/b")\<close>.\<close>

definition json_get_or :: "json \<Rightarrow> string \<Rightarrow> string \<Rightarrow> json option" where
  "json_get_or v a b = (case json_get v a of Some x \<Rightarrow> Some x | None \<Rightarrow> json_get v b)"

definition json_field :: "(json \<Rightarrow> 'a option) \<Rightarrow> json \<Rightarrow> string \<Rightarrow> 'a option" where
  "json_field f v k = Option.bind (json_get v k) f"

definition json_pointer2 :: "json \<Rightarrow> string \<Rightarrow> string \<Rightarrow> json option" where
  "json_pointer2 v a b = Option.bind (json_get v a) (\<lambda>x. json_get x b)"

text \<open>\<open>value[key] = x\<close> on an object; the code uses it on objects only.\<close>

fun json_set :: "json \<Rightarrow> string \<Rightarrow> json \<Rightarrow> json" where
  "json_set (JObject kvs) k x = JObject (hm_insert k x kvs)"
| "json_set v k x = v"

lemma json_get_set [simp]: "json_get (json_set (JObject kvs) k x) k' = (if k = k' then Some x else map_of kvs k')"
  by simp

lemma is_array_iff: "is_array v \<longleftrightarrow> as_array v \<noteq> None"
  by (cases v) simp_all

lemma is_string_iff: "is_string v \<longleftrightarrow> as_str v \<noteq> None"
  by (cases v) simp_all

end
