(* ===== verification/Router_Runtime.thy ===== *)
theory Router_Runtime
  imports Admission Atomic_Budget Json_Value "HOL-Library.Multiset"
begin

text \<open>
  The run-time state of the router (\<open>src-tauri/src/commands/proxy_runtime.rs\<close>): per-target
  health with a circuit breaker, target selection with four strategies, per-target permits,
  token-bucket rate limits and the metrics with their Prometheus text.  Each method that takes a
  lock is a function on the record \<open>rr\<close>; clock readings are arguments.  \<open>Arc::new(())\<close>,
  which gives a target its identity, takes the next number of an allocation counter.  Floats
  are rational numbers: rounding of \<open>f64\<close> is not modelled.
\<close>

declare map_of_eq_Some_iff [simp del]

section \<open>State\<close>

definition LATENCY_BUCKETS_MS :: "nat list" where
  "LATENCY_BUCKETS_MS = [10, 25, 50, 100, 250, 500, 1000, 5000, u64_max]"

definition MAX_SCHEDULING_COUNTERS :: nat where
  "MAX_SCHEDULING_COUNTERS = 4096"

record target_capabilities =
  cap_context_length :: "nat option"
  cap_total_slots :: "nat option"
  cap_busy_slots :: "nat option"
  cap_modalities :: json
  cap_chat_template_caps :: json
  cap_is_sleeping :: "bool option"
  cap_updated_at_ms :: nat

definition target_capabilities_default :: target_capabilities where
  "target_capabilities_default = \<lparr> cap_context_length = None, cap_total_slots = None,
     cap_busy_slots = None, cap_modalities = JNull, cap_chat_template_caps = JNull,
     cap_is_sleeping = None, cap_updated_at_ms = 0 \<rparr>"

record target_runtime =
  tr_identity :: nat
  tr_ready :: bool
  tr_consecutive_failures :: nat
  tr_circuit_open_until_ms :: nat
  tr_last_checked_at_ms :: nat
  tr_last_success_at_ms :: nat
  tr_latency_ms :: "rat option"
  tr_active_requests :: nat
  tr_last_error :: "string option"
  tr_capabilities :: target_capabilities

definition target_runtime_default :: "nat \<Rightarrow> target_runtime" where
  "target_runtime_default ident = \<lparr> tr_identity = ident, tr_ready = True,
     tr_consecutive_failures = 0, tr_circuit_open_until_ms = 0, tr_last_checked_at_ms = 0,
     tr_last_success_at_ms = 0, tr_latency_ms = None, tr_active_requests = 0,
     tr_last_error = None, tr_capabilities = target_capabilities_default \<rparr>"

record target_health_snapshot =
  hs_instance_id :: string
  hs_status :: string
  hs_ready :: bool
  hs_consecutive_failures :: nat
  hs_circuit_open_until_ms :: nat
  hs_last_checked_at_ms :: nat
  hs_last_success_at_ms :: nat
  hs_latency_ms :: "rat option"
  hs_active_requests :: nat
  hs_last_error :: "string option"
  hs_capabilities :: target_capabilities

record routing_candidate =
  rc_instance_id :: string
  rc_priority :: int
  rc_weight :: nat
  rc_max_concurrent_requests :: nat

datatype target_admission_error = Capacity | Unavailable

record rate_bucket =
  rb_tokens :: rat
  rb_capacity :: nat
  rb_last_refill :: rat

record rate_limit_decision =
  rl_allowed :: bool
  rl_limit :: nat
  rl_remaining :: nat
  rl_retry_after_secs :: nat

record router_metrics =
  rm_total_requests :: u64
  rm_rejected_requests :: u64
  rm_upstream_errors :: u64
  rm_completed_requests :: u64
  rm_duration_sum_ms :: u64
  rm_latency_buckets :: "nat list"

definition router_metrics_default :: router_metrics where
  "router_metrics_default = \<lparr> rm_total_requests = 0, rm_rejected_requests = 0,
     rm_upstream_errors = 0, rm_completed_requests = 0, rm_duration_sum_ms = 0,
     rm_latency_buckets = replicate (length LATENCY_BUCKETS_MS) 0 \<rparr>"

record rr =
  rr_heap :: nat
  rr_targets :: "(string, target_runtime) hmap"
  rr_scheduling_counters :: "(string, u64) hmap"
  rr_admission :: adm
  rr_in_flight_body_bytes :: nat
  rr_rate_buckets :: "(string, rate_bucket) hmap"
  rr_metrics :: router_metrics

definition rr_default :: rr where
  "rr_default = \<lparr> rr_heap = 0, rr_targets = [], rr_scheduling_counters = [],
     rr_admission = adm_default, rr_in_flight_body_bytes = 0, rr_rate_buckets = [],
     rr_metrics = router_metrics_default \<rparr>"

record target_permit =
  tp_instance_id :: string
  tp_target_identity :: nat

section \<open>Admission and body bytes\<close>

definition configure_admission :: "proxy_config \<Rightarrow> rr \<Rightarrow> rr" where
  "configure_admission config r = r\<lparr>rr_admission := adm_configure config (rr_admission r)\<rparr>"

definition count_request :: "rr \<Rightarrow> rr" where
  "count_request r =
     r\<lparr>rr_metrics := (rr_metrics r)\<lparr>rm_total_requests := rm_total_requests (rr_metrics r) + 1\<rparr>\<rparr>"

text \<open>
  \<open>acquire_request\<close> counts a request once \<open>acquire\<close> has returned a permit: at once, or when a
  poll of the waiter succeeds.
\<close>

definition acquire_request_start :: "string \<Rightarrow> rr \<Rightarrow> rr \<times> start_result" where
  "acquire_request_start key r =
     (case acquire_start key (rr_admission r) of
        (a, Granted i) \<Rightarrow> (count_request (r\<lparr>rr_admission := a\<rparr>), Granted i)
      | (a, res) \<Rightarrow> (r\<lparr>rr_admission := a\<rparr>, res))"

definition acquire_request_poll :: "u64 \<Rightarrow> rr \<Rightarrow> rr option" where
  "acquire_request_poll i r =
     (case acquire_poll i (rr_admission r) of
        Acquired a \<Rightarrow> Some (count_request (r\<lparr>rr_admission := a\<rparr>))
      | _ \<Rightarrow> None)"

definition in_flight_requests :: "rr \<Rightarrow> nat" where
  "in_flight_requests r = active_count (rr_admission r)"

text \<open>The effect of a call of \<open>try_acquire_body_bytes\<close> and of dropping its permit.\<close>

definition try_acquire_body_bytes :: "nat \<Rightarrow> nat \<Rightarrow> rr \<Rightarrow> (rr \<times> nat) option" where
  "try_acquire_body_bytes n limit r =
     (case body_bytes_next n limit (rr_in_flight_body_bytes r) of
        None \<Rightarrow> None
      | Some c \<Rightarrow> Some (r\<lparr>rr_in_flight_body_bytes := c\<rparr>, n))"

definition body_permit_drop :: "nat \<Rightarrow> rr \<Rightarrow> rr" where
  "body_permit_drop n r = r\<lparr>rr_in_flight_body_bytes := fetch_sub (rr_in_flight_body_bytes r) n\<rparr>"

section \<open>Rate limits\<close>

text \<open>
  The three clock readings of one call: a new bucket is created at \<open>t0\<close>, the elapsed time is
  read at \<open>t1\<close>, the refill time is set to \<open>t2\<close>.  \<open>Instant::elapsed\<close> never is negative.
\<close>

definition refill_bucket :: "nat \<Rightarrow> rat \<Rightarrow> rat \<Rightarrow> rate_bucket \<Rightarrow> rate_bucket" where
  "refill_bucket limit t1 t2 b =
     (let b1 = (if rb_capacity b \<noteq> limit
                then b\<lparr>rb_capacity := limit, rb_tokens := min (rb_tokens b) (of_nat limit)\<rparr> else b);
          elapsed = max 0 (t1 - rb_last_refill b1);
          refill_per_second = of_nat limit / 60
      in b1\<lparr> rb_tokens := min (rb_tokens b1 + elapsed * refill_per_second) (of_nat limit),
             rb_last_refill := t2 \<rparr>)"

definition check_rate_limit :: "rat \<Rightarrow> rat \<Rightarrow> rat \<Rightarrow> string \<Rightarrow> nat \<Rightarrow> rr \<Rightarrow> rr \<times> rate_limit_decision" where
  "check_rate_limit t0 t1 t2 client_id limit r =
     (if limit = 0
      then (r, \<lparr> rl_allowed = True, rl_limit = 0, rl_remaining = u32_max, rl_retry_after_secs = 0 \<rparr>)
      else
        (let b = (case hm_get (rr_rate_buckets r) client_id of
                    Some b \<Rightarrow> b
                  | None \<Rightarrow> \<lparr> rb_tokens = of_nat limit, rb_capacity = limit, rb_last_refill = t0 \<rparr>);
             b1 = refill_bucket limit t1 t2 b
         in if 1 \<le> rb_tokens b1
            then (let b2 = b1\<lparr>rb_tokens := rb_tokens b1 - 1\<rparr>
                  in (r\<lparr>rr_rate_buckets := hm_insert client_id b2 (rr_rate_buckets r)\<rparr>,
                      \<lparr> rl_allowed = True, rl_limit = limit, rl_remaining = nat \<lfloor>rb_tokens b2\<rfloor>,
                        rl_retry_after_secs = 0 \<rparr>))
            else (r\<lparr>rr_rate_buckets := hm_insert client_id b1 (rr_rate_buckets r)\<rparr>,
                  \<lparr> rl_allowed = False, rl_limit = limit, rl_remaining = 0,
                    rl_retry_after_secs =
                      nat (max 1 \<lceil>(1 - rb_tokens b1) / (of_nat limit / 60)\<rceil>) \<rparr>)))"

section \<open>Target selection\<close>

definition next_scheduling_ticket :: "string \<Rightarrow> string \<Rightarrow> rr \<Rightarrow> rr \<times> u64" where
  "next_scheduling_ticket strategy routing_key r =
     (let key = strategy @ [byte 31] @ routing_key;
          counters = (if hm_get (rr_scheduling_counters r) key = None
                         \<and> MAX_SCHEDULING_COUNTERS \<le> length (rr_scheduling_counters r)
                      then [] else rr_scheduling_counters r);
          ticket = hm_get_or 0 counters key
      in (r\<lparr>rr_scheduling_counters := hm_insert key (ticket + 1) counters\<rparr>, ticket))"

definition circuit_open :: "nat \<Rightarrow> target_runtime \<Rightarrow> bool" where
  "circuit_open now t \<longleftrightarrow> now < tr_circuit_open_until_ms t \<or> \<not> tr_ready t"

definition eligible :: "nat \<Rightarrow> (string, target_runtime) hmap \<Rightarrow> routing_candidate \<Rightarrow> bool" where
  "eligible now targets c =
     (let state = hm_get targets (rc_instance_id c);
          is_open = (case state of None \<Rightarrow> False | Some t \<Rightarrow> circuit_open now t);
          active = (case state of None \<Rightarrow> 0 | Some t \<Rightarrow> tr_active_requests t);
          at_capacity = (0 < rc_max_concurrent_requests c \<and> rc_max_concurrent_requests c \<le> active);
          at_slot_capacity = (case Option.bind state (\<lambda>t. cap_total_slots (tr_capabilities t)) of
                                None \<Rightarrow> False | Some slots \<Rightarrow> 0 < slots \<and> slots \<le> active)
      in \<not> is_open \<and> \<not> at_capacity \<and> \<not> at_slot_capacity)"

definition busy_score :: "(string, target_runtime) hmap \<Rightarrow> routing_candidate \<Rightarrow> rat" where
  "busy_score targets c =
     (case hm_get targets (rc_instance_id c) of
        None \<Rightarrow> 0
      | Some t \<Rightarrow> of_nat (tr_active_requests t)
          + (case (cap_busy_slots (tr_capabilities t), cap_total_slots (tr_capabilities t)) of
               (Some busy, Some slots) \<Rightarrow> if 0 < slots then of_nat busy / of_nat slots else 0
             | _ \<Rightarrow> 0))"

text \<open>\<open>Iterator::min_by\<close>: the first of the least elements.\<close>

fun first_min :: "('a \<Rightarrow> rat) \<Rightarrow> 'a list \<Rightarrow> 'a option" where
  "first_min f [] = None"
| "first_min f (x # xs) =
     (case first_min f xs of None \<Rightarrow> Some x | Some y \<Rightarrow> if f y < f x then Some y else Some x)"

definition weight_of :: "routing_candidate \<Rightarrow> nat" where
  "weight_of c = max (rc_weight c) 1"

fun pick_weighted :: "routing_candidate list \<Rightarrow> nat \<Rightarrow> routing_candidate option" where
  "pick_weighted [] ticket = None"
| "pick_weighted (c # cs) ticket =
     (if ticket < weight_of c then Some c else pick_weighted cs (ticket - weight_of c))"

definition best_tier :: "nat \<Rightarrow> (string, target_runtime) hmap \<Rightarrow> routing_candidate list \<Rightarrow> routing_candidate list" where
  "best_tier now targets candidates =
     (let es = filter (eligible now targets) candidates
      in filter (\<lambda>c. rc_priority c = Min (set (map rc_priority es))) es)"

definition select_target :: "nat \<Rightarrow> routing_candidate list \<Rightarrow> string \<Rightarrow> string \<Rightarrow> rr \<Rightarrow> rr \<times> routing_candidate option" where
  "select_target now candidates strategy routing_key r =
     (let es = best_tier now (rr_targets r) candidates
      in if es = [] then (r, None)
         else if strategy = ''roundRobin'' then
           (case next_scheduling_ticket strategy routing_key r of
              (r', ticket) \<Rightarrow> (r', Some (es ! (unat ticket mod length es))))
         else if strategy = ''leastBusy'' then (r, first_min (busy_score (rr_targets r)) es)
         else if strategy = ''weighted'' then
           (case next_scheduling_ticket strategy routing_key r of
              (r', ticket) \<Rightarrow> (r', pick_weighted es (unat ticket mod sum_list (map weight_of es))))
         else (r, Some (hd es)))"

text \<open>\<open>targets.entry(id).or_default()\<close>: an absent target is created with a new identity.\<close>

definition with_target :: "string \<Rightarrow> (target_runtime \<Rightarrow> target_runtime) \<Rightarrow> rr \<Rightarrow> rr \<times> target_runtime" where
  "with_target inst f r =
     (case hm_get (rr_targets r) inst of
        Some t \<Rightarrow> (r\<lparr>rr_targets := hm_insert inst (f t) (rr_targets r)\<rparr>, f t)
      | None \<Rightarrow> (let t = target_runtime_default (rr_heap r)
                in (r\<lparr> rr_heap := rr_heap r + 1, rr_targets := hm_insert inst (f t) (rr_targets r) \<rparr>, f t)))"

definition select_and_acquire_target ::
  "nat \<Rightarrow> nat \<Rightarrow> routing_candidate list \<Rightarrow> string \<Rightarrow> string \<Rightarrow> rr
    \<Rightarrow> rr \<times> (target_admission_error + routing_candidate \<times> target_permit)" where
  "select_and_acquire_target now now' candidates strategy routing_key r =
     (case select_target now candidates strategy routing_key r of
        (r1, None) \<Rightarrow>
          (r1, Inl (if list_ex (\<lambda>c. case hm_get (rr_targets r1) (rc_instance_id c) of
                                  None \<Rightarrow> True
                                | Some t \<Rightarrow> tr_ready t \<and> tr_circuit_open_until_ms t \<le> now') candidates
                    then Capacity else Unavailable))
      | (r1, Some c) \<Rightarrow>
          (case with_target (rc_instance_id c)
                  (\<lambda>t. t\<lparr>tr_active_requests := tr_active_requests t + 1\<rparr>) r1 of
             (r2, t) \<Rightarrow> (r2, Inr (c, \<lparr> tp_instance_id = rc_instance_id c, tp_target_identity = tr_identity t \<rparr>))))"

definition target_permit_drop :: "target_permit \<Rightarrow> rr \<Rightarrow> rr" where
  "target_permit_drop p r =
     (case hm_get (rr_targets r) (tp_instance_id p) of
        None \<Rightarrow> r
      | Some t \<Rightarrow>
          if tr_identity t = tp_target_identity p
          then r\<lparr>rr_targets := hm_insert (tp_instance_id p)
                   (t\<lparr>tr_active_requests := tr_active_requests t - 1\<rparr>) (rr_targets r)\<rparr>
          else r)"

section \<open>Probes and metrics\<close>

definition mark_probe_success :: "nat \<Rightarrow> string \<Rightarrow> rat \<Rightarrow> target_capabilities option \<Rightarrow> rr \<Rightarrow> rr" where
  "mark_probe_success now inst latency caps r =
     fst (with_target inst
       (\<lambda>t. t\<lparr> tr_ready := True, tr_consecutive_failures := 0, tr_circuit_open_until_ms := 0,
              tr_last_checked_at_ms := now, tr_last_success_at_ms := now,
              tr_latency_ms := Some (case tr_latency_ms t of
                                       Some previous \<Rightarrow> previous * (8 / 10) + latency * (2 / 10)
                                     | None \<Rightarrow> latency),
              tr_last_error := None,
              tr_capabilities := (case caps of Some c \<Rightarrow> c | None \<Rightarrow> tr_capabilities t) \<rparr>) r)"

definition fail_target :: "nat \<Rightarrow> string \<Rightarrow> nat \<Rightarrow> nat \<Rightarrow> target_runtime \<Rightarrow> target_runtime" where
  "fail_target now error threshold cooldown_ms t =
     (let t1 = t\<lparr> tr_last_checked_at_ms := now,
                  tr_consecutive_failures := sat_add u32_max (tr_consecutive_failures t) 1,
                  tr_last_error := Some error \<rparr>
      in if max threshold 1 \<le> tr_consecutive_failures t1
         then t1\<lparr> tr_ready := False,
                  tr_circuit_open_until_ms := sat_add u64_max now (min cooldown_ms u64_max) \<rparr>
         else t1)"

definition mark_probe_failure :: "nat \<Rightarrow> string \<Rightarrow> string \<Rightarrow> nat \<Rightarrow> nat \<Rightarrow> rr \<Rightarrow> rr" where
  "mark_probe_failure now inst error threshold cooldown_ms r =
     fst (with_target inst (fail_target now error threshold cooldown_ms) r)"

definition mark_request_failure :: "nat \<Rightarrow> string \<Rightarrow> string \<Rightarrow> nat \<Rightarrow> nat \<Rightarrow> rr \<Rightarrow> rr" where
  "mark_request_failure now inst error threshold cooldown_ms r =
     mark_probe_failure now inst error threshold cooldown_ms
       (r\<lparr>rr_metrics := (rr_metrics r)\<lparr>rm_upstream_errors := rm_upstream_errors (rr_metrics r) + 1\<rparr>\<rparr>)"

fun position :: "('a \<Rightarrow> bool) \<Rightarrow> 'a list \<Rightarrow> nat option" where
  "position p [] = None"
| "position p (x # xs) = (if p x then Some 0 else map_option Suc (position p xs))"

definition record_completed :: "nat \<Rightarrow> rr \<Rightarrow> rr" where
  "record_completed duration_ms r =
     (let m = rr_metrics r;
          m1 = m\<lparr> rm_completed_requests := rm_completed_requests m + 1,
                  rm_duration_sum_ms := rm_duration_sum_ms m + of_nat duration_ms \<rparr>;
          b = rm_latency_buckets m1
      in r\<lparr>rr_metrics :=
            (case position (\<lambda>upper. duration_ms \<le> upper) LATENCY_BUCKETS_MS of
               None \<Rightarrow> m1
             | Some i \<Rightarrow> m1\<lparr>rm_latency_buckets := b[i := sat_add u64_max (b ! i) 1]\<rparr>)\<rparr>)"

definition record_rejected :: "rr \<Rightarrow> rr" where
  "record_rejected r =
     r\<lparr>rr_metrics := (rr_metrics r)\<lparr>rm_rejected_requests := rm_rejected_requests (rr_metrics r) + 1\<rparr>\<rparr>"

definition capabilities_stale :: "nat \<Rightarrow> string \<Rightarrow> nat \<Rightarrow> rr \<Rightarrow> bool" where
  "capabilities_stale now inst max_age_ms r =
     (let updated_at = (case hm_get (rr_targets r) inst of
                          Some t \<Rightarrow> cap_updated_at_ms (tr_capabilities t) | None \<Rightarrow> 0)
      in updated_at = 0 \<or> max_age_ms < now - updated_at)"

text \<open>The clock is read for the status (\<open>now\<close>) and again for readiness (\<open>now'\<close>).\<close>

definition target_snapshot :: "nat \<Rightarrow> nat \<Rightarrow> string \<Rightarrow> rr \<Rightarrow> target_health_snapshot" where
  "target_snapshot now now' inst r =
     (let t = (case hm_get (rr_targets r) inst of
                 Some t \<Rightarrow> t | None \<Rightarrow> target_runtime_default (rr_heap r))
      in \<lparr> hs_instance_id = inst,
           hs_status = (if tr_ready t then ''ready''
                        else if now < tr_circuit_open_until_ms t then ''circuit_open''
                        else ''unavailable''),
           hs_ready = (tr_ready t \<and> tr_circuit_open_until_ms t \<le> now'),
           hs_consecutive_failures = tr_consecutive_failures t,
           hs_circuit_open_until_ms = tr_circuit_open_until_ms t,
           hs_last_checked_at_ms = tr_last_checked_at_ms t,
           hs_last_success_at_ms = tr_last_success_at_ms t,
           hs_latency_ms = tr_latency_ms t,
           hs_active_requests = tr_active_requests t,
           hs_last_error = tr_last_error t,
           hs_capabilities = tr_capabilities t \<rparr>)"

definition snapshots :: "(string \<Rightarrow> nat \<times> nat) \<Rightarrow> string list \<Rightarrow> rr \<Rightarrow> target_health_snapshot list" where
  "snapshots clock ids r = map (\<lambda>i. target_snapshot (fst (clock i)) (snd (clock i)) i r) ids"

definition retain_targets :: "string list \<Rightarrow> rr \<Rightarrow> rr" where
  "retain_targets ids r = r\<lparr>rr_targets := hm_retain (\<lambda>k _. k \<in> set ids) (rr_targets r)\<rparr>"

definition route_health_counts :: "nat \<Rightarrow> string list \<Rightarrow> rr \<Rightarrow> nat \<times> nat" where
  "route_health_counts now ids r =
     fold (\<lambda>i (healthy, unhealthy).
            if (case hm_get (rr_targets r) i of
                  None \<Rightarrow> False | Some t \<Rightarrow> tr_ready t \<and> tr_circuit_open_until_ms t \<le> now)
            then (healthy + 1, unhealthy) else (healthy, unhealthy + 1)) ids (0, 0)"

section \<open>Prometheus text\<close>

definition quote :: string where "quote = [byte 34]"

definition line :: "string \<Rightarrow> string" where "line s = s @ [byte 10]"

definition show_u64 :: "u64 \<Rightarrow> string" where "show_u64 w = show_nat (unat w)"

text \<open>\<open>replace\<close> of backslash by two backslashes, then of the quote by backslash and quote.\<close>

definition escape_label :: "string \<Rightarrow> string" where
  "escape_label s =
     concat (map (\<lambda>c. if c = byte 34 then [byte 92, byte 34] else [c])
       (concat (map (\<lambda>c. if c = byte 92 then [byte 92, byte 92] else [c]) s)))"

fun bucket_lines :: "nat \<Rightarrow> (nat \<times> nat) list \<Rightarrow> string" where
  "bucket_lines cumulative [] = []"
| "bucket_lines cumulative ((upper, n) # rest) =
     (let cumulative' = sat_add u64_max cumulative n;
          label = (if upper = u64_max then ''+Inf'' else show_nat upper)
      in line (''lsm_router_request_duration_milliseconds_bucket{le='' @ quote @ label @ quote
               @ ''} '' @ show_nat cumulative')
         @ bucket_lines cumulative' rest)"

definition target_lines :: "nat \<Rightarrow> string \<times> target_runtime \<Rightarrow> string" where
  "target_lines now e =
     (case e of (inst, t) \<Rightarrow>
       (let label = escape_label inst;
            ready = (if tr_ready t \<and> tr_circuit_open_until_ms t \<le> now then ''1'' else ''0'')
        in line (''lsm_router_target_ready{instance_id='' @ quote @ label @ quote @ ''} '' @ ready)
           @ line (''lsm_router_target_active_requests{instance_id='' @ quote @ label @ quote @ ''} ''
                   @ show_nat (tr_active_requests t))))"

definition prometheus_metrics :: "nat \<Rightarrow> nat \<Rightarrow> rr \<Rightarrow> string" where
  "prometheus_metrics now uptime_secs r =
     (let m = rr_metrics r in
      line ''# HELP lsm_router_requests_total Total accepted router requests.''
      @ line ''# TYPE lsm_router_requests_total counter''
      @ line (''lsm_router_requests_total '' @ show_u64 (rm_total_requests m))
      @ line ''# HELP lsm_router_requests_completed_total Forwarded request lifecycles ended, including errors and cancellations; not a success counter.''
      @ line ''# TYPE lsm_router_requests_completed_total counter''
      @ line (''lsm_router_requests_completed_total '' @ show_u64 (rm_completed_requests m))
      @ line ''# HELP lsm_router_requests_rejected_total Local error responses for inference and count POST requests before forwarding, including pre-admission rejection.''
      @ line ''# TYPE lsm_router_requests_rejected_total counter''
      @ line (''lsm_router_requests_rejected_total '' @ show_u64 (rm_rejected_requests m))
      @ line ''# TYPE lsm_router_upstream_errors_total counter''
      @ line (''lsm_router_upstream_errors_total '' @ show_u64 (rm_upstream_errors m))
      @ line ''# TYPE lsm_router_in_flight_requests gauge''
      @ line (''lsm_router_in_flight_requests '' @ show_nat (in_flight_requests r))
      @ line ''# TYPE lsm_router_in_flight_request_body_bytes gauge''
      @ line (''lsm_router_in_flight_request_body_bytes '' @ show_nat (rr_in_flight_body_bytes r))
      @ line ''# TYPE lsm_router_request_duration_milliseconds histogram''
      @ bucket_lines 0 (zip LATENCY_BUCKETS_MS (rm_latency_buckets m))
      @ line (''lsm_router_request_duration_milliseconds_sum '' @ show_u64 (rm_duration_sum_ms m))
      @ line (''lsm_router_request_duration_milliseconds_count '' @ show_u64 (rm_completed_requests m))
      @ line ''# TYPE lsm_router_target_ready gauge''
      @ line ''# TYPE lsm_router_target_active_requests gauge''
      @ concat (map (target_lines now) (rr_targets r))
      @ line ''# TYPE lsm_router_uptime_seconds gauge''
      @ line (''lsm_router_uptime_seconds '' @ show_nat uptime_secs))"

section \<open>Selection lemmas\<close>

lemma first_min_Some:
  "xs \<noteq> [] \<Longrightarrow> \<exists>y. first_min f xs = Some y \<and> y \<in> set xs \<and> (\<forall>x \<in> set xs. f y \<le> f x)"
proof (induction xs)
  case Nil
  then show ?case by simp
next
  case (Cons x xs)
  show ?case
  proof (cases "xs = []")
    case True
    then show ?thesis by simp
  next
    case False
    with Cons obtain y where "first_min f xs = Some y" "y \<in> set xs" "\<forall>x \<in> set xs. f y \<le> f x" by blast
    then show ?thesis by (auto intro: order_trans less_imp_le)
  qed
qed

lemma pick_weighted_Some:
  "t < sum_list (map weight_of cs) \<Longrightarrow> \<exists>c \<in> set cs. pick_weighted cs t = Some c"
  by (induction cs arbitrary: t) auto

lemma weight_of_pos [simp]: "0 < weight_of c"
  by (simp add: weight_of_def)

lemma total_weight_pos: "cs \<noteq> [] \<Longrightarrow> 0 < sum_list (map weight_of cs)"
  by (cases cs) simp_all

lemma best_tier_Nil: "best_tier now ts cs = [] \<longleftrightarrow> (\<forall>c \<in> set cs. \<not> eligible now ts c)"
proof
  assume e: "best_tier now ts cs = []"
  show "\<forall>c \<in> set cs. \<not> eligible now ts c"
  proof (rule ccontr)
    assume "\<not> ?thesis"
    then have "Min (set (map rc_priority (filter (eligible now ts) cs)))
        \<in> set (map rc_priority (filter (eligible now ts) cs))"
      by (intro Min_in) (auto simp: filter_empty_conv)
    then show False using e by (auto simp: best_tier_def Let_def filter_empty_conv)
  qed
qed (simp add: best_tier_def)

lemma best_tier_props:
  assumes "c \<in> set (best_tier now ts cs)"
  shows "c \<in> set cs" "eligible now ts c"
    "\<And>c'. c' \<in> set cs \<Longrightarrow> eligible now ts c' \<Longrightarrow> rc_priority c \<le> rc_priority c'"
  using assms by (auto simp: best_tier_def Let_def)

lemma select_target_cases:
  assumes "select_target now cs strategy key r = (r', res)"
  shows "rr_targets r' = rr_targets r \<and> rr_heap r' = rr_heap r
    \<and> (res = None \<longleftrightarrow> best_tier now (rr_targets r) cs = [])
    \<and> (\<forall>c. res = Some c \<longrightarrow> c \<in> set (best_tier now (rr_targets r) cs))"
proof (cases "best_tier now (rr_targets r) cs = []")
  case True
  then show ?thesis using assms by (auto simp: select_target_def)
next
  case False
  let ?es = "best_tier now (rr_targets r) cs"
  have w: "\<exists>c \<in> set ?es. pick_weighted ?es (t mod sum_list (map weight_of ?es)) = Some c" for t
    using False by (intro pick_weighted_Some) (simp add: total_weight_pos)
  have m: "\<exists>y. first_min (busy_score (rr_targets r)) ?es = Some y \<and> y \<in> set ?es"
    using first_min_Some [OF False] by blast
  have n: "?es ! (t mod length ?es) \<in> set ?es" for t using False by simp
  have t: "rr_targets (fst (next_scheduling_ticket s k r)) = rr_targets r
      \<and> rr_heap (fst (next_scheduling_ticket s k r)) = rr_heap r" for s k
    by (simp add: next_scheduling_ticket_def Let_def)
  show ?thesis
  proof (cases "strategy = ''roundRobin''")
    case True
    then show ?thesis
      using assms False n t [of strategy key] by (auto simp: select_target_def Let_def split: prod.splits)
  next
    case rr: False
    show ?thesis
    proof (cases "strategy = ''leastBusy''")
      case True
      then show ?thesis using assms False m by (auto simp: select_target_def Let_def)
    next
      case lb: False
      show ?thesis
      proof (cases "strategy = ''weighted''")
        case True
        obtain r1 tk where nt: "next_scheduling_ticket strategy key r = (r1, tk)" by fastforce
        obtain c where "c \<in> set ?es"
          "pick_weighted ?es (unat tk mod sum_list (map weight_of ?es)) = Some c" using w by blast
        moreover have "r' = r1" "res = pick_weighted ?es (unat tk mod sum_list (map weight_of ?es))"
          using assms False True nt by (simp_all add: select_target_def Let_def)
        ultimately show ?thesis using False nt t [of strategy key] by simp
      next
        case wf: False
        then show ?thesis using assms False rr lb by (auto simp: select_target_def Let_def)
      qed
    qed
  qed
qed

section \<open>Permit accounting\<close>

definition live_permits :: "target_permit list \<Rightarrow> string \<Rightarrow> nat \<Rightarrow> nat" where
  "live_permits ps inst ident = count_list ps \<lparr> tp_instance_id = inst, tp_target_identity = ident \<rparr>"

inductive rt_step :: "rr \<times> target_permit list \<Rightarrow> rr \<times> target_permit list \<Rightarrow> bool" where
  rt_acquire: "select_and_acquire_target now now' cs strategy key r = (r', Inr (c, p)) \<Longrightarrow>
    rt_step (r, ps) (r', p # ps)"
| rt_refuse: "select_and_acquire_target now now' cs strategy key r = (r', Inl e) \<Longrightarrow> rt_step (r, ps) (r', ps)"
| rt_drop: "p \<in> set ps \<Longrightarrow> rt_step (r, ps) (target_permit_drop p r, remove1 p ps)"
| rt_success: "rt_step (r, ps) (mark_probe_success now inst latency caps r, ps)"
| rt_failure: "rt_step (r, ps) (mark_probe_failure now inst error threshold cooldown r, ps)"
| rt_request_failure: "rt_step (r, ps) (mark_request_failure now inst error threshold cooldown r, ps)"
| rt_retain: "rt_step (r, ps) (retain_targets ids r, ps)"
| rt_completed: "rt_step (r, ps) (record_completed ms r, ps)"
| rt_rejected: "rt_step (r, ps) (record_rejected r, ps)"
| rt_rate: "rt_step (r, ps) (fst (check_rate_limit t0 t1 t2 client limit r), ps)"
| rt_configure: "rt_step (r, ps) (configure_admission config r, ps)"
| rt_request: "acquire_request_start client r = (r', res) \<Longrightarrow> rt_step (r, ps) (r', ps)"
| rt_poll: "acquire_request_poll i r = Some r' \<Longrightarrow> rt_step (r, ps) (r', ps)"
| rt_body: "try_acquire_body_bytes n limit r = Some (r', m) \<Longrightarrow> rt_step (r, ps) (r', ps)"
| rt_body_drop: "rt_step (r, ps) (body_permit_drop n r, ps)"

definition rt_init :: "rr \<times> target_permit list \<Rightarrow> bool" where
  "rt_init p = (p = (rr_default, []))"

definition rt_inv :: "rr \<times> target_permit list \<Rightarrow> bool" where
  "rt_inv p = (case p of (r, ps) \<Rightarrow>
     hm_ok (rr_targets r)
     \<and> (\<forall>inst t. hm_get (rr_targets r) inst = Some t \<longrightarrow>
           tr_identity t < rr_heap r \<and> tr_active_requests t = live_permits ps inst (tr_identity t))
     \<and> (\<forall>q \<in> set ps. tp_target_identity q < rr_heap r))"

lemma rt_inv_cong:
  "rr_targets r' = rr_targets r \<Longrightarrow> rr_heap r' = rr_heap r \<Longrightarrow> rt_inv (r', ps) = rt_inv (r, ps)"
  by (simp add: rt_inv_def)

lemma live_permits_fresh:
  "\<forall>q \<in> set ps. tp_target_identity q < h \<Longrightarrow> live_permits ps inst h = 0"
  by (auto simp: live_permits_def count_list_0_iff)

lemma with_target_spec:
  "with_target inst f r = (r', t) \<Longrightarrow>
    \<exists>t0. t = f t0 \<and> rr_targets r' = hm_insert inst t (rr_targets r)
      \<and> (hm_get (rr_targets r) inst = Some t0 \<and> rr_heap r' = rr_heap r
         \<or> hm_get (rr_targets r) inst = None \<and> t0 = target_runtime_default (rr_heap r)
            \<and> rr_heap r' = rr_heap r + 1)"
  by (auto simp: with_target_def Let_def split: option.splits)

lemma with_target_gen:
  assumes inv: "rt_inv (r, ps)" and w: "with_target inst f r = (r', t)"
    and fi: "\<And>t. tr_identity (f t) = tr_identity t"
    and fa: "\<And>t. tr_active_requests (f t) = tr_active_requests t + d"
    and live: "\<And>i k. live_permits ps' i k = live_permits ps i k + (if i = inst \<and> k = tr_identity t then d else 0)"
    and sub: "\<And>q. q \<in> set ps' \<Longrightarrow> q \<in> set ps \<or> tp_target_identity q = tr_identity t"
  shows "rt_inv (r', ps')"
proof -
  have ok: "hm_ok (rr_targets r)" "\<And>i t'. hm_get (rr_targets r) i = Some t' \<Longrightarrow>
      tr_identity t' < rr_heap r \<and> tr_active_requests t' = live_permits ps i (tr_identity t')"
    "\<And>q. q \<in> set ps \<Longrightarrow> tp_target_identity q < rr_heap r"
    using inv by (auto simp: rt_inv_def)
  have fresh: "live_permits ps inst (rr_heap r) = 0" using ok(3) live_permits_fresh by blast
  obtain t0 where t: "t = f t0" and m: "rr_targets r' = hm_insert inst t (rr_targets r)"
    and h: "hm_get (rr_targets r) inst = Some t0 \<and> rr_heap r' = rr_heap r
         \<or> hm_get (rr_targets r) inst = None \<and> t0 = target_runtime_default (rr_heap r)
            \<and> rr_heap r' = rr_heap r + 1"
    using with_target_spec [OF w] by blast
  have le: "rr_heap r \<le> rr_heap r'" using h by auto
  have t_ok: "tr_identity t < rr_heap r' \<and> tr_active_requests t = live_permits ps inst (tr_identity t) + d"
    using h ok(2) fresh fi fa t by (auto simp: target_runtime_default_def)
  have "tr_identity t' < rr_heap r' \<and> tr_active_requests t' = live_permits ps' i (tr_identity t')"
    if "hm_get (rr_targets r') i = Some t'" for i t'
  proof (cases "i = inst")
    case True
    then show ?thesis using that m t_ok live by simp
  next
    case False
    then have "hm_get (rr_targets r) i = Some t'" using that m by simp
    then show ?thesis using ok(2) [of i t'] False live le by simp
  qed
  moreover have "tp_target_identity q < rr_heap r'" if "q \<in> set ps'" for q
    using sub [OF that] t_ok ok(3) [of q] le by auto
  ultimately show ?thesis using m ok(1) by (auto simp: rt_inv_def)
qed

lemma with_target_inv:
  assumes "rt_inv (r, ps)" and "with_target inst f r = (r', t)"
    and "\<And>t. tr_identity (f t) = tr_identity t" and "\<And>t. tr_active_requests (f t) = tr_active_requests t"
  shows "rt_inv (r', ps)"
  by (rule with_target_gen [OF assms(1,2), of 0]) (use assms in auto)

lemma acquire_inv:
  assumes "rt_inv (r, ps)"
    and "with_target inst (\<lambda>t. t\<lparr>tr_active_requests := tr_active_requests t + 1\<rparr>) r = (r', t)"
  shows "rt_inv (r', \<lparr> tp_instance_id = inst, tp_target_identity = tr_identity t \<rparr> # ps)"
  by (rule with_target_gen [OF assms, of 1]) (auto simp: live_permits_def)

lemma live_permits_remove1:
  assumes "p \<in> set ps"
  shows "live_permits (remove1 p ps) i k
    = live_permits ps i k - (if i = tp_instance_id p \<and> k = tp_target_identity p then 1 else 0)"
proof -
  have rem: "count_list (remove1 p ps) q = count_list ps q - (if q = p then 1 else 0)" for q
    using assms by (induction ps) auto
  show ?thesis by (cases p) (simp add: live_permits_def rem)
qed

lemma drop_inv:
  assumes inv: "rt_inv (r, ps)" and p: "p \<in> set ps"
  shows "rt_inv (target_permit_drop p r, remove1 p ps)"
proof -
  let ?i = "tp_instance_id p"
  have ok: "hm_ok (rr_targets r)" "\<And>i t'. hm_get (rr_targets r) i = Some t' \<Longrightarrow>
      tr_identity t' < rr_heap r \<and> tr_active_requests t' = live_permits ps i (tr_identity t')"
    using inv by (auto simp: rt_inv_def)
  have sub: "\<forall>q \<in> set (remove1 p ps). tp_target_identity q < rr_heap r"
    using inv set_remove1_subset [of p ps] by (auto simp: rt_inv_def)
  have heap: "rr_heap (target_permit_drop p r) = rr_heap r"
    by (simp add: target_permit_drop_def split: option.splits)
  have "tr_identity t' < rr_heap r \<and> tr_active_requests t' = live_permits (remove1 p ps) i (tr_identity t')"
    if g: "hm_get (rr_targets (target_permit_drop p r)) i = Some t'" for i t'
  proof (cases "i = ?i")
    case False
    then have "hm_get (rr_targets r) i = Some t'"
      using g by (auto simp: target_permit_drop_def split: option.splits if_splits)
    then show ?thesis using ok(2) False by (simp add: live_permits_remove1 [OF p])
  next
    case True
    then obtain t where t: "hm_get (rr_targets r) ?i = Some t"
      using g by (cases "hm_get (rr_targets r) ?i") (auto simp: target_permit_drop_def)
    show ?thesis
      using g True ok(2) [OF t] t
      by (auto simp: target_permit_drop_def live_permits_remove1 [OF p] split: if_splits)
  qed
  moreover have "hm_ok (rr_targets (target_permit_drop p r))"
    using ok(1) by (simp add: target_permit_drop_def split: option.splits)
  ultimately show ?thesis using sub heap by (simp add: rt_inv_def)
qed

lemma retain_inv: "rt_inv (r, ps) \<Longrightarrow> rt_inv (retain_targets ids r, ps)"
  by (auto simp: rt_inv_def retain_targets_def hm_get_retain split: option.splits if_splits)

lemma check_rate_limit_targets:
  "rr_targets (fst (check_rate_limit t0 t1 t2 client limit r)) = rr_targets r
   \<and> rr_heap (fst (check_rate_limit t0 t1 t2 client limit r)) = rr_heap r"
  by (simp add: check_rate_limit_def Let_def)

lemma acquire_request_start_targets:
  "acquire_request_start client r = (r', res) \<Longrightarrow> rr_targets r' = rr_targets r \<and> rr_heap r' = rr_heap r"
  by (auto simp: acquire_request_start_def count_request_def split: prod.splits start_result.splits)

lemma acquire_request_poll_targets:
  "acquire_request_poll i r = Some r' \<Longrightarrow> rr_targets r' = rr_targets r \<and> rr_heap r' = rr_heap r"
  by (auto simp: acquire_request_poll_def count_request_def split: poll_result.splits)

lemma body_bytes_targets:
  "try_acquire_body_bytes n limit r = Some (r', m) \<Longrightarrow> rr_targets r' = rr_targets r \<and> rr_heap r' = rr_heap r"
  by (auto simp: try_acquire_body_bytes_def split: option.splits)

lemma fail_target_frame [simp]:
  "tr_identity (fail_target now error th cd t) = tr_identity t"
  "tr_active_requests (fail_target now error th cd t) = tr_active_requests t"
  by (simp_all add: fail_target_def Let_def)

lemma rt_step_inv: "rt_step p q \<Longrightarrow> rt_inv p \<Longrightarrow> rt_inv q"
proof (induction rule: rt_step.induct)
  case (rt_acquire now now' cs strategy key r r' c p ps)
  obtain r1 res where s: "select_target now cs strategy key r = (r1, res)" by fastforce
  then have i1: "rt_inv (r1, ps)" using rt_acquire.prems select_target_cases [OF s] rt_inv_cong by blast
  then show ?case
    using rt_acquire.hyps s
    by (auto simp: select_and_acquire_target_def split: option.splits prod.splits intro: acquire_inv)
next
  case (rt_refuse now now' cs strategy key r r' e ps)
  obtain r1 res where s: "select_target now cs strategy key r = (r1, res)" by fastforce
  then have "r' = r1"
    using rt_refuse.hyps by (auto simp: select_and_acquire_target_def split: option.splits prod.splits)
  then show ?case using rt_refuse.prems select_target_cases [OF s] rt_inv_cong by blast
next
  case (rt_success r ps now inst latency caps)
  show ?case unfolding mark_probe_success_def
    by (rule with_target_inv [OF rt_success surjective_pairing]) simp_all
next
  case (rt_failure r ps now inst error threshold cooldown)
  show ?case unfolding mark_probe_failure_def
    by (rule with_target_inv [OF rt_failure surjective_pairing]) simp_all
next
  case (rt_request_failure r ps now inst error threshold cooldown)
  then have "rt_inv (r\<lparr>rr_metrics := m\<rparr>, ps)" for m by (simp add: rt_inv_def)
  then show ?case unfolding mark_request_failure_def mark_probe_failure_def
    by (rule with_target_inv [OF _ surjective_pairing]) simp_all
next
  case (rt_rate r ps t0 t1 t2 client limit)
  then show ?case using check_rate_limit_targets rt_inv_cong by blast
next
  case (rt_completed r ps ms)
  then show ?case by (simp add: rt_inv_def record_completed_def Let_def)
next
  case (rt_rejected r ps)
  then show ?case by (simp add: rt_inv_def record_rejected_def)
next
  case (rt_configure r ps config)
  then show ?case by (simp add: rt_inv_def configure_admission_def)
next
  case (rt_request client r r' res ps)
  then show ?case using acquire_request_start_targets rt_inv_cong by blast
next
  case (rt_poll i r r' ps)
  then show ?case using acquire_request_poll_targets rt_inv_cong by blast
next
  case (rt_body n limit r r' m ps)
  then show ?case using body_bytes_targets rt_inv_cong by blast
next
  case (rt_body_drop r ps n)
  then show ?case by (simp add: rt_inv_def body_permit_drop_def)
qed (auto intro: drop_inv retain_inv)

interpretation targets: invariant_system rt_init rt_step rt_inv
proof
  show "rt_init p \<Longrightarrow> rt_inv p" for p by (simp add: rt_init_def rt_inv_def rr_default_def)
  show "rt_step p q \<Longrightarrow> rt_inv p \<Longrightarrow> rt_inv q" for p q by (rule rt_step_inv)
qed

section \<open>Permits and selection\<close>

lemma eligible_iff:
  "eligible now ts c \<longleftrightarrow>
     (case hm_get ts (rc_instance_id c) of
        None \<Rightarrow> True
      | Some t \<Rightarrow> \<not> circuit_open now t
          \<and> (rc_max_concurrent_requests c = 0 \<or> tr_active_requests t < rc_max_concurrent_requests c)
          \<and> (case cap_total_slots (tr_capabilities t) of
                None \<Rightarrow> True | Some slots \<Rightarrow> slots = 0 \<or> tr_active_requests t < slots))"
  by (auto simp: eligible_def Let_def split: option.splits)

lemma acquire_split:
  assumes "select_and_acquire_target now now' cs strategy key r = (r', Inr (c, p))"
  obtains r1 t where "select_target now cs strategy key r = (r1, Some c)"
    "with_target (rc_instance_id c) (\<lambda>t. t\<lparr>tr_active_requests := tr_active_requests t + 1\<rparr>) r1 = (r', t)"
    "p = \<lparr> tp_instance_id = rc_instance_id c, tp_target_identity = tr_identity t \<rparr>"
  using assms by (auto simp: select_and_acquire_target_def split: prod.splits option.splits)

text \<open>
  C7. In every reachable state of the router the active count of a target equals the number of
  live permits that carry the target's identity; permits of a target that was dropped by
  \<open>retain_targets\<close> and created again under the same id do not touch the new one.  The saturating
  decrement of a permit's drop never saturates.
\<close>

theorem permits_accounted:
  assumes "reach rt_init rt_step (r, ps)" and "hm_get (rr_targets r) inst = Some t"
  shows "tr_active_requests t = live_permits ps inst (tr_identity t)
    \<and> (\<forall>p \<in> set ps. tp_instance_id p = inst \<longrightarrow>
          (tp_target_identity p = tr_identity t \<longrightarrow> 0 < tr_active_requests t)
          \<and> (tp_target_identity p \<noteq> tr_identity t \<longrightarrow> target_permit_drop p r = r))"
proof -
  have a: "tr_active_requests t = live_permits ps inst (tr_identity t)"
    using targets.reach_inv [OF assms(1)] assms(2) by (auto simp: rt_inv_def)
  have "0 < live_permits ps (tp_instance_id p) (tp_target_identity p)" if "p \<in> set ps" for p
  proof -
    have "\<lparr> tp_instance_id = tp_instance_id p, tp_target_identity = tp_target_identity p \<rparr> = p" by simp
    then show ?thesis unfolding live_permits_def using that count_list_0_iff [of ps p] by (metis neq0_conv)
  qed
  then show ?thesis using a assms(2) by (fastforce simp: target_permit_drop_def)
qed

definition demo_candidate :: routing_candidate where
  "demo_candidate = \<lparr> rc_instance_id = ''a'', rc_priority = 0, rc_weight = 1, rc_max_concurrent_requests = 2 \<rparr>"

definition demo_rr :: "rr" where
  "demo_rr = fst (select_and_acquire_target 0 0 [demo_candidate] ''priority'' ''m'' rr_default)"

definition demo_permit :: target_permit where
  "demo_permit = \<lparr> tp_instance_id = ''a'', tp_target_identity = 0 \<rparr>"

lemmas demo_defs = demo_rr_def demo_candidate_def demo_permit_def select_and_acquire_target_def
  select_target_def best_tier_def eligible_def rr_default_def with_target_def target_runtime_default_def
  target_capabilities_default_def circuit_open_def

lemma demo_acquired:
  "select_and_acquire_target 0 0 [demo_candidate] ''priority'' ''m'' rr_default
    = (demo_rr, Inr (demo_candidate, demo_permit))"
  by (simp add: demo_defs)

lemma demo_target: "hm_get (rr_targets demo_rr) ''a'' = Some ((target_runtime_default 0)\<lparr>tr_active_requests := 1\<rparr>)"
  by (simp add: demo_defs)

theorem permits_accounted_witness:
  "reach rt_init rt_step (demo_rr, [demo_permit]) \<and> 1 = live_permits [demo_permit] ''a'' 0"
proof -
  have "reach rt_init rt_step (rr_default, [])" by (rule reach_init) (simp add: rt_init_def)
  then have r: "reach rt_init rt_step (demo_rr, [demo_permit])"
    by (rule reach_step) (rule rt_acquire [OF demo_acquired])
  then show ?thesis
    using permits_accounted [OF r demo_target] by (simp add: target_runtime_default_def)
qed

text \<open>
  C8. A successful \<open>select_and_acquire_target\<close> returns one of the candidates, whose circuit is
  closed, and no eligible candidate has a better priority.  The chosen target's active count
  grows by exactly one, stays within the candidate's concurrency limit and the slots the
  server reported, and every other target is left as it was.
\<close>

theorem acquire_target_sound:
  assumes "select_and_acquire_target now now' cs strategy key r = (r', Inr (c, p))"
  shows "c \<in> set cs \<and> eligible now (rr_targets r) c
    \<and> (\<forall>c' \<in> set cs. eligible now (rr_targets r) c' \<longrightarrow> rc_priority c \<le> rc_priority c')
    \<and> (\<exists>t. hm_get (rr_targets r') (rc_instance_id c) = Some t
         \<and> p = \<lparr> tp_instance_id = rc_instance_id c, tp_target_identity = tr_identity t \<rparr>
         \<and> tr_ready t \<and> tr_circuit_open_until_ms t \<le> now
         \<and> tr_active_requests t
             = (case hm_get (rr_targets r) (rc_instance_id c) of None \<Rightarrow> 0 | Some t0 \<Rightarrow> tr_active_requests t0) + 1
         \<and> (0 < rc_max_concurrent_requests c \<longrightarrow> tr_active_requests t \<le> rc_max_concurrent_requests c)
         \<and> (\<forall>slots. cap_total_slots (tr_capabilities t) = Some slots \<longrightarrow> 0 < slots \<longrightarrow> tr_active_requests t \<le> slots))
    \<and> (\<forall>i. i \<noteq> rc_instance_id c \<longrightarrow> hm_get (rr_targets r') i = hm_get (rr_targets r) i)"
proof -
  obtain r1 t where s: "select_target now cs strategy key r = (r1, Some c)"
    and w: "with_target (rc_instance_id c) (\<lambda>t. t\<lparr>tr_active_requests := tr_active_requests t + 1\<rparr>) r1 = (r', t)"
    and p: "p = \<lparr> tp_instance_id = rc_instance_id c, tp_target_identity = tr_identity t \<rparr>"
    using assms by (rule acquire_split)
  have same: "rr_targets r1 = rr_targets r" and c: "c \<in> set (best_tier now (rr_targets r) cs)"
    using select_target_cases [OF s] by auto
  note e = best_tier_props [OF c]
  obtain t0 where t0: "t = t0\<lparr>tr_active_requests := tr_active_requests t0 + 1\<rparr>"
    and m: "rr_targets r' = hm_insert (rc_instance_id c) t (rr_targets r)"
    and h: "hm_get (rr_targets r) (rc_instance_id c) = Some t0
         \<or> hm_get (rr_targets r) (rc_instance_id c) = None \<and> t0 = target_runtime_default (rr_heap r1)"
    using with_target_spec [OF w] same by auto
  have lim: "tr_ready t \<and> tr_circuit_open_until_ms t \<le> now
      \<and> tr_active_requests t
          = (case hm_get (rr_targets r) (rc_instance_id c) of None \<Rightarrow> 0 | Some t0 \<Rightarrow> tr_active_requests t0) + 1
      \<and> (0 < rc_max_concurrent_requests c \<longrightarrow> tr_active_requests t \<le> rc_max_concurrent_requests c)
      \<and> (\<forall>slots. cap_total_slots (tr_capabilities t) = Some slots \<longrightarrow> 0 < slots \<longrightarrow> tr_active_requests t \<le> slots)"
    using h e(2) t0
    by (auto simp: eligible_iff circuit_open_def target_runtime_default_def target_capabilities_default_def)
  show ?thesis using e lim m p by auto
qed

theorem acquire_target_sound_witness:
  "demo_candidate \<in> set [demo_candidate] \<and> eligible 0 (rr_targets rr_default) demo_candidate"
  using acquire_target_sound [OF demo_acquired] by blast

text \<open>
  \<open>select_and_acquire_target\<close> refuses exactly when no candidate is eligible.  With one reading
  of the clock the refusal is \<open>Capacity\<close> exactly when some candidate's circuit is closed (so only
  concurrency limits stand in the way), and \<open>Unavailable\<close> when every circuit is open.
\<close>

theorem refusal_classified:
  "(\<forall>c \<in> set cs. \<not> eligible now (rr_targets r) c)
     \<longleftrightarrow> (\<exists>e. select_and_acquire_target now now cs strategy key r = (r, Inl e)
           \<and> (e = Capacity \<longleftrightarrow> (\<exists>c \<in> set cs. case hm_get (rr_targets r) (rc_instance_id c) of
                                None \<Rightarrow> True | Some t \<Rightarrow> \<not> circuit_open now t)))"
proof (cases "\<forall>c \<in> set cs. \<not> eligible now (rr_targets r) c")
  case True
  then have "select_target now cs strategy key r = (r, None)"
    by (simp add: select_target_def best_tier_Nil)
  with True show ?thesis
    by (auto simp: select_and_acquire_target_def list_ex_iff circuit_open_def not_less split: option.splits)
next
  case False
  obtain r1 res where s: "select_target now cs strategy key r = (r1, res)" by fastforce
  with False have "res \<noteq> None" using select_target_cases [OF s] by (simp add: best_tier_Nil)
  with False s show ?thesis
    by (auto simp: select_and_acquire_target_def split: option.splits prod.splits)
qed

definition demo_busy :: rr where
  "demo_busy = fst (select_and_acquire_target 0 0 [demo_candidate] ''priority'' ''m'' demo_rr)"

theorem refusal_classified_witness:
  "select_and_acquire_target 0 0 [demo_candidate] ''roundRobin'' ''m'' demo_busy = (demo_busy, Inl Capacity)"
proof -
  have "\<forall>c \<in> set [demo_candidate]. \<not> eligible 0 (rr_targets demo_busy) c"
    by (simp add: demo_busy_def demo_defs)
  moreover have "\<exists>c \<in> set [demo_candidate]. case hm_get (rr_targets demo_busy) (rc_instance_id c) of
      None \<Rightarrow> True | Some t \<Rightarrow> \<not> circuit_open 0 t"
    by (simp add: demo_busy_def demo_defs)
  ultimately show ?thesis using refusal_classified [of "[demo_candidate]" 0 demo_busy] by blast
qed

section \<open>Fairness of the scheduling strategies\<close>

text \<open>A run of consecutive selections for one route.\<close>

fun select_many :: "nat \<Rightarrow> nat \<Rightarrow> routing_candidate list \<Rightarrow> string \<Rightarrow> string \<Rightarrow> rr \<Rightarrow> routing_candidate option list" where
  "select_many 0 now cs strategy key r = []"
| "select_many (Suc n) now cs strategy key r =
     (case select_target now cs strategy key r of
        (r', res) \<Rightarrow> res # select_many n now cs strategy key r')"

definition first_ticket :: "string \<Rightarrow> string \<Rightarrow> rr \<Rightarrow> u64" where
  "first_ticket strategy key r = snd (next_scheduling_ticket strategy key r)"

lemma ticket_advances:
  "first_ticket s k (fst (next_scheduling_ticket s k r)) = first_ticket s k r + 1"
  "rr_targets (fst (next_scheduling_ticket s k r)) = rr_targets r"
  by (simp_all add: first_ticket_def next_scheduling_ticket_def Let_def)

lemma count_list_distinct: "distinct xs \<Longrightarrow> x \<in> set xs \<Longrightarrow> count_list xs x = 1"
  by (induction xs) (auto simp: count_list_0_iff)

lemma select_many_tickets:
  assumes "\<And>r'. rr_targets r' = rr_targets r \<Longrightarrow> select_target now cs s k r'
    = (fst (next_scheduling_ticket s k r'), f (unat (first_ticket s k r') mod w))"
  shows "select_many n now cs s k r = map (\<lambda>i. f (unat (first_ticket s k r + of_nat i) mod w)) [0..<n]"
  using assms
proof (induction n arbitrary: r)
  case 0
  then show ?case by simp
next
  case (Suc n)
  let ?r1 = "fst (next_scheduling_ticket s k r)"
  have "select_many n now cs s k ?r1 = map (\<lambda>i. f (unat (first_ticket s k ?r1 + of_nat i) mod w)) [0..<n]"
    by (rule Suc.IH) (use Suc.prems in \<open>simp add: ticket_advances\<close>)
  then show ?case
    using Suc.prems [of r]
    by (simp add: upt_conv_Cons map_Suc_upt [symmetric] ticket_advances add.assoc comp_def
        del: upt_Suc map_Suc_upt)
qed

lemma cycle_mset:
  assumes "0 < w"
  shows "mset (map (\<lambda>i. (t + i) mod w) [0..<w]) = mset [0..<w]"
proof -
  have "map (\<lambda>i. (t + i) mod w) [0..<w] = rotate t [0..<w]"
    by (rule nth_equalityI) (auto simp: nth_rotate)
  moreover have "mset (rotate t xs) = mset xs" for xs :: "nat list"
    unfolding rotate_drop_take by (metis append_take_drop_id mset_append union_commute)
  ultimately show ?thesis by simp
qed

lemma unat_add_small: "unat (t :: u64) + i < 2 ^ 64 \<Longrightarrow> unat (t + of_nat i) = unat t + i"
  by (simp add: unat_word_ariths unat_of_nat take_bit_eq_mod mod_simps)

lemma ticket_cycle_count:
  assumes "0 < w" and "unat (t :: u64) + w \<le> 2 ^ 64"
  shows "count_list (map (\<lambda>i. f (unat (t + of_nat i) mod w)) [0..<w]) x
    = length (filter (\<lambda>j. f j = x) [0..<w])"
proof -
  have "map (\<lambda>i. f (unat (t + of_nat i) mod w)) [0..<w] = map f (map (\<lambda>i. (unat t + i) mod w) [0..<w])"
    using assms(2) by (simp add: unat_add_small)
  then have "mset (map (\<lambda>i. f (unat (t + of_nat i) mod w)) [0..<w]) = mset (map f [0..<w])"
    using cycle_mset [OF assms(1), of "unat t"] by (metis mset_map)
  then have "count_list (map (\<lambda>i. f (unat (t + of_nat i) mod w)) [0..<w]) x = count_list (map f [0..<w]) x"
    by (simp only: count_mset [symmetric])
  then show ?thesis by (simp add: count_list_filter filter_map comp_def)
qed

lemma pick_weighted_count:
  "distinct cs \<Longrightarrow> c \<in> set cs \<Longrightarrow>
    length (filter (\<lambda>j. pick_weighted cs j = Some c) [0..<sum_list (map weight_of cs)]) = weight_of c"
proof (induction cs)
  case Nil
  then show ?case by simp
next
  case (Cons d cs)
  let ?w = "weight_of d" and ?n = "sum_list (map weight_of cs)"
  have split: "[0..<?w + ?n] = [0..<?w] @ map (\<lambda>j. j + ?w) [0..<?n]"
    by (simp add: upt_add_eq_append [of 0 ?w ?n] map_add_upt add.commute)
  have low: "filter (\<lambda>j. pick_weighted (d # cs) j = Some c) [0..<?w] = (if d = c then [0..<?w] else [])"
    by (auto simp: filter_empty_conv)
  have high: "length (filter (\<lambda>j. pick_weighted (d # cs) j = Some c) (map (\<lambda>j. j + ?w) [0..<?n]))
      = length (filter (\<lambda>j. pick_weighted cs j = Some c) [0..<?n])"
    by (simp add: filter_map comp_def)
  have none: "length (filter (\<lambda>j. pick_weighted cs j = Some d) [0..<?n]) = 0"
    if "d \<notin> set cs"
    using that pick_weighted_Some [of _ cs] by (fastforce simp: filter_empty_conv)
  have "length (filter (\<lambda>j. pick_weighted (d # cs) j = Some c) [0..<?w + ?n])
      = (if d = c then ?w else 0) + length (filter (\<lambda>j. pick_weighted cs j = Some c) [0..<?n])"
    unfolding split filter_append length_append low high by simp
  then show ?case using Cons none by (auto simp del: pick_weighted.simps)
qed

text \<open>
  C9. Weighted scheduling is exact: while the health of the targets does not change, a full cycle
  of selections of one route, as many as the sum of the weights of the best eligible tier, picks
  each candidate of the tier exactly as often as its weight says (a weight of 0 counts as 1),
  wherever in the ticket sequence the cycle starts, as long as the 64-bit ticket does not wrap.
\<close>

theorem weighted_fair:
  assumes "distinct (best_tier now (rr_targets r) cs)" and "c \<in> set (best_tier now (rr_targets r) cs)"
    and "n = sum_list (map weight_of (best_tier now (rr_targets r) cs))"
    and "unat (first_ticket ''weighted'' key r) + n \<le> 2 ^ 64"
  shows "count_list (select_many n now cs ''weighted'' key r) (Some c) = max (rc_weight c) 1"
proof -
  let ?es = "best_tier now (rr_targets r) cs"
  have ne: "?es \<noteq> []" using assms(2) by auto
  have "select_many n now cs ''weighted'' key r
      = map (\<lambda>i. pick_weighted ?es (unat (first_ticket ''weighted'' key r + of_nat i) mod n)) [0..<n]"
    by (rule select_many_tickets)
      (use ne assms(3) in \<open>simp add: select_target_def Let_def first_ticket_def split_beta\<close>)
  then show ?thesis
    using ticket_cycle_count [of n "first_ticket ''weighted'' key r" "pick_weighted ?es" "Some c"]
      pick_weighted_count [OF assms(1,2)] assms(3,4) total_weight_pos [OF ne]
    by (simp add: weight_of_def)
qed

definition heavy_candidate :: routing_candidate where
  "heavy_candidate = \<lparr> rc_instance_id = ''b'', rc_priority = 0, rc_weight = 3, rc_max_concurrent_requests = 0 \<rparr>"

lemma demo_tier: "best_tier 0 (rr_targets rr_default) [demo_candidate, heavy_candidate] = [demo_candidate, heavy_candidate]"
  by (simp add: best_tier_def Let_def eligible_def rr_default_def demo_candidate_def heavy_candidate_def)

lemma demo_pair: "distinct [demo_candidate, heavy_candidate]"
  "sum_list (map weight_of [demo_candidate, heavy_candidate]) = 4" "rc_weight heavy_candidate = 3"
  by (simp_all add: demo_candidate_def heavy_candidate_def weight_of_def)

lemma demo_first_ticket: "first_ticket s k rr_default = 0"
  by (simp add: first_ticket_def next_scheduling_ticket_def Let_def rr_default_def hm_get_or_def)

theorem weighted_fair_witness:
  "count_list (select_many 4 0 [demo_candidate, heavy_candidate] ''weighted'' ''m'' rr_default)
     (Some heavy_candidate) = 3"
proof -
  have "count_list (select_many 4 0 [demo_candidate, heavy_candidate] ''weighted'' ''m'' rr_default)
     (Some heavy_candidate) = max (rc_weight heavy_candidate) 1"
    by (rule weighted_fair, unfold demo_tier demo_first_ticket) (simp_all add: demo_pair [simplified])
  then show ?thesis by (simp add: demo_pair)
qed

text \<open>
  Round-robin scheduling visits every candidate of the best eligible tier exactly once in
  each cycle of as many selections as the tier has candidates.
\<close>

theorem round_robin_fair:
  assumes "distinct (best_tier now (rr_targets r) cs)" and "c \<in> set (best_tier now (rr_targets r) cs)"
    and "n = length (best_tier now (rr_targets r) cs)"
    and "unat (first_ticket ''roundRobin'' key r) + n \<le> 2 ^ 64"
  shows "count_list (select_many n now cs ''roundRobin'' key r) (Some c) = 1"
proof -
  let ?es = "best_tier now (rr_targets r) cs"
  have ne: "?es \<noteq> []" using assms(2) by auto
  have "select_many n now cs ''roundRobin'' key r
      = map (\<lambda>i. Some (?es ! (unat (first_ticket ''roundRobin'' key r + of_nat i) mod n))) [0..<n]"
    by (rule select_many_tickets)
      (use ne assms(3) in \<open>simp add: select_target_def Let_def first_ticket_def split_beta\<close>)
  moreover have "length (filter (\<lambda>j. Some (?es ! j) = Some c) [0..<n]) = count_list (map ((!) ?es) [0..<n]) c"
    by (simp add: count_list_filter filter_map comp_def)
  ultimately show ?thesis
    using ticket_cycle_count [of n "first_ticket ''roundRobin'' key r" "\<lambda>j. Some (?es ! j)" "Some c"]
      assms ne by (simp add: map_nth count_list_distinct)
qed

theorem round_robin_fair_witness:
  "count_list (select_many 2 0 [demo_candidate, heavy_candidate] ''roundRobin'' ''m'' rr_default)
     (Some demo_candidate) = 1"
  by (rule round_robin_fair, unfold demo_tier demo_first_ticket) (simp_all add: demo_pair [simplified])

end
