(* ===== verification/Router_Limits.thy ===== *)
theory Router_Limits
  imports Router_Runtime
begin

text \<open>
  What the router's protective mechanisms promise over time, for the definitions of
  \<open>Router_Runtime\<close>: the token bucket bounds the requests of a client over any stretch of calls and
  its retry advice is sufficient, the circuit breaker opens after the configured number of
  consecutive failures and stays open until a probe succeeds or the target is forgotten, and the latency histogram accounts for
  every completed request.
\<close>

section \<open>Token bucket\<close>

text \<open>A run of calls of one client; each call has its three clock readings.\<close>

fun rate_run :: "(rat \<times> rat \<times> rat) list \<Rightarrow> string \<Rightarrow> nat \<Rightarrow> rr \<Rightarrow> rate_limit_decision list" where
  "rate_run [] client limit r = []"
| "rate_run ((t0, t1, t2) # ts) client limit r =
     (case check_rate_limit t0 t1 t2 client limit r of
        (r', d) \<Rightarrow> d # rate_run ts client limit r')"

text \<open>The readings of a run do not go backwards.\<close>

fun monotone_from :: "rat \<Rightarrow> (rat \<times> rat \<times> rat) list \<Rightarrow> bool" where
  "monotone_from t [] = True"
| "monotone_from t ((t0, t1, t2) # ts) = (t \<le> t0 \<and> t0 \<le> t1 \<and> t1 \<le> t2 \<and> monotone_from t2 ts)"

fun end_time :: "rat \<Rightarrow> (rat \<times> rat \<times> rat) list \<Rightarrow> rat" where
  "end_time t [] = t"
| "end_time t ((t0, t1, t2) # ts) = end_time t2 ts"

definition allowed_count :: "rate_limit_decision list \<Rightarrow> nat" where
  "allowed_count ds = length (filter rl_allowed ds)"

lemma end_time_ge: "monotone_from t ts \<Longrightarrow> t \<le> end_time t ts"
  by (induction t ts rule: monotone_from.induct) auto

definition bucket_ok :: "rr \<Rightarrow> string \<Rightarrow> bool" where
  "bucket_ok r client = (case hm_get (rr_rate_buckets r) client of None \<Rightarrow> True | Some b \<Rightarrow> 0 \<le> rb_tokens b)"

lemma check_step:
  assumes "0 < limit" and "check_rate_limit t0 t1 t2 client limit r = (r', d)"
  obtains b where "hm_get (rr_rate_buckets r') client = Some b" "rb_capacity b = limit"
    "rb_last_refill b = t2" "bucket_ok r client \<Longrightarrow> 0 \<le> rb_tokens b" "rb_tokens b + (if rl_allowed d then 1 else 0) \<le> of_nat limit"
    "\<And>b0. hm_get (rr_rate_buckets r) client = Some b0 \<Longrightarrow> rb_last_refill b0 \<le> t1 \<Longrightarrow>
       rb_tokens b + (if rl_allowed d then 1 else 0)
         \<le> rb_tokens b0 + (t1 - rb_last_refill b0) * (of_nat limit / 60)"
proof -
  define b0 where "b0 = (case hm_get (rr_rate_buckets r) client of
      Some b \<Rightarrow> b | None \<Rightarrow> \<lparr> rb_tokens = of_nat limit, rb_capacity = limit, rb_last_refill = t0 \<rparr>)"
  define b1 where "b1 = refill_bucket limit t1 t2 b0"
  define b where "b = (if 1 \<le> rb_tokens b1 then b1\<lparr>rb_tokens := rb_tokens b1 - 1\<rparr> else b1)"
  have r': "hm_get (rr_rate_buckets r') client = Some b" and d: "rl_allowed d = (1 \<le> rb_tokens b1)"
    using assms by (auto simp: check_rate_limit_def Let_def b_def b1_def b0_def split: if_splits)
  have b1: "rb_capacity b1 = limit" "rb_last_refill b1 = t2" "rb_tokens b1 \<le> of_nat limit"
    "rb_last_refill b0 \<le> t1 \<Longrightarrow> rb_tokens b1 \<le> rb_tokens b0 + (t1 - rb_last_refill b0) * (of_nat limit / 60)"
    by (auto simp: b1_def refill_bucket_def Let_def max_def min_le_iff_disj)
  have "rb_tokens b + (if rl_allowed d then 1 else 0) = rb_tokens b1" by (simp add: b_def d)
  moreover have "0 \<le> rb_tokens b" if "bucket_ok r client"
  proof -
    have "0 \<le> rb_tokens b0" using that by (auto simp: b0_def bucket_ok_def split: option.splits)
    then have "0 \<le> rb_tokens b1" by (simp add: b1_def refill_bucket_def Let_def)
    then show ?thesis by (simp add: b_def)
  qed
  moreover have "rb_capacity b = limit" "rb_last_refill b = t2" using b1 by (simp_all add: b_def)
  moreover have "b0 = b'" if "hm_get (rr_rate_buckets r) client = Some b'" for b'
    using that by (simp add: b0_def)
  ultimately show thesis using b1 r' by (intro that [of b]) simp_all
qed

lemma rate_run_bound:
  assumes "0 < limit" and "hm_get (rr_rate_buckets r) client = Some b"
    and "monotone_from (rb_last_refill b) ts" and "0 \<le> rb_tokens b"
  shows "of_nat (allowed_count (rate_run ts client limit r))
    \<le> rb_tokens b + (end_time (rb_last_refill b) ts - rb_last_refill b) * (of_nat limit / 60)"
  using assms
proof (induction ts arbitrary: r b)
  case Nil
  then show ?case by (simp add: allowed_count_def)
next
  case (Cons e ts)
  obtain t0 t1 t2 where e: "e = (t0, t1, t2)" by (cases e)
  obtain r' d where c: "check_rate_limit t0 t1 t2 client limit r = (r', d)" by fastforce
  obtain b' where b': "hm_get (rr_rate_buckets r') client = Some b'" "rb_last_refill b' = t2"
    "bucket_ok r client \<Longrightarrow> 0 \<le> rb_tokens b'"
    "rb_last_refill b \<le> t1 \<Longrightarrow> rb_tokens b' + (if rl_allowed d then 1 else 0)
       \<le> rb_tokens b + (t1 - rb_last_refill b) * (of_nat limit / 60)"
    using check_step [OF Cons.prems(1) c] Cons.prems(2) by metis
  have t: "rb_last_refill b \<le> t1" "t1 \<le> t2" "monotone_from t2 ts" using Cons.prems(3) e by auto
  have pos: "0 \<le> rb_tokens b'" using b'(3) Cons.prems(2,4) by (simp add: bucket_ok_def)
  have ih: "of_nat (allowed_count (rate_run ts client limit r'))
      \<le> rb_tokens b' + (end_time t2 ts - t2) * (of_nat limit / 60)"
    using Cons.IH [OF Cons.prems(1) b'(1)] t pos b'(2) by simp
  have "(t1 - rb_last_refill b) * (of_nat limit / 60) \<le> (t2 - rb_last_refill b) * (of_nat limit / 60)"
    using t by (intro mult_right_mono) auto
  moreover have "(end_time t2 ts - rb_last_refill b) * (of_nat limit / 60)
      = (end_time t2 ts - t2) * (of_nat limit / 60) + (t2 - rb_last_refill b) * (of_nat limit / 60)"
    by (metis add_diff_cancel_left' add_diff_eq diff_add_cancel distrib_right)
  moreover have "allowed_count (rate_run (e # ts) client limit r)
      = (if rl_allowed d then 1 else 0) + allowed_count (rate_run ts client limit r')"
    using e c by (simp add: allowed_count_def)
  moreover have "end_time (rb_last_refill b) (e # ts) = end_time t2 ts" using e by simp
  ultimately show ?case using ih b'(4) [OF t(1)] by (cases "rl_allowed d") (simp_all del: times_divide_eq_right)
qed

text \<open>
  C10. Over any run of rate-limit checks of one client under a limit of \<open>limit\<close> requests per
  minute, whatever bucket the client starts with, the number of requests allowed is at most
  \<open>limit\<close> (the burst) plus \<open>limit / 60\<close> for each second between the first and the last
  reading of the clock.
\<close>

theorem rate_limit_bound:
  assumes "0 < limit" and "bucket_ok r client" and "monotone_from t0 ((t0, t1, t2) # ts)"
  shows "of_nat (allowed_count (rate_run ((t0, t1, t2) # ts) client limit r))
    \<le> of_nat limit + (end_time t2 ts - t0) * (of_nat limit / 60)"
proof -
  obtain r' d where c: "check_rate_limit t0 t1 t2 client limit r = (r', d)" by fastforce
  obtain b where b: "hm_get (rr_rate_buckets r') client = Some b" "rb_last_refill b = t2"
    "bucket_ok r client \<Longrightarrow> 0 \<le> rb_tokens b"
    "rb_tokens b + (if rl_allowed d then 1 else 0) \<le> of_nat limit"
    using check_step [OF assms(1) c] by metis
  have "of_nat (allowed_count (rate_run ts client limit r'))
      \<le> rb_tokens b + (end_time t2 ts - t2) * (of_nat limit / 60)"
    using rate_run_bound [OF assms(1) b(1)] assms(2,3) b(2,3) by simp
  moreover have "(end_time t2 ts - t2) * (of_nat limit / 60) \<le> (end_time t2 ts - t0) * (of_nat limit / 60)"
    using assms(3) by (intro mult_right_mono) auto
  moreover have "allowed_count (rate_run ((t0, t1, t2) # ts) client limit r)
      = (if rl_allowed d then 1 else 0) + allowed_count (rate_run ts client limit r')"
    using c by (simp add: allowed_count_def)
  ultimately show ?thesis using b(4) by (cases "rl_allowed d") (simp_all del: times_divide_eq_right)
qed

theorem rate_limit_bound_witness:
  "of_nat (allowed_count (rate_run [(0, 0, 0), (0, 0, 0), (30, 30, 30)] ''k'' 2 rr_default)) \<le> (3 :: rat)"
  using rate_limit_bound [of 2 rr_default "''k''" 0 0 0 "[(0, 0, 0), (30, 30, 30)]"]
  by (simp add: bucket_ok_def rr_default_def)

text \<open>
  The retry advice is sufficient: when a request is refused with \<open>retry_after_secs = k\<close>, a
  call that reads the clock at least \<open>k\<close> seconds after the refusal is allowed, if the client
  made no other call and the limit is unchanged.  The advice is at least one second.
\<close>

theorem retry_after_sufficient:
  assumes "check_rate_limit t0 t1 t2 client limit r = (r', d)" and "\<not> rl_allowed d"
    and "t2 + of_nat (rl_retry_after_secs d) \<le> u1"
  shows "rl_allowed (snd (check_rate_limit u0 u1 u2 client limit r')) \<and> 1 \<le> rl_retry_after_secs d"
proof -
  have lim: "0 < limit" using assms(1,2) by (cases "limit = 0") (auto simp: check_rate_limit_def)
  define b where "b = refill_bucket limit t1 t2 (case hm_get (rr_rate_buckets r) client of
      Some b \<Rightarrow> b | None \<Rightarrow> \<lparr> rb_tokens = of_nat limit, rb_capacity = limit, rb_last_refill = t0 \<rparr>)"
  have low: "rb_tokens b < 1" and g: "hm_get (rr_rate_buckets r') client = Some b"
    and k: "rl_retry_after_secs d = nat (max 1 \<lceil>(1 - rb_tokens b) / (of_nat limit / 60)\<rceil>)"
    using assms(1,2) by (auto simp: check_rate_limit_def Let_def b_def not_le split: if_splits)
  have cap: "rb_capacity b = limit" "rb_last_refill b = t2" by (simp_all add: b_def refill_bucket_def Let_def)
  let ?k = "of_nat (rl_retry_after_secs d) :: rat"
  have "(1 - rb_tokens b) / (of_nat limit / 60) \<le> ?k"
    unfolding k by (simp add: of_nat_nat) linarith
  then have "1 - rb_tokens b \<le> ?k * (of_nat limit / 60)" using lim by (simp add: pos_divide_le_eq)
  also have "\<dots> \<le> max 0 (u1 - t2) * (of_nat limit / 60)" using assms(3) by (intro mult_right_mono) auto
  finally have "1 \<le> rb_tokens (refill_bucket limit u1 u2 b)"
    using lim cap by (simp add: refill_bucket_def Let_def)
  then show ?thesis using lim g k by (simp add: check_rate_limit_def Let_def)
qed

theorem retry_after_sufficient_witness:
  "rl_allowed (snd (check_rate_limit 60 60 60 ''k'' 1
      (fst (check_rate_limit 0 0 0 ''k'' 1 (fst (check_rate_limit 0 0 0 ''k'' 1 rr_default))))))"
proof -
  let ?r = "fst (check_rate_limit 0 0 0 ''k'' 1 rr_default)"
  obtain r' d where c: "check_rate_limit 0 0 0 ''k'' 1 ?r = (r', d)" by fastforce
  moreover have "\<not> rl_allowed d \<and> rl_retry_after_secs d = 60"
    using c by (auto simp: check_rate_limit_def refill_bucket_def rr_default_def)
  ultimately show ?thesis using retry_after_sufficient [OF c, of 60 60 60] by simp
qed

section \<open>Circuit breaker\<close>

definition failures :: "string \<Rightarrow> nat \<Rightarrow> nat \<Rightarrow> (nat \<times> string) list \<Rightarrow> rr \<Rightarrow> rr" where
  "failures inst threshold cooldown_ms es r =
     fold (\<lambda>(now, error). mark_probe_failure now inst error threshold cooldown_ms) es r"

lemma failures_target:
  assumes "hm_get (rr_targets r) inst = Some t"
    and "tr_consecutive_failures t < max threshold 1 \<Longrightarrow> tr_ready t \<and> tr_circuit_open_until_ms t = 0"
    and "max threshold 1 \<le> tr_consecutive_failures t \<Longrightarrow> \<not> tr_ready t"
    and "tr_consecutive_failures t + length es \<le> u32_max"
  shows "\<exists>t'. hm_get (rr_targets (failures inst threshold cooldown_ms es r)) inst = Some t'
    \<and> tr_consecutive_failures t' = tr_consecutive_failures t + length es
    \<and> (if tr_consecutive_failures t' < max threshold 1
       then tr_ready t' \<and> tr_circuit_open_until_ms t' = 0 else \<not> tr_ready t')"
  using assms
proof (induction es arbitrary: r t)
  case Nil
  then show ?case by (simp add: failures_def not_less [symmetric] del: max_less_iff_conj)
next
  case (Cons e es)
  obtain now err where e: "e = (now, err)" by (cases e)
  let ?t1 = "fail_target now err threshold cooldown_ms t"
  let ?r1 = "mark_probe_failure now inst err threshold cooldown_ms r"
  have g: "hm_get (rr_targets ?r1) inst = Some ?t1"
    using Cons.prems(1) by (simp add: mark_probe_failure_def with_target_def)
  have n: "tr_consecutive_failures ?t1 = tr_consecutive_failures t + 1"
    using Cons.prems(4) by (simp add: fail_target_def sat_add_exact Let_def)
  have "tr_ready ?t1 \<and> tr_circuit_open_until_ms ?t1 = 0" if "tr_consecutive_failures ?t1 < max threshold 1"
    using that n Cons.prems(2,4) by (auto simp: fail_target_def sat_add_exact Let_def)
  moreover have "\<not> tr_ready ?t1" if "max threshold 1 \<le> tr_consecutive_failures ?t1"
    using that n Cons.prems(4) by (auto simp: fail_target_def sat_add_exact Let_def)
  moreover have "failures inst threshold cooldown_ms (e # es) r = failures inst threshold cooldown_ms es ?r1"
    by (simp add: failures_def e)
  moreover have "tr_consecutive_failures ?t1 + length es \<le> u32_max" using n Cons.prems(4) by simp
  ultimately show ?case using Cons.IH [OF g] n by simp
qed

text \<open>A target is out of service while its breaker holds it unready, whatever the clock says.\<close>

definition out_of_service :: "string \<Rightarrow> rr \<Rightarrow> bool" where
  "out_of_service inst r \<longleftrightarrow> (\<exists>t. hm_get (rr_targets r) inst = Some t \<and> \<not> tr_ready t)"

lemma out_of_service_cong: "rr_targets r' = rr_targets r \<Longrightarrow> out_of_service inst r' = out_of_service inst r"
  by (simp add: out_of_service_def)

lemma with_target_out_of_service:
  assumes "out_of_service inst r" "\<And>t. i = inst \<Longrightarrow> \<not> tr_ready t \<Longrightarrow> \<not> tr_ready (f t)"
  shows "out_of_service inst (fst (with_target i f r))"
proof -
  obtain t where t: "hm_get (rr_targets r) inst = Some t" "\<not> tr_ready t"
    using assms(1) by (auto simp: out_of_service_def)
  show ?thesis
  proof (cases "i = inst")
    case True
    then show ?thesis using t assms(2) [OF True t(2)] by (simp add: out_of_service_def with_target_def Let_def)
  next
    case False
    then show ?thesis using t by (simp add: out_of_service_def with_target_def Let_def split: option.split)
  qed
qed

lemma fail_target_unready: "\<not> tr_ready t \<Longrightarrow> \<not> tr_ready (fail_target now error threshold cooldown_ms t)"
  by (simp add: fail_target_def Let_def)

lemma acquire_out_of_service:
  assumes "select_and_acquire_target now now' cs strategy key r = (r', res)" "out_of_service inst r"
  shows "out_of_service inst r'"
proof -
  obtain r1 x where s: "select_target now cs strategy key r = (r1, x)" by fastforce
  then have o: "out_of_service inst r1"
    using assms(2) select_target_cases [OF s] out_of_service_cong by blast
  then have "out_of_service inst (fst (with_target i (\<lambda>t. t\<lparr>tr_active_requests := tr_active_requests t + 1\<rparr>) r1))" for i
    by (rule with_target_out_of_service) simp
  then show ?thesis
    using assms(1) s o by (auto simp: select_and_acquire_target_def split: option.splits prod.splits) (metis fst_conv)
qed

lemma retain_keys_get: "k \<in> K \<Longrightarrow> hm_get (hm_retain (\<lambda>k _. k \<in> K) m) k = hm_get m k"
  by (induction m) (auto simp: hm_retain_def)

text \<open>
  Whatever the router does next, a target that is out of service stays so, unless a probe of it
  succeeds or \<open>retain_targets\<close> forgets it because it is no longer an instance.
\<close>

lemma step_out_of_service:
  assumes "rt_step p q" "out_of_service inst (fst p)"
  shows "out_of_service inst (fst q)
    \<or> (\<exists>now latency caps. fst q = mark_probe_success now inst latency caps (fst p))
    \<or> (\<exists>ids. inst \<notin> set ids \<and> fst q = retain_targets ids (fst p))"
  using assms
proof (induction rule: rt_step.induct)
  case (rt_acquire now now' cs strategy key r r' c p ps)
  then show ?case using acquire_out_of_service by auto
next
  case (rt_refuse now now' cs strategy key r r' e ps)
  then show ?case using acquire_out_of_service by auto
next
  case (rt_drop p ps r)
  then show ?case
    by (auto simp: target_permit_drop_def out_of_service_def split: option.splits)
next
  case (rt_success r ps now i latency caps)
  show ?case
  proof (cases "i = inst")
    case True
    then show ?thesis by auto
  next
    case False
    then show ?thesis using rt_success unfolding mark_probe_success_def fst_conv
      by (intro disjI1 with_target_out_of_service) auto
  qed
next
  case (rt_failure r ps now i error threshold cooldown)
  then show ?case unfolding mark_probe_failure_def fst_conv
    by (intro disjI1 with_target_out_of_service fail_target_unready)
next
  case (rt_request_failure r ps now i error threshold cooldown)
  then have "out_of_service inst (r\<lparr>rr_metrics := m\<rparr>)" for m by (simp add: out_of_service_def)
  then show ?case unfolding mark_request_failure_def mark_probe_failure_def fst_conv
    by (intro disjI1 with_target_out_of_service fail_target_unready)
next
  case (rt_retain r ps ids)
  then show ?case
    by (cases "inst \<in> set ids") (auto simp: out_of_service_def retain_targets_def retain_keys_get)
next
  case (rt_rate r ps t0 t1 t2 client limit)
  then show ?case using check_rate_limit_targets [of t0 t1 t2 client limit r] by (simp add: out_of_service_def)
next
  case (rt_request client r r' res ps)
  then have "rr_targets r' = rr_targets r" using acquire_request_start_targets by blast
  then show ?case using rt_request.prems by (simp add: out_of_service_def)
next
  case (rt_poll i r r' ps)
  then have "rr_targets r' = rr_targets r" using acquire_request_poll_targets by blast
  then show ?case using rt_poll.prems by (simp add: out_of_service_def)
next
  case (rt_body n limit r r' m ps)
  then have "rr_targets r' = rr_targets r" using body_bytes_targets by blast
  then show ?case using rt_body.prems by (simp add: out_of_service_def)
qed (simp_all add: out_of_service_def record_completed_def record_rejected_def configure_admission_def
    body_permit_drop_def Let_def)

text \<open>
  C11. After a successful probe the circuit breaker counts consecutive failures: fewer than
  \<open>max threshold 1\<close> of them leave the target in service, and from that number on it is out of
  service.  A target that is out of service gets no request at any time, even after the cool-down;
  and no operation of the router puts it back in service but a successful probe, or
  \<open>retain_targets\<close> with ids that do not contain it, which forgets the target and its breaker.
\<close>

theorem circuit_breaker:
  assumes "length es \<le> u32_max"
    and "r' = failures inst threshold cooldown_ms es (mark_probe_success t0 inst latency caps r)"
  shows "(\<exists>t. hm_get (rr_targets r') inst = Some t
            \<and> circuit_open now t = (max threshold 1 \<le> length es))
    \<and> (out_of_service inst r' \<longleftrightarrow> max threshold 1 \<le> length es)
    \<and> (\<forall>r1. out_of_service inst r1 \<longrightarrow>
          (\<forall>c. rc_instance_id c = inst \<longrightarrow> \<not> eligible now (rr_targets r1) c
             \<and> snd (select_target now [c] strategy key r1) = None)
        \<and> (\<forall>ps r2 ps'. rt_step (r1, ps) (r2, ps') \<longrightarrow> out_of_service inst r2
             \<or> (\<exists>now latency caps. r2 = mark_probe_success now inst latency caps r1)
             \<or> (\<exists>ids. inst \<notin> set ids \<and> r2 = retain_targets ids r1)))
    \<and> (\<exists>t. hm_get (rr_targets (mark_probe_success t1 inst latency' caps' r')) inst = Some t
            \<and> \<not> circuit_open now t)"
proof -
  let ?r0 = "mark_probe_success t0 inst latency caps r"
  obtain t where t: "hm_get (rr_targets ?r0) inst = Some t" "tr_ready t" "tr_circuit_open_until_ms t = 0"
    "tr_consecutive_failures t = 0"
    by (cases "hm_get (rr_targets r) inst") (simp_all add: mark_probe_success_def with_target_def Let_def)
  obtain t' where t': "hm_get (rr_targets r') inst = Some t'"
    "if length es < max threshold 1 then tr_ready t' \<and> tr_circuit_open_until_ms t' = 0 else \<not> tr_ready t'"
    using failures_target [OF t(1), of threshold es cooldown_ms] t assms by auto
  have o: "circuit_open now t' = (max threshold 1 \<le> length es)"
    using t'(2) by (auto simp: circuit_open_def split: if_splits)
  have out: "out_of_service inst r' \<longleftrightarrow> max threshold 1 \<le> length es"
    using t' by (auto simp: out_of_service_def split: if_splits)
  have refused: "\<not> eligible now (rr_targets r1) c \<and> snd (select_target now [c] strategy key r1) = None"
    if "out_of_service inst r1" "rc_instance_id c = inst" for r1 c
  proof -
    have "\<not> eligible now (rr_targets r1) c"
      using that by (auto simp: eligible_iff out_of_service_def circuit_open_def)
    then show ?thesis by (simp add: select_target_def best_tier_def)
  qed
  have stays: "out_of_service inst r2 \<or> (\<exists>now latency caps. r2 = mark_probe_success now inst latency caps r1)
      \<or> (\<exists>ids. inst \<notin> set ids \<and> r2 = retain_targets ids r1)"
    if "out_of_service inst r1" "rt_step (r1, ps) (r2, ps')" for r1 r2 ps ps'
    using step_out_of_service [OF that(2), of inst] that(1) by simp
  have "\<exists>t. hm_get (rr_targets (mark_probe_success t1 inst latency' caps' r')) inst = Some t
      \<and> \<not> circuit_open now t"
    using t'(1) by (simp add: mark_probe_success_def with_target_def circuit_open_def)
  then show ?thesis using t'(1) o out refused stays by blast
qed

theorem circuit_breaker_witness:
  "out_of_service ''a'' (failures ''a'' 2 100 [(1, ''x''), (2, ''y'')] (mark_probe_success 0 ''a'' 5 None rr_default))"
  using circuit_breaker [of "[(1, ''x''), (2, ''y'')]" _ "''a''" 2 100 0 5 None rr_default] by simp

section \<open>Latency histogram\<close>

lemma position_bucket:
  assumes "d \<le> u64_max" and "i < length LATENCY_BUCKETS_MS"
  shows "position (\<lambda>upper. d \<le> upper) LATENCY_BUCKETS_MS = Some i \<longleftrightarrow>
    d \<le> LATENCY_BUCKETS_MS ! i \<and> (i = 0 \<or> LATENCY_BUCKETS_MS ! (i - 1) < d)"
proof -
  have "i < 9" using assms(2) by (simp add: LATENCY_BUCKETS_MS_def)
  then consider "i = 0" | "i = 1" | "i = 2" | "i = 3" | "i = 4" | "i = 5" | "i = 6" | "i = 7" | "i = 8"
    by linarith
  then show ?thesis using assms(1) by cases (auto simp: LATENCY_BUCKETS_MS_def)
qed

lemma position_total: "d \<le> u64_max \<Longrightarrow>
  \<exists>i < length LATENCY_BUCKETS_MS. position (\<lambda>upper. d \<le> upper) LATENCY_BUCKETS_MS = Some i"
  by (auto simp: LATENCY_BUCKETS_MS_def)

definition in_bucket :: "nat \<Rightarrow> nat \<Rightarrow> bool" where
  "in_bucket i d \<longleftrightarrow> d \<le> LATENCY_BUCKETS_MS ! i \<and> (i = 0 \<or> LATENCY_BUCKETS_MS ! (i - 1) < d)"

lemma record_completed_buckets:
  assumes "d \<le> u64_max" and "length (rm_latency_buckets (rr_metrics r)) = length LATENCY_BUCKETS_MS"
    and "i < length LATENCY_BUCKETS_MS"
  shows "length (rm_latency_buckets (rr_metrics (record_completed d r))) = length LATENCY_BUCKETS_MS"
    "rm_latency_buckets (rr_metrics (record_completed d r)) ! i
      = (if in_bucket i d then sat_add u64_max (rm_latency_buckets (rr_metrics r) ! i) 1
         else rm_latency_buckets (rr_metrics r) ! i)"
proof -
  obtain j where j: "position (\<lambda>upper. d \<le> upper) LATENCY_BUCKETS_MS = Some j" "j < length LATENCY_BUCKETS_MS"
    using position_total [OF assms(1)] by blast
  show "length (rm_latency_buckets (rr_metrics (record_completed d r))) = length LATENCY_BUCKETS_MS"
    using assms(2) by (simp add: record_completed_def j Let_def)
  have "in_bucket i d \<longleftrightarrow> i = j"
    using position_bucket [OF assms(1,3)] j(1) by (auto simp: in_bucket_def)
  then show "rm_latency_buckets (rr_metrics (record_completed d r)) ! i
      = (if in_bucket i d then sat_add u64_max (rm_latency_buckets (rr_metrics r) ! i) 1
         else rm_latency_buckets (rr_metrics r) ! i)"
    using assms(2,3) j by (simp add: record_completed_def Let_def)
qed

lemma histogram_run:
  assumes "\<forall>d \<in> set ds. d \<le> u64_max"
    and "length (rm_latency_buckets (rr_metrics r)) = length LATENCY_BUCKETS_MS"
    and "i < length LATENCY_BUCKETS_MS" and "rm_latency_buckets (rr_metrics r) ! i + length ds \<le> u64_max"
  shows "rm_latency_buckets (rr_metrics (fold record_completed ds r)) ! i
      = rm_latency_buckets (rr_metrics r) ! i + length (filter (in_bucket i) ds)"
  using assms
proof (induction ds arbitrary: r)
  case Nil
  then show ?case by simp
next
  case (Cons d ds)
  note b = record_completed_buckets [OF _ Cons.prems(2,3), of d]
  have d: "d \<le> u64_max" using Cons.prems(1) by simp
  have s: "sat_add u64_max (rm_latency_buckets (rr_metrics r) ! i) 1 = rm_latency_buckets (rr_metrics r) ! i + 1"
    using Cons.prems(4) by (simp add: sat_add_exact)
  show ?case
    using Cons.IH [of "record_completed d r"] Cons.prems b [OF d] s by simp
qed

lemma fold_completed_count:
  "rm_completed_requests (rr_metrics (fold record_completed ds r))
    = rm_completed_requests (rr_metrics r) + of_nat (length ds)"
proof (induction ds arbitrary: r)
  case Nil
  then show ?case by simp
next
  case (Cons d ds)
  have "rm_completed_requests (rr_metrics (record_completed d r)) = rm_completed_requests (rr_metrics r) + 1"
    by (simp add: record_completed_def Let_def split: option.splits)
  then show ?case using Cons [of "record_completed d r"] by simp
qed

text \<open>
  The latency histogram is exact: after any sequence of completions from a fresh router, bucket
  \<open>i\<close> holds exactly the number of durations above the previous bound and at most its own, every
  duration lies in exactly one bucket, and the completion counter is the number of completions
  (modulo the width of the counter).
\<close>

theorem histogram_exact:
  assumes "\<forall>d \<in> set ds. d \<le> u64_max" and "length ds \<le> u64_max" and "i < length LATENCY_BUCKETS_MS"
  shows "rm_latency_buckets (rr_metrics (fold record_completed ds rr_default)) ! i
      = length (filter (in_bucket i) ds)
    \<and> (\<forall>d \<in> set ds. \<exists>!j. j < length LATENCY_BUCKETS_MS \<and> in_bucket j d)
    \<and> rm_completed_requests (rr_metrics (fold record_completed ds rr_default)) = of_nat (length ds)"
proof -
  have z: "rm_latency_buckets (rr_metrics rr_default) = replicate (length LATENCY_BUCKETS_MS) 0"
    "rm_completed_requests (rr_metrics rr_default) = 0"
    by (simp_all add: rr_default_def router_metrics_default_def)
  have "\<exists>!j. j < length LATENCY_BUCKETS_MS \<and> in_bucket j d" if "d \<in> set ds" for d
  proof -
    have d: "d \<le> u64_max" using that assms(1) by blast
    obtain j where j: "j < length LATENCY_BUCKETS_MS" "position (\<lambda>upper. d \<le> upper) LATENCY_BUCKETS_MS = Some j"
      using position_total [OF d] by blast
    have "in_bucket k d \<longleftrightarrow> k = j" if "k < length LATENCY_BUCKETS_MS" for k
      using position_bucket [OF d that] j(2) by (auto simp: in_bucket_def)
    then show ?thesis using j(1) by blast
  qed
  then show ?thesis
    using histogram_run [OF assms(1), of rr_default i] assms(2,3) z fold_completed_count [of ds rr_default]
    by simp
qed

theorem histogram_exact_witness:
  "rm_latency_buckets (rr_metrics (fold record_completed [7, 30, 26] rr_default)) ! 2 = 2"
  using histogram_exact [of "[7, 30, 26]" 2] by (simp add: LATENCY_BUCKETS_MS_def in_bucket_def)

end
