(* ===== verification/Usage_Quota.thy ===== *)
theory Usage_Quota
  imports Proxy_Models
begin

text \<open>
  The token-quota ledger (\<open>src-tauri/src/commands/usage_quota.rs\<close> with
  \<open>usage_quota_maintenance.rs\<close> and \<open>periods\<close> of \<open>usage_budgets.rs\<close>).  The two tables of the
  SQLite file are association lists on their primary keys; a transaction works on a copy and
  gives the old ledger back on every error.  What SQLite and the clock library decide is a
  parameter: \<open>faults\<close> says which database call fails and with which message, \<open>month_start\<close>
  is the chrono computation of the first instant of a month.
\<close>

declare map_of_eq_Some_iff [simp del]

definition MAX_TOKENS :: nat where
  "MAX_TOKENS = 9007199254740991"

definition DAY_MS :: int where
  "DAY_MS = 86400000"

datatype quota_error =
  QExceeded
| QUnavailable
| QUnmetered
| QInvalidLimit string
| QMultipleGenerations string
| QUnsupportedBatch

fun quota_code :: "quota_error \<Rightarrow> string" where
  "quota_code QExceeded = ''token_quota_exceeded''"
| "quota_code QUnavailable = ''token_quota_unavailable''"
| "quota_code QUnmetered = ''token_quota_unmetered''"
| "quota_code (QInvalidLimit field) = ''token_quota_invalid_limit''"
| "quota_code (QMultipleGenerations field) = ''token_quota_multiple_generations''"
| "quota_code QUnsupportedBatch = ''token_quota_unsupported_batch''"

fun quota_message :: "quota_error \<Rightarrow> string" where
  "quota_message QExceeded = ''The API key token quota cannot cover this request and existing reservations. Reduce the request or increase the daily/monthly limit.''"
| "quota_message QUnavailable = ''The token quota ledger is unavailable. The request was not forwarded.''"
| "quota_message QUnmetered = ''The target cannot provide reliable input token counts or context properties for quota reservation. Check the engine's count/props endpoints. The request was not forwarded.''"
| "quota_message (QInvalidLimit field) = ''Invalid '' @ field @ '': use an integer output limit from 0 to 2147483647. Omitted, null, -1 and -2 limits use the API key's default output limit when hard quotas are enabled. The request was not forwarded.''"
| "quota_message (QMultipleGenerations field) = ''Hard token quotas currently support one generation per request. Set '' @ field @ ''=1 or omit it; send multiple generations as separate requests. The request was not forwarded.''"
| "quota_message QUnsupportedBatch = ''Hard token quotas currently support one completion prompt per request. Split the prompt batch into separate requests. The request was not forwarded.''"

fun quota_param :: "quota_error \<Rightarrow> string option" where
  "quota_param (QInvalidLimit field) = Some field"
| "quota_param (QMultipleGenerations field) = Some field"
| "quota_param QUnsupportedBatch = Some ''prompt''"
| "quota_param QExceeded = None"
| "quota_param QUnavailable = None"
| "quota_param QUnmetered = None"

definition quota_enabled :: "proxy_api_key \<Rightarrow> bool" where
  "quota_enabled key \<longleftrightarrow> 0 < ak_daily_token_limit key \<or> 0 < ak_monthly_token_limit key"

section \<open>The ledger\<close>

text \<open>Columns are signed 64-bit integers; reading one as \<open>u64\<close> wraps.\<close>

record period_row =
  pr_settled :: int
  pr_held :: int
  pr_pending :: int
  pr_uncertain :: int

record request_row =
  rq_key :: string
  rq_day :: int
  rq_month :: int
  rq_reserved :: int
  rq_state :: string
  rq_actual :: "int option"
  rq_updated :: int

type_synonym period_key = "string \<times> string \<times> int"

record ledger =
  lg_periods :: "(period_key, period_row) hmap"
  lg_requests :: "(string, request_row) hmap"

record quota_period =
  qp_settled :: nat
  qp_held :: nat
  qp_pending :: nat
  qp_uncertain :: nat

record key_quota =
  kq_daily_limit :: nat
  kq_monthly_limit :: nat
  kq_day :: quota_period
  kq_month :: quota_period

record quota_permit =
  qt_id :: string
  qt_forwarded :: bool
  qt_finished :: bool

datatype db_call =
  DbOpen | DbBegin | DbReadPeriod string | DbWritePeriod string | DbReadRequest
| DbInsertRequest | DbUpdateRequest | DbDeleteRequests | DbDeletePeriods | DbCommit

type_synonym faults = "db_call \<Rightarrow> string option"

definition i64_as_u64 :: "int \<Rightarrow> nat" where
  "i64_as_u64 i = nat (i mod 2 ^ 64)"

definition zero_row :: period_row where
  "zero_row = \<lparr> pr_settled = 0, pr_held = 0, pr_pending = 0, pr_uncertain = 0 \<rparr>"

definition row_of :: "ledger \<Rightarrow> period_key \<Rightarrow> period_row" where
  "row_of lg k = hm_get_or zero_row (lg_periods lg) k"

definition periods :: "(int \<Rightarrow> string + int) \<Rightarrow> int \<Rightarrow> string + int \<times> int" where
  "periods month_start now =
     (case month_start now of
        Inl e \<Rightarrow> Inl e
      | Inr month \<Rightarrow> Inr (now div DAY_MS * DAY_MS, month))"

definition period :: "ledger \<Rightarrow> string \<Rightarrow> string \<Rightarrow> int \<Rightarrow> quota_period" where
  "period lg key kind start =
     (case hm_get (lg_periods lg) (key, kind, start) of
        Some r \<Rightarrow> \<lparr> qp_settled = i64_as_u64 (pr_settled r), qp_held = i64_as_u64 (pr_held r),
                     qp_pending = i64_as_u64 (pr_pending r), qp_uncertain = i64_as_u64 (pr_uncertain r) \<rparr>
      | None \<Rightarrow> \<lparr> qp_settled = 0, qp_held = 0, qp_pending = 0, qp_uncertain = 0 \<rparr>)"

definition report :: "(int \<Rightarrow> string + int) \<Rightarrow> ledger \<Rightarrow> proxy_api_key list \<Rightarrow> int \<Rightarrow> string + key_quota list" where
  "report month_start lg keys now =
     (case periods month_start now of
        Inl e \<Rightarrow> Inl e
      | Inr (day, month) \<Rightarrow> Inr (map (\<lambda>key.
         \<lparr> kq_daily_limit = ak_daily_token_limit key, kq_monthly_limit = ak_monthly_token_limit key,
           kq_day = period lg (ak_id key) ''day'' day,
           kq_month = period lg (ak_id key) ''month'' month \<rparr>) keys))"

section \<open>Reserving\<close>

text \<open>One turn of the loop over the two periods: the limit check and the upsert.\<close>

definition reserve_period ::
  "faults \<Rightarrow> proxy_api_key \<Rightarrow> nat \<Rightarrow> string \<Rightarrow> int \<Rightarrow> nat \<Rightarrow> ledger \<Rightarrow> quota_error + ledger" where
  "reserve_period faults key amount kind start limit lg =
     (if faults (DbReadPeriod kind) \<noteq> None then Inl QUnavailable
      else
        (let current = period lg (ak_id key) kind start;
             total' = sat_add u64_max (sat_add u64_max (qp_settled current) (qp_held current)) amount
         in if (0 < limit \<and> limit < total') \<or> MAX_TOKENS < total' then Inl QExceeded
            else if faults (DbWritePeriod kind) \<noteq> None then Inl QUnavailable
            else
              (let k = (ak_id key, kind, start);
                   row = (case hm_get (lg_periods lg) k of
                            None \<Rightarrow> \<lparr> pr_settled = 0, pr_held = int amount, pr_pending = 1, pr_uncertain = 0 \<rparr>
                          | Some r \<Rightarrow> r\<lparr> pr_held := pr_held r + int amount, pr_pending := pr_pending r + 1 \<rparr>)
               in Inr (lg\<lparr>lg_periods := hm_insert k row (lg_periods lg)\<rparr>))))"

definition reserve_at ::
  "faults \<Rightarrow> (int \<Rightarrow> string + int) \<Rightarrow> proxy_api_key \<Rightarrow> string \<Rightarrow> nat \<Rightarrow> int \<Rightarrow> ledger
    \<Rightarrow> ledger \<times> (quota_error + quota_permit)" where
  "reserve_at faults month_start key rid amount now lg =
     (if amount = 0 \<or> MAX_TOKENS < amount then (lg, Inl QUnmetered)
      else (case periods month_start now of
        Inl e \<Rightarrow> (lg, Inl QUnavailable)
      | Inr (day, month) \<Rightarrow>
          (if faults DbOpen \<noteq> None \<or> faults DbBegin \<noteq> None then (lg, Inl QUnavailable)
           else (case reserve_period faults key amount ''day'' day (ak_daily_token_limit key) lg of
             Inl e \<Rightarrow> (lg, Inl e)
           | Inr lg1 \<Rightarrow>
               (case reserve_period faults key amount ''month'' month (ak_monthly_token_limit key) lg1 of
                  Inl e \<Rightarrow> (lg, Inl e)
                | Inr lg2 \<Rightarrow>
                    (if faults DbInsertRequest \<noteq> None \<or> hm_get (lg_requests lg2) rid \<noteq> None
                        \<or> faults DbCommit \<noteq> None
                     then (lg, Inl QUnavailable)
                     else (lg2\<lparr>lg_requests := hm_insert rid
                                \<lparr> rq_key = ak_id key, rq_day = day, rq_month = month,
                                  rq_reserved = int amount, rq_state = ''pending'',
                                  rq_actual = None, rq_updated = now \<rparr> (lg_requests lg2)\<rparr>,
                           Inr \<lparr> qt_id = rid, qt_forwarded = False, qt_finished = False \<rparr>)))))))"

section \<open>Settling\<close>

definition settle_charged :: "nat option \<Rightarrow> bool \<Rightarrow> nat \<Rightarrow> nat" where
  "settle_charged actual complete' reserved =
     min (if complete' then (case actual of None \<Rightarrow> reserved | Some a \<Rightarrow> a) else 0) MAX_TOKENS"

definition settle_held :: "nat option \<Rightarrow> bool \<Rightarrow> nat \<Rightarrow> nat" where
  "settle_held actual complete' reserved =
     (if complete' then 0
      else min (max (case actual of None \<Rightarrow> 0 | Some a \<Rightarrow> a) reserved) MAX_TOKENS)"

text \<open>The \<open>UPDATE\<close> of one period; it touches nothing when the row is absent.\<close>

definition settle_period :: "nat \<Rightarrow> nat \<Rightarrow> nat \<Rightarrow> bool \<Rightarrow> period_key \<Rightarrow> ledger \<Rightarrow> ledger" where
  "settle_period charged reserved hold complete' k lg =
     (case hm_get (lg_periods lg) k of
        None \<Rightarrow> lg
      | Some r \<Rightarrow> lg\<lparr>lg_periods := hm_insert k
          (r\<lparr> pr_settled := min (int MAX_TOKENS) (pr_settled r + int charged),
              pr_held := min (int MAX_TOKENS) (pr_held r - int reserved + int hold),
              pr_pending := pr_pending r - 1,
              pr_uncertain := pr_uncertain r + (if complete' then 0 else 1) \<rparr>) (lg_periods lg)\<rparr>)"

text \<open>\<open>find_fault\<close>: the message of the first failing call of a transaction.\<close>

definition find_fault :: "faults \<Rightarrow> db_call list \<Rightarrow> string option" where
  "find_fault faults cs = (case find (\<lambda>c. faults c \<noteq> None) cs of None \<Rightarrow> None | Some c \<Rightarrow> faults c)"

definition settle ::
  "faults \<Rightarrow> int \<Rightarrow> string \<Rightarrow> nat option \<Rightarrow> bool \<Rightarrow> ledger \<Rightarrow> ledger \<times> (string + unit)" where
  "settle faults now rid actual complete' lg =
     (case find_fault faults [DbOpen, DbBegin, DbReadRequest] of
        Some e \<Rightarrow> (lg, Inl e)
      | None \<Rightarrow>
          (case hm_get (lg_requests lg) rid of
             None \<Rightarrow> (lg, Inr ())
           | Some q \<Rightarrow>
               if rq_state q \<noteq> ''pending'' then (lg, Inr ())
               else
                 (let reserved = i64_as_u64 (rq_reserved q);
                      charged = settle_charged actual complete' reserved;
                      hold = settle_held actual complete' reserved;
                      lg1 = settle_period charged reserved hold complete' (rq_key q, ''day'', rq_day q) lg;
                      lg2 = settle_period charged reserved hold complete' (rq_key q, ''month'', rq_month q) lg1;
                      q' = q\<lparr> rq_state := if complete' then ''settled'' else ''held'',
                              rq_actual := map_option (\<lambda>v. int (min v MAX_TOKENS)) actual,
                              rq_updated := now \<rparr>
                  in case find_fault faults [DbWritePeriod ''day'', DbWritePeriod ''month'',
                                             DbUpdateRequest, DbCommit] of
                       Some e \<Rightarrow> (lg, Inl e)
                     | None \<Rightarrow> (lg2\<lparr>lg_requests := hm_insert rid q' (lg_requests lg2)\<rparr>, Inr ()))))"

section \<open>Permits\<close>

record usage_report =
  ur_input :: "nat option"
  ur_output :: "nat option"
  ur_outcome :: string
  ur_quality :: string

text \<open>
  \<open>finish\<close> and \<open>drop\<close> hand a settlement to a worker: the permit's id, the tokens used and
  whether the outcome is certain.  A worker's failure is only logged.
\<close>

type_synonym settlement = "string \<times> nat option \<times> bool"

definition permit_forwarded :: "quota_permit \<Rightarrow> quota_permit" where
  "permit_forwarded p = p\<lparr>qt_forwarded := True\<rparr>"

definition permit_finish :: "quota_permit \<Rightarrow> usage_report \<Rightarrow> quota_permit \<times> settlement" where
  "permit_finish p rec =
     (let actual = (if ur_input rec \<noteq> None \<or> ur_output rec \<noteq> None
                    then Some (sat_add u64_max (case ur_input rec of None \<Rightarrow> 0 | Some i \<Rightarrow> i)
                                               (case ur_output rec of None \<Rightarrow> 0 | Some j \<Rightarrow> j))
                    else None);
          complete' = (\<not> qt_forwarded p \<or> (ur_outcome rec = ''success'' \<and> ur_quality rec = ''complete''))
      in (p\<lparr>qt_finished := True\<rparr>, (qt_id p, if qt_forwarded p then actual else Some 0, complete')))"

definition permit_drop_q :: "quota_permit \<Rightarrow> settlement option" where
  "permit_drop_q p =
     (if qt_finished p then None
      else Some (qt_id p, if qt_forwarded p then None else Some 0, \<not> qt_forwarded p))"

definition run_settlement :: "faults \<Rightarrow> int \<Rightarrow> settlement \<Rightarrow> ledger \<Rightarrow> ledger" where
  "run_settlement faults now s lg = (case s of (rid, actual, complete') \<Rightarrow> fst (settle faults now rid actual complete' lg))"

section \<open>Maintenance\<close>

definition RETENTION_DAYS :: int where
  "RETENTION_DAYS = 365"

definition BATCH :: nat where
  "BATCH = 1000"

definition expired_request :: "int \<Rightarrow> int \<Rightarrow> request_row \<Rightarrow> bool" where
  "expired_request cutoff month q \<longleftrightarrow> rq_day q < cutoff \<and> rq_month q < month \<and> rq_updated q < cutoff
     \<and> (rq_state q = ''settled'' \<or> rq_state q = ''held'')"

definition expired_period :: "int \<Rightarrow> int \<Rightarrow> (string, request_row) hmap \<Rightarrow> period_key \<times> period_row \<Rightarrow> bool" where
  "expired_period cutoff month reqs e =
     (case e of ((key, kind, start), p) \<Rightarrow>
        start < cutoff \<and> start < month \<and> pr_pending p = 0 \<and> (kind = ''day'' \<or> kind = ''month'')
        \<and> \<not> list_ex (\<lambda>(_, q). rq_key q = key \<and> rq_day q = start \<and> kind = ''day'') reqs
        \<and> \<not> list_ex (\<lambda>(_, q). rq_key q = key \<and> rq_month q = start \<and> kind = ''month'') reqs)"

text \<open>
  \<open>DELETE\<close> of the first \<open>batch\<close> rows that qualify; the rows of equal day, and the periods,
  come in table order.
\<close>

definition dead_requests :: "int \<Rightarrow> int \<Rightarrow> nat \<Rightarrow> (string, request_row) hmap \<Rightarrow> string list" where
  "dead_requests cutoff month batch reqs =
     map fst (take batch (sort_key (\<lambda>e. rq_day (snd e))
       (filter (\<lambda>e. expired_request cutoff month (snd e)) reqs)))"

definition dead_periods ::
  "int \<Rightarrow> int \<Rightarrow> nat \<Rightarrow> (string, request_row) hmap \<Rightarrow> (period_key, period_row) hmap \<Rightarrow> period_key list" where
  "dead_periods cutoff month batch reqs pers =
     map fst (take batch (filter (expired_period cutoff month reqs) pers))"

definition delete_expired :: "int \<Rightarrow> int \<Rightarrow> nat \<Rightarrow> ledger \<Rightarrow> ledger \<times> bool" where
  "delete_expired cutoff month batch lg =
     (let dead = dead_requests cutoff month batch (lg_requests lg);
          reqs = filter (\<lambda>e. fst e \<notin> set dead) (lg_requests lg);
          deadp = dead_periods cutoff month batch reqs (lg_periods lg);
          pers = filter (\<lambda>e. fst e \<notin> set deadp) (lg_periods lg)
      in (\<lparr> lg_periods = pers, lg_requests = reqs \<rparr>, length dead = batch \<or> length deadp = batch))"

definition prune_cutoff :: "int \<Rightarrow> int" where
  "prune_cutoff day = max (- (2 ^ 63)) (day - RETENTION_DAYS * DAY_MS)"

definition prune ::
  "faults \<Rightarrow> (int \<Rightarrow> string + int) \<Rightarrow> int \<Rightarrow> nat \<Rightarrow> ledger \<Rightarrow> ledger \<times> (string + bool)" where
  "prune faults month_start now batch lg =
     (case periods month_start now of
        Inl e \<Rightarrow> (lg, Inl e)
      | Inr (day, month) \<Rightarrow>
          (case find_fault faults [DbBegin, DbDeleteRequests, DbDeletePeriods, DbCommit] of
             Some e \<Rightarrow> (lg, Inl e)
           | None \<Rightarrow> (case delete_expired (prune_cutoff day) month batch lg of
                       (lg', again) \<Rightarrow> (lg', Inr again))))"

definition maintain :: "bool \<Rightarrow> faults \<Rightarrow> (int \<Rightarrow> string + int) \<Rightarrow> int \<Rightarrow> ledger \<Rightarrow> ledger \<times> (string + bool)" where
  "maintain path_exists faults month_start now lg =
     (if \<not> path_exists then (lg, Inr False)
      else case faults DbOpen of
             Some e \<Rightarrow> (lg, Inl e)
           | None \<Rightarrow> prune faults month_start now BATCH lg)"

section \<open>Accounting\<close>

text \<open>The pending requests that draw on a period, as a count and as a sum of reservations.\<close>

definition draws_on :: "period_key \<Rightarrow> request_row \<Rightarrow> bool" where
  "draws_on k q = (case k of (key, kind, start) \<Rightarrow>
     rq_state q = ''pending'' \<and> rq_key q = key
     \<and> (kind = ''day'' \<and> rq_day q = start \<or> kind = ''month'' \<and> rq_month q = start))"

definition pending_count :: "ledger \<Rightarrow> period_key \<Rightarrow> int" where
  "pending_count lg k = sum_list (map (\<lambda>e. if draws_on k (snd e) then 1 else 0) (lg_requests lg))"

definition pending_sum :: "ledger \<Rightarrow> period_key \<Rightarrow> int" where
  "pending_sum lg k = sum_list (map (\<lambda>e. if draws_on k (snd e) then rq_reserved (snd e) else 0) (lg_requests lg))"

definition row_ok :: "ledger \<Rightarrow> period_key \<Rightarrow> bool" where
  "row_ok lg k = (let r = row_of lg k in
     0 \<le> pr_settled r \<and> pr_settled r \<le> int MAX_TOKENS
     \<and> pr_pending r = pending_count lg k
     \<and> pending_sum lg k \<le> pr_held r \<and> pr_held r \<le> int MAX_TOKENS)"

definition request_ok :: "request_row \<Rightarrow> bool" where
  "request_ok q \<longleftrightarrow> 1 \<le> rq_reserved q \<and> rq_reserved q \<le> int MAX_TOKENS
     \<and> (rq_state q = ''pending'' \<or> rq_state q = ''settled'' \<or> rq_state q = ''held'')"

definition ledger_ok :: "ledger \<Rightarrow> bool" where
  "ledger_ok lg \<longleftrightarrow> hm_ok (lg_periods lg) \<and> hm_ok (lg_requests lg)
     \<and> (\<forall>k. row_ok lg k) \<and> (\<forall>rid q. hm_get (lg_requests lg) rid = Some q \<longrightarrow> request_ok q)"

definition empty_ledger :: ledger where
  "empty_ledger = \<lparr> lg_periods = [], lg_requests = [] \<rparr>"

definition spent :: "ledger \<Rightarrow> period_key \<Rightarrow> int" where
  "spent lg k = pr_settled (row_of lg k) + pr_held (row_of lg k)"

lemma empty_ledger_ok: "ledger_ok empty_ledger"
  by (simp add: ledger_ok_def empty_ledger_def row_ok_def row_of_def hm_get_or_def zero_row_def
      pending_count_def pending_sum_def)

lemma i64_as_u64_exact: "0 \<le> i \<Longrightarrow> i \<le> int MAX_TOKENS \<Longrightarrow> i64_as_u64 i = nat i"
  by (simp add: i64_as_u64_def MAX_TOKENS_def)

lemma pending_nonneg:
  assumes "ledger_ok lg"
  shows "0 \<le> pending_count lg k" "0 \<le> pending_sum lg k"
proof -
  show "0 \<le> pending_count lg k" unfolding pending_count_def by (rule sum_list_nonneg) auto
  have "0 \<le> rq_reserved (snd e)" if "e \<in> set (lg_requests lg)" for e
  proof -
    have "hm_get (lg_requests lg) (fst e) = Some (snd e)"
      using that assms unfolding ledger_ok_def by (intro map_of_is_SomeI) auto
    then have "request_ok (snd e)" using assms unfolding ledger_ok_def by blast
    then show ?thesis by (simp add: request_ok_def)
  qed
  then show "0 \<le> pending_sum lg k" unfolding pending_sum_def by (intro sum_list_nonneg) auto
qed

lemma row_bounds:
  assumes "ledger_ok lg"
  shows "0 \<le> pr_settled (row_of lg k)" "pr_settled (row_of lg k) \<le> int MAX_TOKENS"
    "0 \<le> pr_held (row_of lg k)" "pr_held (row_of lg k) \<le> int MAX_TOKENS"
    "pr_pending (row_of lg k) = pending_count lg k" "pending_sum lg k \<le> pr_held (row_of lg k)"
proof -
  have "row_ok lg k" using assms unfolding ledger_ok_def by blast
  then show "0 \<le> pr_settled (row_of lg k)" "pr_settled (row_of lg k) \<le> int MAX_TOKENS"
    "0 \<le> pr_held (row_of lg k)" "pr_held (row_of lg k) \<le> int MAX_TOKENS"
    "pr_pending (row_of lg k) = pending_count lg k" "pending_sum lg k \<le> pr_held (row_of lg k)"
    using pending_nonneg(2) [OF assms, of k] by (simp_all add: row_ok_def Let_def)
qed

lemma period_row:
  assumes "ledger_ok lg"
  shows "qp_settled (period lg key kind start) = nat (pr_settled (row_of lg (key, kind, start)))"
    "qp_held (period lg key kind start) = nat (pr_held (row_of lg (key, kind, start)))"
  using row_bounds [OF assms, of "(key, kind, start)"]
  by (auto simp: period_def row_of_def hm_get_or_def zero_row_def i64_as_u64_exact split: option.splits)

text \<open>The period rows after a reservation, a function on the rows before it.\<close>

definition add_hold :: "nat \<Rightarrow> period_row \<Rightarrow> period_row" where
  "add_hold amount r = r\<lparr> pr_held := pr_held r + int amount, pr_pending := pr_pending r + 1 \<rparr>"

definition fits :: "nat \<Rightarrow> nat \<Rightarrow> period_row \<Rightarrow> bool" where
  "fits amount limit r \<longleftrightarrow> (limit = 0 \<or> pr_settled r + pr_held r + int amount \<le> int limit)
     \<and> pr_settled r + pr_held r + int amount \<le> int MAX_TOKENS"

definition row_sane :: "period_row \<Rightarrow> bool" where
  "row_sane r \<longleftrightarrow> 0 \<le> pr_settled r \<and> pr_settled r \<le> int MAX_TOKENS \<and> 0 \<le> pr_held r \<and> pr_held r \<le> int MAX_TOKENS"

lemma reserve_period_iff:
  assumes "row_sane (row_of lg (ak_id key, kind, start))" and "amount \<le> MAX_TOKENS"
  shows "reserve_period faults key amount kind start limit lg
    = (if faults (DbReadPeriod kind) \<noteq> None then Inl QUnavailable
       else if \<not> fits amount limit (row_of lg (ak_id key, kind, start)) then Inl QExceeded
       else if faults (DbWritePeriod kind) \<noteq> None then Inl QUnavailable
       else Inr (lg\<lparr>lg_periods := hm_insert (ak_id key, kind, start)
              (add_hold amount (row_of lg (ak_id key, kind, start))) (lg_periods lg)\<rparr>))"
proof -
  let ?k = "(ak_id key, kind, start)"
  let ?r = "row_of lg ?k"
  let ?p = "period lg (ak_id key) kind start"
  have p: "qp_settled ?p = nat (pr_settled ?r)" "qp_held ?p = nat (pr_held ?r)"
    using assms(1) by (auto simp: row_sane_def period_def row_of_def hm_get_or_def zero_row_def i64_as_u64_exact
        split: option.splits)
  have t: "sat_add u64_max (sat_add u64_max (qp_settled ?p) (qp_held ?p)) amount
      = nat (pr_settled ?r) + nat (pr_held ?r) + amount"
  proof -
    have "nat (pr_settled ?r) \<le> MAX_TOKENS" "nat (pr_held ?r) \<le> MAX_TOKENS"
      using assms(1) by (simp_all add: row_sane_def nat_le_iff)
    then show ?thesis using assms(2) unfolding p by (simp add: sat_add_def MAX_TOKENS_def)
  qed
  have c: "((0 < limit \<and> limit < nat (pr_settled ?r) + nat (pr_held ?r) + amount)
      \<or> MAX_TOKENS < nat (pr_settled ?r) + nat (pr_held ?r) + amount) \<longleftrightarrow> \<not> fits amount limit ?r"
    using assms(1) by (auto simp: fits_def row_sane_def)
  have w: "(case hm_get (lg_periods lg) ?k of
        None \<Rightarrow> \<lparr> pr_settled = 0, pr_held = int amount, pr_pending = 1, pr_uncertain = 0 \<rparr>
      | Some r \<Rightarrow> r\<lparr> pr_held := pr_held r + int amount, pr_pending := pr_pending r + 1 \<rparr>) = add_hold amount ?r"
    by (simp add: row_of_def hm_get_or_def add_hold_def zero_row_def split: option.splits)
  show ?thesis unfolding reserve_period_def Let_def t c w by simp
qed

lemma row_of_insert:
  "row_of (lg\<lparr>lg_periods := hm_insert k r (lg_periods lg)\<rparr>) k' = (if k = k' then r else row_of lg k')"
  by (simp add: row_of_def)

lemma row_of_requests [simp]: "row_of (lg\<lparr>lg_requests := q\<rparr>) = row_of lg"
  by (simp add: row_of_def fun_eq_iff)

definition no_reserve_fault :: "faults \<Rightarrow> bool" where
  "no_reserve_fault faults \<longleftrightarrow> (\<forall>c \<in> set [DbOpen, DbBegin, DbReadPeriod ''day'', DbWritePeriod ''day'',
     DbReadPeriod ''month'', DbWritePeriod ''month'', DbInsertRequest, DbCommit]. faults c = None)"

definition reserved_ledger :: "proxy_api_key \<Rightarrow> string \<Rightarrow> nat \<Rightarrow> int \<Rightarrow> int \<Rightarrow> int \<Rightarrow> ledger \<Rightarrow> ledger" where
  "reserved_ledger key rid amount now day month lg =
     (let kd = (ak_id key, ''day'', day); km = (ak_id key, ''month'', month)
      in \<lparr> lg_periods = hm_insert km (add_hold amount (row_of lg km))
               (hm_insert kd (add_hold amount (row_of lg kd)) (lg_periods lg)),
           lg_requests = hm_insert rid
             \<lparr> rq_key = ak_id key, rq_day = day, rq_month = month, rq_reserved = int amount,
               rq_state = ''pending'', rq_actual = None, rq_updated = now \<rparr> (lg_requests lg) \<rparr>)"

lemma reserve_at_Inr:
  assumes ok: "ledger_ok lg"
  shows "reserve_at faults ms key rid amount now lg = (lg', Inr p) \<longleftrightarrow>
    (\<exists>day month. 1 \<le> amount \<and> amount \<le> MAX_TOKENS \<and> periods ms now = Inr (day, month) \<and> no_reserve_fault faults
       \<and> fits amount (ak_daily_token_limit key) (row_of lg (ak_id key, ''day'', day))
       \<and> fits amount (ak_monthly_token_limit key) (row_of lg (ak_id key, ''month'', month))
       \<and> hm_get (lg_requests lg) rid = None
       \<and> lg' = reserved_ledger key rid amount now day month lg
       \<and> p = \<lparr> qt_id = rid, qt_forwarded = False, qt_finished = False \<rparr>)"
proof -
  have s: "row_sane (row_of lg k)" for k using row_bounds [OF ok, of k] by (simp add: row_sane_def)
  then have s1: "row_sane (row_of (lg\<lparr>lg_periods := hm_insert (a, ''day'', x) r (lg_periods lg)\<rparr>) (b, ''month'', y))"
    for a b x y r by (simp add: row_of_insert)
  show ?thesis
  proof (cases "1 \<le> amount \<and> amount \<le> MAX_TOKENS")
    case False
    then show ?thesis by (auto simp: reserve_at_def)
  next
    case True
    then show ?thesis
      by (cases "periods ms now")
        (auto simp: reserve_at_def reserve_period_iff [OF s] reserve_period_iff [OF s1] row_of_insert
          no_reserve_fault_def reserved_ledger_def Let_def split: if_splits)
  qed
qed

lemma pending_insert_new:
  assumes "hm_get (lg_requests lg) rid = None"
  shows "pending_count (lg\<lparr>lg_requests := hm_insert rid q (lg_requests lg), lg_periods := ps\<rparr>) k
      = pending_count lg k + (if draws_on k q then 1 else 0)"
    "pending_sum (lg\<lparr>lg_requests := hm_insert rid q (lg_requests lg), lg_periods := ps\<rparr>) k
      = pending_sum lg k + (if draws_on k q then rq_reserved q else 0)"
  by (simp_all add: pending_count_def pending_sum_def hm_sum_new [OF assms])

lemma pending_update:
  assumes "hm_get (lg_requests lg) rid = Some q0"
  shows "pending_count (lg\<lparr>lg_requests := hm_insert rid q (lg_requests lg), lg_periods := ps\<rparr>) k
      = pending_count lg k - (if draws_on k q0 then 1 else 0) + (if draws_on k q then 1 else 0)"
    "pending_sum (lg\<lparr>lg_requests := hm_insert rid q (lg_requests lg), lg_periods := ps\<rparr>) k
      = pending_sum lg k - (if draws_on k q0 then rq_reserved q0 else 0) + (if draws_on k q then rq_reserved q else 0)"
  by (simp_all add: pending_count_def pending_sum_def hm_sum_update [OF assms])

lemma reserved_row:
  assumes "reserved_ledger key rid amount now day month lg = lg'"
  shows "row_of lg' k = (if k = (ak_id key, ''day'', day) \<or> k = (ak_id key, ''month'', month)
      then add_hold amount (row_of lg k) else row_of lg k)"
  using assms by (auto simp: reserved_ledger_def Let_def row_of_def hm_get_or_def)

lemma reserved_ok:
  assumes ok: "ledger_ok lg" and a: "1 \<le> amount" "amount \<le> MAX_TOKENS"
    and fd: "fits amount dl (row_of lg (ak_id key, ''day'', day))"
    and fm: "fits amount ml (row_of lg (ak_id key, ''month'', month))"
    and fresh: "hm_get (lg_requests lg) rid = None"
  shows "ledger_ok (reserved_ledger key rid amount now day month lg)"
proof -
  let ?lg = "reserved_ledger key rid amount now day month lg"
  let ?q = "\<lparr> rq_key = ak_id key, rq_day = day, rq_month = month, rq_reserved = int amount,
               rq_state = ''pending'', rq_actual = None, rq_updated = now \<rparr>"
  have l: "?lg = lg\<lparr>lg_requests := hm_insert rid ?q (lg_requests lg), lg_periods := lg_periods ?lg\<rparr>"
    by (simp add: reserved_ledger_def Let_def)
  have d: "draws_on k ?q \<longleftrightarrow> k = (ak_id key, ''day'', day) \<or> k = (ak_id key, ''month'', month)" for k
    by (cases k) (auto simp: draws_on_def)
  note pc = pending_insert_new [OF fresh, where q = ?q and ps = "lg_periods ?lg", folded l]
  have "row_ok ?lg k" for k
  proof -
    note b = row_bounds [OF ok, of k]
    show ?thesis
      using b fd fm
      by (auto simp: row_ok_def Let_def reserved_row [OF refl] pc d add_hold_def fits_def)
  qed
  moreover have "hm_ok (lg_periods ?lg)" "hm_ok (lg_requests ?lg)"
    using ok by (simp_all add: ledger_ok_def reserved_ledger_def Let_def)
  moreover have "request_ok q" if "hm_get (lg_requests ?lg) i = Some q" for i q
    using that ok a
    by (auto simp: reserved_ledger_def Let_def request_ok_def ledger_ok_def split: if_splits)
  ultimately show ?thesis unfolding ledger_ok_def by blast
qed

text \<open>A period row after a settlement.\<close>

definition settle_row :: "nat \<Rightarrow> nat \<Rightarrow> nat \<Rightarrow> bool \<Rightarrow> period_row \<Rightarrow> period_row" where
  "settle_row charged reserved hold complete' r =
     r\<lparr> pr_settled := min (int MAX_TOKENS) (pr_settled r + int charged),
        pr_held := min (int MAX_TOKENS) (pr_held r - int reserved + int hold),
        pr_pending := pr_pending r - 1,
        pr_uncertain := pr_uncertain r + (if complete' then 0 else 1) \<rparr>"

lemma settle_period_row:
  assumes "pr_pending (row_of lg k) \<noteq> 0"
  shows "row_of (settle_period charged reserved hold complete' k lg) k'
    = (if k' = k then settle_row charged reserved hold complete' (row_of lg k) else row_of lg k')"
  using assms
  by (auto simp: settle_period_def row_of_def hm_get_or_def zero_row_def settle_row_def split: option.splits)

lemma settle_period_frame:
  "lg_requests (settle_period charged reserved hold complete' k lg) = lg_requests lg"
  "hm_ok (lg_periods lg) \<Longrightarrow> hm_ok (lg_periods (settle_period charged reserved hold complete' k lg))"
  by (auto simp: settle_period_def split: option.splits)

lemma settle_effect:
  assumes ok: "ledger_ok lg" and s: "settle faults now rid actual complete' lg = (lg', res)"
  shows "lg' = lg \<or> (\<exists>q. hm_get (lg_requests lg) rid = Some q \<and> rq_state q = ''pending'' \<and> res = Inr ()
    \<and> (\<forall>k. row_of lg' k = (if draws_on k q
         then settle_row (settle_charged actual complete' (nat (rq_reserved q))) (nat (rq_reserved q))
                (settle_held actual complete' (nat (rq_reserved q))) complete' (row_of lg k)
         else row_of lg k))
    \<and> lg_requests lg' = hm_insert rid (q\<lparr> rq_state := if complete' then ''settled'' else ''held'',
          rq_actual := map_option (\<lambda>v. int (min v MAX_TOKENS)) actual, rq_updated := now \<rparr>) (lg_requests lg)
    \<and> hm_ok (lg_periods lg'))"
proof (cases "lg' = lg")
  case False
  then obtain q where q: "hm_get (lg_requests lg) rid = Some q" "rq_state q = ''pending''"
    using s by (auto simp: settle_def split: option.splits if_splits)
  have rq: "request_ok q" using ok q(1) unfolding ledger_ok_def by blast
  then have r: "i64_as_u64 (rq_reserved q) = nat (rq_reserved q)" by (simp add: i64_as_u64_exact request_ok_def)
  let ?r = "nat (rq_reserved q)"
  let ?c = "settle_charged actual complete' ?r" and ?h = "settle_held actual complete' ?r"
  let ?kd = "(rq_key q, ''day'', rq_day q)" and ?km = "(rq_key q, ''month'', rq_month q)"
  let ?lg1 = "settle_period ?c ?r ?h complete' ?kd lg"
  let ?lg2 = "settle_period ?c ?r ?h complete' ?km ?lg1"
  have pend: "pr_pending (row_of lg k) \<noteq> 0" if "draws_on k q" for k
  proof -
    have "(\<lambda>e. if draws_on k (snd e) then 1 else (0::int)) (rid, q)
        \<le> sum_list (map (\<lambda>e. if draws_on k (snd e) then 1 else 0) (lg_requests lg))"
      by (rule member_le_sum_list) (use map_of_SomeD [OF q(1)] in force)+
    then show ?thesis using that row_bounds(5) [OF ok, of k] by (simp add: pending_count_def)
  qed
  have d: "draws_on k q \<longleftrightarrow> k = ?kd \<or> k = ?km" for k
    using q(2) by (cases k) (auto simp: draws_on_def)
  have "pr_pending (row_of lg ?kd) \<noteq> 0" "pr_pending (row_of ?lg1 ?km) \<noteq> 0"
    using pend [of ?kd] pend [of ?km] d by (simp_all add: settle_period_row)
  then have rows: "row_of ?lg2 k = (if draws_on k q then settle_row ?c ?r ?h complete' (row_of lg k) else row_of lg k)" for k
    by (auto simp: settle_period_row d)
  have eq: "lg' = ?lg2\<lparr>lg_requests := hm_insert rid
      (q\<lparr> rq_state := if complete' then ''settled'' else ''held'',
          rq_actual := map_option (\<lambda>v. int (min v MAX_TOKENS)) actual, rq_updated := now \<rparr>) (lg_requests lg)\<rparr>"
    and "res = Inr ()"
    using s False q by (auto simp: settle_def Let_def r settle_period_frame split: option.splits)
  moreover have "hm_ok (lg_periods ?lg2)" using ok by (simp add: settle_period_frame ledger_ok_def)
  ultimately show ?thesis using rows q by simp
qed simp

lemma settle_ok:
  assumes ok: "ledger_ok lg" and s: "settle faults now rid actual complete' lg = (lg', res)"
  shows "ledger_ok lg'"
proof (cases "lg' = lg")
  case False
  with settle_effect [OF assms] obtain q where q: "hm_get (lg_requests lg) rid = Some q" "rq_state q = ''pending''"
    and rows: "\<And>k. row_of lg' k = (if draws_on k q
         then settle_row (settle_charged actual complete' (nat (rq_reserved q))) (nat (rq_reserved q))
                (settle_held actual complete' (nat (rq_reserved q))) complete' (row_of lg k)
         else row_of lg k)"
    and reqs: "lg_requests lg' = hm_insert rid (q\<lparr> rq_state := if complete' then ''settled'' else ''held'',
          rq_actual := map_option (\<lambda>v. int (min v MAX_TOKENS)) actual, rq_updated := now \<rparr>) (lg_requests lg)"
    and hm: "hm_ok (lg_periods lg')"
    by blast
  let ?q = "q\<lparr> rq_state := if complete' then ''settled'' else ''held'',
          rq_actual := map_option (\<lambda>v. int (min v MAX_TOKENS)) actual, rq_updated := now \<rparr>"
  have rq: "request_ok q" using ok q(1) unfolding ledger_ok_def by blast
  have l: "lg' = lg\<lparr>lg_requests := hm_insert rid ?q (lg_requests lg), lg_periods := lg_periods lg'\<rparr>"
    using reqs by simp
  have nd: "\<not> draws_on k ?q" for k by (cases k) (auto simp: draws_on_def)
  note pc = pending_update [OF q(1), where q = ?q and ps = "lg_periods lg'", folded l]
  have "row_ok lg' k" for k
    using row_bounds [OF ok, of k] rq
    by (auto simp: row_ok_def Let_def rows pc nd settle_row_def request_ok_def)
  moreover have "request_ok q'" if "hm_get (lg_requests lg') i = Some q'" for i q'
    using that ok rq reqs
    by (auto simp: request_ok_def ledger_ok_def split: if_splits)
  ultimately show ?thesis using ok hm reqs unfolding ledger_ok_def by simp
qed (use ok in simp)

text \<open>No settlement reports more tokens than its request reserved.\<close>

definition within_reservation :: "ledger \<Rightarrow> settlement \<Rightarrow> bool" where
  "within_reservation lg j = (case j of (rid, actual, complete') \<Rightarrow>
     (case (actual, hm_get (lg_requests lg) rid) of
        (Some a, Some q) \<Rightarrow> int a \<le> rq_reserved q
      | _ \<Rightarrow> True))"

lemma settle_spent:
  assumes ok: "ledger_ok lg" and s: "settle faults now rid actual complete' lg = (lg', res)"
    and w: "within_reservation lg (rid, actual, complete')"
  shows "spent lg' k \<le> spent lg k"
proof (cases "lg' = lg")
  case False
  with settle_effect [OF ok s] obtain q where q: "hm_get (lg_requests lg) rid = Some q"
    and rows: "\<And>k. row_of lg' k = (if draws_on k q
         then settle_row (settle_charged actual complete' (nat (rq_reserved q))) (nat (rq_reserved q))
                (settle_held actual complete' (nat (rq_reserved q))) complete' (row_of lg k)
         else row_of lg k)"
    by blast
  have "request_ok q" using ok q(1) unfolding ledger_ok_def by blast
  then have "int (settle_charged actual complete' (nat (rq_reserved q)))
      + int (settle_held actual complete' (nat (rq_reserved q))) \<le> rq_reserved q"
    using w q
    by (auto simp: settle_charged_def settle_held_def within_reservation_def request_ok_def split: option.splits)
  then show ?thesis using \<open>request_ok q\<close> by (auto simp: spent_def rows settle_row_def request_ok_def min_def)
qed simp

lemma pending_zero:
  assumes "ledger_ok lg" and "pending_count lg k = 0"
  shows "pending_sum lg k = 0"
proof -
  have "\<not> draws_on k (snd e)" if "e \<in> set (lg_requests lg)" for e
  proof
    assume "draws_on k (snd e)"
    then have "1 \<le> pending_count lg k"
      using member_le_sum_list [of 1 "map (\<lambda>e. if draws_on k (snd e) then 1 else (0::int)) (lg_requests lg)"] that
      by (force simp: pending_count_def)
    then show False using assms(2) by simp
  qed
  then have "map (\<lambda>e. if draws_on k (snd e) then rq_reserved (snd e) else 0) (lg_requests lg)
      = map (\<lambda>_. 0) (lg_requests lg)" by simp
  then show ?thesis unfolding pending_sum_def by (simp only: sum_list_0)
qed

lemma delete_expired_split:
  assumes ok: "hm_ok (lg_periods lg)" "hm_ok (lg_requests lg)"
    and p: "delete_expired cutoff month batch lg = (lg', again)"
  obtains D P where "lg_requests lg' = filter (\<lambda>e. fst e \<notin> D) (lg_requests lg)"
    "lg_periods lg' = filter (\<lambda>e. fst e \<notin> P) (lg_periods lg)"
    "\<And>e. e \<in> set (lg_requests lg) \<Longrightarrow> fst e \<in> D \<Longrightarrow> expired_request cutoff month (snd e)"
    "\<And>e. e \<in> set (lg_periods lg) \<Longrightarrow> fst e \<in> P \<Longrightarrow> expired_period cutoff month (lg_requests lg') e"
proof -
  define D where "D = set (dead_requests cutoff month batch (lg_requests lg))"
  define R where "R = filter (\<lambda>e. fst e \<notin> D) (lg_requests lg)"
  define P where "P = set (dead_periods cutoff month batch R (lg_periods lg))"
  have l: "lg_requests lg' = R" "lg_periods lg' = filter (\<lambda>e. fst e \<notin> P) (lg_periods lg)"
    using p by (auto simp: delete_expired_def Let_def D_def R_def P_def)
  have uniq: "e = e'" if "hm_ok m" "e \<in> set m" "e' \<in> set m" "fst e = fst e'" for e e' and m :: "('a \<times> 'b) list"
    using that by (auto simp: distinct_map inj_on_def)
  have "expired_request cutoff month (snd e)" if e: "e \<in> set (lg_requests lg)" "fst e \<in> D" for e
  proof -
    obtain e' where "fst e' = fst e" "e' \<in> set (lg_requests lg)" "expired_request cutoff month (snd e')"
      using e(2) by (auto simp: D_def dead_requests_def dest!: in_set_takeD)
    then show ?thesis using uniq [OF ok(2) e(1)] by metis
  qed
  moreover have "expired_period cutoff month R e" if e: "e \<in> set (lg_periods lg)" "fst e \<in> P" for e
  proof -
    obtain e' where "fst e' = fst e" "e' \<in> set (lg_periods lg)" "expired_period cutoff month R e'"
      using e(2) by (fastforce simp: P_def dead_periods_def dest!: in_set_takeD)
    then show ?thesis using uniq [OF ok(1) e(1)] by metis
  qed
  ultimately show thesis using l by (intro that [of D P]) (simp_all add: R_def)
qed

lemma delete_expired_ok:
  assumes ok: "ledger_ok lg" and p: "delete_expired cutoff month batch lg = (lg', again)"
  shows "ledger_ok lg' \<and> (\<forall>k. spent lg' k \<le> spent lg k)"
proof -
  have hm: "hm_ok (lg_periods lg)" "hm_ok (lg_requests lg)" using ok by (simp_all add: ledger_ok_def)
  obtain D P where reqs: "lg_requests lg' = filter (\<lambda>e. fst e \<notin> D) (lg_requests lg)"
    and pers: "lg_periods lg' = filter (\<lambda>e. fst e \<notin> P) (lg_periods lg)"
    and er: "\<And>e. e \<in> set (lg_requests lg) \<Longrightarrow> fst e \<in> D \<Longrightarrow> expired_request cutoff month (snd e)"
    and ep: "\<And>e. e \<in> set (lg_periods lg) \<Longrightarrow> fst e \<in> P \<Longrightarrow> expired_period cutoff month (lg_requests lg') e"
    by (rule delete_expired_split [OF hm p]) blast
  have nd: "\<not> draws_on k (snd e)" if "e \<in> set (lg_requests lg)" "fst e \<in> D" for e k
    using er [OF that] by (cases k) (auto simp: expired_request_def draws_on_def)
  have pc: "pending_count lg' k = pending_count lg k" "pending_sum lg' k = pending_sum lg k" for k
    unfolding pending_count_def pending_sum_def reqs by (rule hm_sum_filter, use nd in auto)+
  have row: "row_of lg' k = row_of lg k \<or> row_of lg' k = zero_row \<and> pending_count lg k = 0" for k
  proof (cases "k \<in> P \<and> hm_get (lg_periods lg) k \<noteq> None")
    case True
    then obtain r where r: "hm_get (lg_periods lg) k = Some r" by auto
    then have "pr_pending r = 0" using ep [of "(k, r)"] True map_of_SomeD [OF r]
      by (auto simp: expired_period_def split: prod.splits)
    then show ?thesis
      using True r row_bounds(5) [OF ok, of k] by (simp add: row_of_def hm_get_or_def pers hm_get_drop_keys)
  next
    case False
    then show ?thesis by (auto simp: row_of_def hm_get_or_def pers hm_get_drop_keys)
  qed
  have "row_ok lg' k \<and> spent lg' k \<le> spent lg k" for k
    using row [of k] row_bounds [OF ok, of k] pending_zero [OF ok, of k] pc [of k]
    by (auto simp: row_ok_def Let_def zero_row_def spent_def)
  moreover have "request_ok q" if "hm_get (lg_requests lg') i = Some q" for i q
  proof -
    have "hm_get (lg_requests lg) i = Some q" using that by (simp add: reqs hm_get_drop_keys split: if_splits)
    then show ?thesis using ok unfolding ledger_ok_def by blast
  qed
  moreover have "hm_ok (lg_periods lg')" "hm_ok (lg_requests lg')"
    using hm by (simp_all add: reqs pers distinct_map_filter)
  ultimately show ?thesis unfolding ledger_ok_def by blast
qed

lemma prune_ok:
  assumes "ledger_ok lg" and "prune faults ms now batch lg = (lg', res)"
  shows "ledger_ok lg' \<and> (\<forall>k. spent lg' k \<le> spent lg k)"
proof -
  have "lg' = lg \<or> (\<exists>cutoff month again. delete_expired cutoff month batch lg = (lg', again))"
    using assms(2) by (auto simp: prune_def split: sum.splits prod.splits option.splits)
  then show ?thesis using delete_expired_ok assms(1) by blast
qed

section \<open>The ledger under any interleaving\<close>

text \<open>
  The ledger with the live permits and the settlements handed to workers.  Reservations,
  settlements and maintenance run as transactions in any order; \<open>qs_crash\<close> loses everything
  in memory and keeps the durable ledger.  With \<open>honest\<close> no settlement reports more than its
  request reserved.  \<open>limits\<close> gives the daily and monthly limit of each key.
\<close>

type_synonym quota_sys = "ledger \<times> quota_permit list \<times> settlement list"

inductive quota_step :: "bool \<Rightarrow> (string \<Rightarrow> nat \<times> nat) \<Rightarrow> quota_sys \<Rightarrow> quota_sys \<Rightarrow> bool"
  for honest :: bool and limits :: "string \<Rightarrow> nat \<times> nat" where
  qs_reserve: "reserve_at faults ms key rid amount now lg = (lg', Inr p) \<Longrightarrow>
    limits (ak_id key) = (ak_daily_token_limit key, ak_monthly_token_limit key) \<Longrightarrow>
    quota_step honest limits (lg, ps, js) (lg', p # ps, js)"
| qs_refuse: "reserve_at faults ms key rid amount now lg = (lg', Inl e) \<Longrightarrow>
    quota_step honest limits (lg, ps, js) (lg', ps, js)"
| qs_forward: "p \<in> set ps \<Longrightarrow>
    quota_step honest limits (lg, ps, js) (lg, permit_forwarded p # remove1 p ps, js)"
| qs_finish: "p \<in> set ps \<Longrightarrow> permit_finish p rec = (p', j) \<Longrightarrow>
    quota_step honest limits (lg, ps, js) (lg, remove1 p ps, j # js)"
| qs_drop: "p \<in> set ps \<Longrightarrow> permit_drop_q p = Some j \<Longrightarrow>
    quota_step honest limits (lg, ps, js) (lg, remove1 p ps, j # js)"
| qs_settle: "j \<in> set js \<Longrightarrow> (honest \<Longrightarrow> within_reservation lg j) \<Longrightarrow>
    quota_step honest limits (lg, ps, js) (run_settlement faults now j lg, ps, remove1 j js)"
| qs_prune: "prune faults ms now batch lg = (lg', res) \<Longrightarrow>
    quota_step honest limits (lg, ps, js) (lg', ps, js)"
| qs_crash: "quota_step honest limits (lg, ps, js) (lg, [], [])"

definition quota_init :: "quota_sys \<Rightarrow> bool" where
  "quota_init s \<longleftrightarrow> s = (empty_ledger, [], [])"

definition limit_of :: "(string \<Rightarrow> nat \<times> nat) \<Rightarrow> period_key \<Rightarrow> nat" where
  "limit_of limits k = (case k of (key, kind, start) \<Rightarrow>
     if kind = ''day'' then fst (limits key) else if kind = ''month'' then snd (limits key) else 0)"

definition quota_inv :: "bool \<Rightarrow> (string \<Rightarrow> nat \<times> nat) \<Rightarrow> quota_sys \<Rightarrow> bool" where
  "quota_inv honest limits s = (case s of (lg, ps, js) \<Rightarrow>
     ledger_ok lg \<and> (honest \<longrightarrow> (\<forall>k. 0 < limit_of limits k \<longrightarrow> spent lg k \<le> int (limit_of limits k))))"

lemma quota_inv_mono:
  "quota_inv honest limits (lg, ps, js) \<Longrightarrow> ledger_ok lg' \<Longrightarrow> (honest \<Longrightarrow> \<forall>k. spent lg' k \<le> spent lg k) \<Longrightarrow>
    quota_inv honest limits (lg', ps', js')"
  unfolding quota_inv_def prod.case by (meson order_trans)

lemma reserve_refused: "reserve_at faults ms key rid amount now lg = (lg', Inl e) \<Longrightarrow> lg' = lg"
  by (auto simp: reserve_at_def split: sum.splits prod.splits if_splits)

lemma reserve_inv:
  assumes inv: "quota_inv honest limits (lg, ps, js)"
    and r: "reserve_at faults ms key rid amount now lg = (lg', Inr p)"
    and l: "limits (ak_id key) = (ak_daily_token_limit key, ak_monthly_token_limit key)"
  shows "quota_inv honest limits (lg', ps', js')"
proof -
  have ok: "ledger_ok lg" using inv by (simp add: quota_inv_def)
  obtain day month where a: "1 \<le> amount" "amount \<le> MAX_TOKENS"
    and f: "fits amount (ak_daily_token_limit key) (row_of lg (ak_id key, ''day'', day))"
       "fits amount (ak_monthly_token_limit key) (row_of lg (ak_id key, ''month'', month))"
    and fresh: "hm_get (lg_requests lg) rid = None"
    and lg': "lg' = reserved_ledger key rid amount now day month lg"
    using r unfolding reserve_at_Inr [OF ok] by blast
  have "spent lg' k \<le> int (limit_of limits k)" if "honest" "0 < limit_of limits k" for k
  proof -
    have "spent lg k \<le> int (limit_of limits k)" using inv that unfolding quota_inv_def prod.case by blast
    then show ?thesis
      using f l that(2)
      by (auto simp: spent_def reserved_row [OF lg' [symmetric]] add_hold_def fits_def limit_of_def)
  qed
  then show ?thesis using reserved_ok [OF ok a f fresh] lg' by (simp add: quota_inv_def)
qed

lemma quota_step_inv: "quota_step honest limits s t \<Longrightarrow> quota_inv honest limits s \<Longrightarrow> quota_inv honest limits t"
proof (induction rule: quota_step.induct)
  case (qs_settle j js lg ps faults now)
  obtain rid actual c where j: "j = (rid, actual, c)" by (cases j)
  obtain lg' res where s: "settle faults now rid actual c lg = (lg', res)" by fastforce
  have ok: "ledger_ok lg" using qs_settle.prems by (simp add: quota_inv_def)
  have "quota_inv honest limits (lg', ps, remove1 j js)"
    by (rule quota_inv_mono [OF qs_settle.prems settle_ok [OF ok s]])
      (use settle_spent [OF ok s] qs_settle.hyps j in blast)
  then show ?case using s j by (simp add: run_settlement_def)
next
  case (qs_prune faults ms now batch lg lg' res ps js)
  have ok: "ledger_ok lg" using qs_prune.prems by (simp add: quota_inv_def)
  then show ?case using prune_ok [OF ok qs_prune.hyps] quota_inv_mono [OF qs_prune.prems] by blast
next
  case (qs_reserve faults ms key rid amount now lg lg' p ps js)
  then show ?case using reserve_inv by blast
qed (auto dest: reserve_refused simp: quota_inv_def)

interpretation quota: invariant_system quota_init "quota_step honest limits" "quota_inv honest limits"
  for honest limits
proof
  show "quota_init s \<Longrightarrow> quota_inv honest limits s" for s
    using empty_ledger_ok
    by (auto simp: quota_init_def quota_inv_def spent_def empty_ledger_def row_of_def hm_get_or_def zero_row_def)
  show "quota_step honest limits s t \<Longrightarrow> quota_inv honest limits s \<Longrightarrow> quota_inv honest limits t" for s t
    by (rule quota_step_inv)
qed

section \<open>Properties\<close>

definition demo_key :: proxy_api_key where
  "demo_key = (proxy_api_key_default ''k'')\<lparr>ak_daily_token_limit := 100\<rparr>"

definition demo_ledger :: ledger where
  "demo_ledger = fst (reserve_at (\<lambda>_. None) (\<lambda>_. Inr 0) demo_key ''r1'' 60 0 empty_ledger)"

definition demo_permit_q :: quota_permit where
  "demo_permit_q = \<lparr> qt_id = ''r1'', qt_forwarded = False, qt_finished = False \<rparr>"

lemmas quota_demo_defs = demo_ledger_def demo_key_def demo_permit_q_def empty_ledger_def reserve_at_def
  reserve_period_def periods_def period_def proxy_api_key_default_def MAX_TOKENS_def DAY_MS_def
  sat_add_def DEFAULT_QUOTA_OUTPUT_TOKENS_def

lemma demo_reserved:
  "reserve_at (\<lambda>_. None) (\<lambda>_. Inr 0) demo_key ''r1'' 60 0 empty_ledger = (demo_ledger, Inr demo_permit_q)"
  by (simp add: quota_demo_defs)

lemma quota_demo_reach:
  "reach quota_init (quota_step True (\<lambda>_. (100, 0))) (demo_ledger, [demo_permit_q], [])"
proof -
  have "reach quota_init (quota_step True (\<lambda>_. (100, 0))) (empty_ledger, [], [])"
    by (rule reach_init) (simp add: quota_init_def)
  then show ?thesis
    by (rule reach_step) (rule qs_reserve [OF demo_reserved], simp add: demo_key_def proxy_api_key_default_def)
qed

text \<open>
  C12. Whatever the order of reservations, settlements, failures, maintenance and crashes, the
  ledger accounts for every reservation: the pending counter of a day or month is the number
  of pending requests that draw on it, the held balance covers the sum of their
  reservations, and no balance is negative or above \<open>MAX_TOKENS\<close>.
\<close>

theorem ledger_accounts:
  assumes "reach quota_init (quota_step honest limits) (lg, ps, js)"
  shows "pr_pending (row_of lg k) = pending_count lg k \<and> pending_sum lg k \<le> pr_held (row_of lg k)
    \<and> 0 \<le> pr_held (row_of lg k) \<and> pr_held (row_of lg k) \<le> int MAX_TOKENS
    \<and> 0 \<le> pr_settled (row_of lg k) \<and> pr_settled (row_of lg k) \<le> int MAX_TOKENS"
proof -
  have "ledger_ok lg" using quota.reach_inv [OF assms] by (simp add: quota_inv_def)
  then show ?thesis using row_bounds by blast
qed

theorem ledger_accounts_witness:
  "pr_pending (row_of demo_ledger (''k'', ''day'', 0)) = pending_count demo_ledger (''k'', ''day'', 0)"
  using ledger_accounts [OF quota_demo_reach] by blast

text \<open>
  C13. A hard quota is never exceeded: as long as no upstream reports more tokens than its request
  reserved, settled plus held tokens of a key stay within its daily and its monthly limit in
  every reachable state, across failures, uncertain outcomes, maintenance and crashes.
\<close>

theorem quota_never_exceeded:
  assumes "reach quota_init (quota_step True limits) (lg, ps, js)"
  shows "(0 < fst (limits key) \<longrightarrow> spent lg (key, ''day'', start) \<le> int (fst (limits key)))
    \<and> (0 < snd (limits key) \<longrightarrow> spent lg (key, ''month'', start) \<le> int (snd (limits key)))"
proof -
  have l: "0 < limit_of limits k \<Longrightarrow> spent lg k \<le> int (limit_of limits k)" for k
    using quota.reach_inv [OF assms] unfolding quota_inv_def prod.case by blast
  show ?thesis using l [of "(key, ''day'', start)"] l [of "(key, ''month'', start)"] by (simp add: limit_of_def)
qed

theorem quota_never_exceeded_witness:
  "reach quota_init (quota_step True (\<lambda>_. (100, 0))) (demo_ledger, [demo_permit_q], [])
    \<and> spent demo_ledger (''k'', ''day'', 0) \<le> 100"
  using quota_never_exceeded [OF quota_demo_reach, of "''k''" 0] quota_demo_reach by simp

text \<open>
  C14. \<open>reserve_at\<close> grants exactly when the amount is metered, the timestamp is valid, no database
  call fails, the request id is new and both periods have room; it then holds the amount in
  both periods.  In every other case it fails closed: the ledger is unchanged.
\<close>

theorem reserve_at_correct:
  assumes "reach quota_init (quota_step honest limits) (lg, ps, js)"
  shows "((\<exists>lg' p. reserve_at faults ms key rid amount now lg = (lg', Inr p)) \<longleftrightarrow>
      (\<exists>day month. 1 \<le> amount \<and> amount \<le> MAX_TOKENS \<and> periods ms now = Inr (day, month) \<and> no_reserve_fault faults
         \<and> hm_get (lg_requests lg) rid = None
         \<and> fits amount (ak_daily_token_limit key) (row_of lg (ak_id key, ''day'', day))
         \<and> fits amount (ak_monthly_token_limit key) (row_of lg (ak_id key, ''month'', month))))
    \<and> (\<forall>lg' p. reserve_at faults ms key rid amount now lg = (lg', Inr p) \<longrightarrow>
         (\<exists>day month. periods ms now = Inr (day, month)
            \<and> (\<forall>k. row_of lg' k = (if k = (ak_id key, ''day'', day) \<or> k = (ak_id key, ''month'', month)
                                 then add_hold amount (row_of lg k) else row_of lg k))))
    \<and> (\<forall>lg' e. reserve_at faults ms key rid amount now lg = (lg', Inl e) \<longrightarrow> lg' = lg)"
proof -
  have ok: "ledger_ok lg" using quota.reach_inv [OF assms] by (simp add: quota_inv_def)
  show ?thesis
    unfolding reserve_at_Inr [OF ok] using reserve_refused reserved_row [OF refl] by (intro conjI allI impI) blast+
qed

theorem reserve_at_correct_witness:
  "\<exists>lg' p. reserve_at (\<lambda>_. None) (\<lambda>_. Inr 0) demo_key ''r2'' 40 0 demo_ledger = (lg', Inr p)"
proof -
  have "fits 40 (ak_daily_token_limit demo_key) (row_of demo_ledger (ak_id demo_key, ''day'', 0))"
    "fits 40 (ak_monthly_token_limit demo_key) (row_of demo_ledger (ak_id demo_key, ''month'', 0))"
    "hm_get (lg_requests demo_ledger) ''r2'' = None"
    by (simp_all add: fits_def row_of_def hm_get_or_def quota_demo_defs)
  then show ?thesis
    using reserve_at_correct [OF quota_demo_reach, of "\<lambda>_. None" "\<lambda>_. Inr 0" demo_key "''r2''" 40 0]
    by (auto simp: periods_def no_reserve_fault_def MAX_TOKENS_def)
qed

text \<open>
  Settling is idempotent: a second settlement of a request, by the permit's drop, a delayed
  worker or with different numbers, leaves the ledger as it is and reports success unless the
  database fails before the row is read; a settlement that fails keeps the reservation.
\<close>

theorem settle_idempotent:
  assumes "settle faults now rid actual complete' lg = (lg', Inr ())"
  shows "fst (settle faults' now' rid actual2 complete2 lg') = lg'
    \<and> (find_fault faults' [DbOpen, DbBegin, DbReadRequest] = None \<longrightarrow>
         settle faults' now' rid actual2 complete2 lg' = (lg', Inr ()))
    \<and> (\<forall>q. hm_get (lg_requests lg') rid = Some q \<longrightarrow> rq_state q \<noteq> ''pending'')
    \<and> (\<forall>e lg2. settle faults now rid actual complete' lg = (lg2, Inl e) \<longrightarrow> lg2 = lg)"
proof -
  have t: "rq_state q \<noteq> ''pending''" if "hm_get (lg_requests lg') rid = Some q" for q
    using assms that by (auto simp: settle_def Let_def split: option.splits if_splits)
  then have "settle faults' now' rid actual2 complete2 lg'
      = (case find_fault faults' [DbOpen, DbBegin, DbReadRequest] of Some e \<Rightarrow> (lg', Inl e) | None \<Rightarrow> (lg', Inr ()))"
    by (auto simp: settle_def split: option.splits)
  then show ?thesis using t assms by (auto split: option.splits)
qed

lemma no_fault [simp]: "find_fault (\<lambda>_. None) cs = None"
  by (simp add: find_fault_def find_None_iff split: option.splits)

theorem settle_idempotent_witness:
  "fst (settle (\<lambda>_. None) 9 ''r1'' (Some 99) False (fst (settle (\<lambda>_. None) 5 ''r1'' (Some 10) True demo_ledger)))
    = fst (settle (\<lambda>_. None) 5 ''r1'' (Some 10) True demo_ledger)"
proof -
  obtain lg' res where s: "settle (\<lambda>_. None) 5 ''r1'' (Some 10) True demo_ledger = (lg', res)" by fastforce
  then have "res = Inr ()" by (auto simp: settle_def Let_def split: option.splits if_splits)
  then show ?thesis using settle_idempotent [of "\<lambda>_. None" 5 "''r1''" "Some 10" True demo_ledger lg'] s by simp
qed

text \<open>
  A reservation that is never forwarded is refunded in full: after \<open>reserve_at\<close> grants a permit
  and the permit is dropped without \<open>forwarded\<close>, running its settlement gives every period
  back its settled, held and pending balance.
\<close>

theorem unused_reservation_refunded:
  assumes "reach quota_init (quota_step honest limits) (lg, ps, js)"
    and "reserve_at faults ms key rid amount now lg = (lg1, Inr p)"
    and "permit_drop_q p = Some j"
  shows "row_of (run_settlement (\<lambda>_. None) now' j lg1) k = row_of lg k"
proof -
  have ok: "ledger_ok lg" using quota.reach_inv [OF assms(1)] by (simp add: quota_inv_def)
  obtain day month where a: "1 \<le> amount" "amount \<le> MAX_TOKENS"
    and f: "fits amount (ak_daily_token_limit key) (row_of lg (ak_id key, ''day'', day))"
       "fits amount (ak_monthly_token_limit key) (row_of lg (ak_id key, ''month'', month))"
    and fresh: "hm_get (lg_requests lg) rid = None"
    and lg1: "lg1 = reserved_ledger key rid amount now day month lg"
    and p: "p = \<lparr> qt_id = rid, qt_forwarded = False, qt_finished = False \<rparr>"
    using assms(2) unfolding reserve_at_Inr [OF ok] by blast
  have j: "j = (rid, Some 0, True)" using assms(3) p by (simp add: permit_drop_q_def)
  have ok1: "ledger_ok lg1" using reserved_ok [OF ok a f fresh] lg1 by simp
  let ?q = "\<lparr> rq_key = ak_id key, rq_day = day, rq_month = month, rq_reserved = int amount,
               rq_state = ''pending'', rq_actual = None, rq_updated = now \<rparr>"
  have q: "hm_get (lg_requests lg1) rid = Some ?q" by (simp add: lg1 reserved_ledger_def Let_def)
  obtain lg2 res where s: "settle (\<lambda>_. None) now' rid (Some 0) True lg1 = (lg2, res)" by fastforce
  have "lg_requests lg2 \<noteq> lg_requests lg1"
  proof
    assume e: "lg_requests lg2 = lg_requests lg1"
    have "hm_get (lg_requests lg2) rid = Some (?q\<lparr>rq_state := ''settled'', rq_actual := Some 0, rq_updated := now'\<rparr>)"
      using s q by (auto simp: settle_def Let_def)
    then show False using q e by simp
  qed
  then have "lg2 \<noteq> lg1" by auto
  then have rows: "row_of lg2 k = (if draws_on k ?q
         then settle_row (settle_charged (Some 0) True amount) amount (settle_held (Some 0) True amount) True (row_of lg1 k)
         else row_of lg1 k)"
    using settle_effect [OF ok1 s] q by (auto simp del: split_paired_All)
  have d: "draws_on k ?q \<longleftrightarrow> k = (ak_id key, ''day'', day) \<or> k = (ak_id key, ''month'', month)"
    by (cases k) (auto simp: draws_on_def)
  have "row_of lg2 k = row_of lg k"
    unfolding rows d reserved_row [OF lg1 [symmetric]]
    using row_bounds(1-4) [OF ok, of k]
    by (auto simp: settle_row_def add_hold_def settle_charged_def settle_held_def min_def)
  then show ?thesis using s j by (simp add: run_settlement_def)
qed

theorem unused_reservation_refunded_witness:
  "row_of (run_settlement (\<lambda>_. None) 7 (''r1'', Some 0, True) demo_ledger) (''k'', ''day'', 0)
    = row_of empty_ledger (''k'', ''day'', 0)"
proof -
  have "reach quota_init (quota_step True (\<lambda>_. (0, 0))) (empty_ledger, [], [])"
    by (rule reach_init) (simp add: quota_init_def)
  then show ?thesis
    using unused_reservation_refunded [OF _ demo_reserved, of True "\<lambda>_. (0, 0)" "[]" "[]" "(''r1'', Some 0, True)"]
    by (simp add: permit_drop_q_def demo_permit_q_def)
qed

text \<open>
  Maintenance is safe: whatever the batch, \<open>prune\<close> never deletes a pending request or one
  that is younger than the retention window, and never touches a period that is current, has
  pending reservations or is still referenced by a surviving request; what survives is
  unchanged.
\<close>

theorem prune_safe:
  assumes "reach quota_init (quota_step honest limits) (lg, ps, js)"
    and "prune faults ms now batch lg = (lg', res)" and "periods ms now = Inr (day, month)"
  shows "(\<forall>rid q. hm_get (lg_requests lg) rid = Some q \<longrightarrow>
        \<not> expired_request (prune_cutoff day) month q \<longrightarrow> hm_get (lg_requests lg') rid = Some q)
    \<and> (\<forall>k r. hm_get (lg_periods lg) k = Some r \<longrightarrow>
        \<not> expired_period (prune_cutoff day) month (lg_requests lg') (k, r) \<longrightarrow> hm_get (lg_periods lg') k = Some r)
    \<and> (\<forall>rid q. hm_get (lg_requests lg') rid = Some q \<longrightarrow> hm_get (lg_requests lg) rid = Some q)
    \<and> (\<forall>k r. hm_get (lg_periods lg') k = Some r \<longrightarrow> hm_get (lg_periods lg) k = Some r)"
proof (cases "lg' = lg")
  case False
  have hm: "hm_ok (lg_periods lg)" "hm_ok (lg_requests lg)"
    using quota.reach_inv [OF assms(1)] by (simp_all add: quota_inv_def ledger_ok_def)
  obtain again where d: "delete_expired (prune_cutoff day) month batch lg = (lg', again)"
    using assms(2,3) False by (auto simp: prune_def split: option.splits prod.splits)
  show ?thesis
    by (rule delete_expired_split [OF hm d])
      (auto simp: hm_get_drop_keys dest: map_of_SomeD split: if_splits)
qed simp

theorem prune_safe_witness:
  "hm_get (lg_requests (fst (prune (\<lambda>_. None) (\<lambda>t. Inr t) (10 ^ 12) 1000 demo_ledger))) ''r1'' \<noteq> None"
proof -
  obtain lg' res where p: "prune (\<lambda>_. None) (\<lambda>t. Inr t) (10 ^ 12) 1000 demo_ledger = (lg', res)" by fastforce
  obtain q where q: "hm_get (lg_requests demo_ledger) ''r1'' = Some q" "rq_state q = ''pending''"
    by (simp add: quota_demo_defs)
  have "\<not> expired_request (prune_cutoff day) month q" for day month using q(2) by (simp add: expired_request_def)
  moreover have "periods (\<lambda>t. Inr t) (10 ^ 12) = Inr (10 ^ 12 div DAY_MS * DAY_MS, 10 ^ 12)"
    unfolding periods_def by (simp only: sum.case)
  ultimately have "hm_get (lg_requests lg') ''r1'' = Some q"
    using prune_safe [OF quota_demo_reach p] q(1) by blast
  then show ?thesis using p by simp
qed

lemma dead_requests_all:
  assumes "length (dead_requests cutoff month batch reqs) \<noteq> batch" and "e \<in> set reqs" "expired_request cutoff month (snd e)"
  shows "fst e \<in> set (dead_requests cutoff month batch reqs)"
proof -
  let ?xs = "sort_key (\<lambda>e. rq_day (snd e)) (filter (\<lambda>e. expired_request cutoff month (snd e)) reqs)"
  have "take batch ?xs = ?xs" using assms(1) by (simp add: dead_requests_def min_def split: if_splits)
  then show ?thesis using assms(2,3) by (simp add: dead_requests_def)
qed

lemma dead_periods_all:
  assumes "length (dead_periods cutoff month batch reqs pers) \<noteq> batch" and "e \<in> set pers" "expired_period cutoff month reqs e"
  shows "fst e \<in> set (dead_periods cutoff month batch reqs pers)"
proof -
  let ?xs = "filter (expired_period cutoff month reqs) pers"
  have "take batch ?xs = ?xs" using assms(1) by (simp add: dead_periods_def min_def split: if_splits)
  then show ?thesis using assms(2,3) by (simp add: dead_periods_def)
qed

text \<open>
  Maintenance finishes its work: a pass that reports that no further pass is needed has
  deleted every expired request and every expired period, and every pass that asks for
  another one has deleted at least \<open>batch\<close> rows, so repeating it ends.
\<close>

theorem prune_complete:
  assumes "reach quota_init (quota_step honest limits) (lg, ps, js)"
    and "prune faults ms now batch lg = (lg', Inr again)" and "periods ms now = Inr (day, month)"
  shows "(\<not> again \<longrightarrow> (\<forall>e \<in> set (lg_requests lg'). \<not> expired_request (prune_cutoff day) month (snd e))
           \<and> (\<forall>e \<in> set (lg_periods lg'). \<not> expired_period (prune_cutoff day) month (lg_requests lg') e))
    \<and> (again \<longrightarrow> length (lg_requests lg') + length (lg_periods lg') + batch
           \<le> length (lg_requests lg) + length (lg_periods lg))"
proof -
  have hm: "hm_ok (lg_periods lg)" "hm_ok (lg_requests lg)"
    using quota.reach_inv [OF assms(1)] by (simp_all add: quota_inv_def ledger_ok_def)
  let ?c = "prune_cutoff day"
  let ?D = "dead_requests ?c month batch (lg_requests lg)"
  let ?P = "dead_periods ?c month batch (lg_requests lg') (lg_periods lg)"
  have reqs: "lg_requests lg' = filter (\<lambda>e. fst e \<notin> set ?D) (lg_requests lg)"
    and pers: "lg_periods lg' = filter (\<lambda>e. fst e \<notin> set ?P) (lg_periods lg)"
    and ag: "again \<longleftrightarrow> length ?D = batch \<or> length ?P = batch"
    using assms(2,3) by (auto simp: prune_def delete_expired_def Let_def split: option.splits)
  have drop: "length (filter (\<lambda>e. fst e \<notin> set ks) m) + length ks = length m"
    if "distinct ks" "set ks \<subseteq> fst ` set m" "hm_ok m" for ks and m :: "('a \<times> 'b) list"
  proof -
    have "length ks = card (set ks)" using that(1) by (simp add: distinct_card)
    also have "set ks = fst ` set (filter (\<lambda>e. fst e \<in> set ks) m)" using that(2) by auto
    also have "card \<dots> = length (filter (\<lambda>e. fst e \<in> set ks) m)"
      using that(3) by (metis distinct_card distinct_map_filter length_map set_map)
    finally show ?thesis using sum_length_filter_compl [of "\<lambda>e. fst e \<in> set ks" m] by simp
  qed
  have "distinct ?D"
  proof -
    have "distinct (map fst (sort_key (\<lambda>e. rq_day (snd e)) (filter (\<lambda>e. expired_request ?c month (snd e)) (lg_requests lg))))"
      using hm(2) by (auto simp: distinct_map inj_on_def)
    then show ?thesis by (simp add: dead_requests_def take_map [symmetric] distinct_take)
  qed
  moreover have "distinct ?P"
    using distinct_map_filter [OF hm(1)] by (simp add: dead_periods_def take_map [symmetric] distinct_take)
  moreover have "set ?D \<subseteq> fst ` set (lg_requests lg)" "set ?P \<subseteq> fst ` set (lg_periods lg)"
    by (auto simp: dead_requests_def dead_periods_def dest!: in_set_takeD)
  ultimately have "length (lg_requests lg') + length ?D = length (lg_requests lg)"
    "length (lg_periods lg') + length ?P = length (lg_periods lg)"
    using drop [of ?D "lg_requests lg", folded reqs] drop [of ?P "lg_periods lg", folded pers] hm by blast+
  then show ?thesis
    using ag dead_requests_all [of ?c month batch "lg_requests lg"]
      dead_periods_all [of ?c month batch "lg_requests lg'" "lg_periods lg"]
    by (auto simp: reqs pers)
qed

theorem prune_complete_witness:
  "\<not> snd (delete_expired 0 0 5 demo_ledger)
    \<and> list_all (\<lambda>e. \<not> expired_request (prune_cutoff 0) 0 (snd e))
         (lg_requests (fst (prune (\<lambda>_. None) (\<lambda>t. Inr 0) 0 5 demo_ledger)))"
proof -
  have q: "\<not> expired_request c 0 (snd e)" if "e \<in> set (lg_requests demo_ledger)" for c e
    using that by (simp add: quota_demo_defs expired_request_def)
  have pr: "\<not> expired_period c 0 reqs e" if "e \<in> set (lg_periods demo_ledger)" for c e reqs
    using that by (auto simp: quota_demo_defs expired_period_def)
  have d: "dead_requests c 0 5 (lg_requests demo_ledger) = []" for c
    using q by (simp add: dead_requests_def filter_empty_conv)
  have d2: "dead_periods c 0 5 reqs (lg_periods demo_ledger) = []" for c reqs
    using pr by (simp add: dead_periods_def filter_empty_conv)
  have n: "\<not> snd (delete_expired c 0 5 demo_ledger)" for c by (simp add: delete_expired_def Let_def d d2)
  have dm: "periods (\<lambda>t. Inr 0) 0 = Inr (0, 0)" by (simp add: periods_def)
  obtain lg' where p: "prune (\<lambda>_. None) (\<lambda>t. Inr 0) 0 5 demo_ledger = (lg', Inr False)"
    using n [of "prune_cutoff 0"] by (cases "delete_expired (prune_cutoff 0) 0 5 demo_ledger") (simp add: prune_def dm)
  show ?thesis using prune_complete [OF quota_demo_reach p dm] n p by (simp add: list_all_iff)
qed

end
