(* ===== verification/Accumulation.thy ===== *)
theory Accumulation
  imports Router_Prelude "HOL-Library.Multiset"
begin

text \<open>
  Accumulated statistics: what it takes of an addition so that rows may be added in any order and
  grouped in any way (locale \<open>accumulation\<close>), and the \<open>BTreeMap\<close> of the reports, which adds
  every row to the group of its key.
\<close>

section \<open>Accumulation\<close>

definition accumulate :: "('a \<Rightarrow> 'a \<Rightarrow> 'a) \<Rightarrow> 'a \<Rightarrow> 'a list \<Rightarrow> 'a" where
  "accumulate add zero xs = fold (\<lambda>x s. add s x) xs zero"

lemma accumulate_simps [simp]:
  "accumulate add zero [] = zero" "accumulate add zero (xs @ [x]) = add (accumulate add zero xs) x"
  by (simp_all add: accumulate_def)

text \<open>Saturating sums satisfy these laws on all values, sums that need well-formed operands on \<open>ok\<close>.\<close>

locale accumulation =
  fixes add :: "'a \<Rightarrow> 'a \<Rightarrow> 'a" and zero :: 'a and ok :: "'a \<Rightarrow> bool"
  assumes add_assoc: "ok a \<Longrightarrow> ok b \<Longrightarrow> ok c \<Longrightarrow> add (add a b) c = add a (add b c)"
    and add_commute: "ok a \<Longrightarrow> ok b \<Longrightarrow> add a b = add b a"
    and zero_zero: "add zero zero = zero"
    and ok_zero: "ok zero"
    and ok_add: "ok a \<Longrightarrow> ok b \<Longrightarrow> ok (add a b)"
begin

lemma ok_accumulate: "list_all ok xs \<Longrightarrow> ok (accumulate add zero xs)"
  by (induction xs rule: rev_induct) (auto simp: ok_zero ok_add)

lemma zero_accumulate: "list_all ok xs \<Longrightarrow> add zero (accumulate add zero xs) = accumulate add zero xs"
proof (induction xs rule: rev_induct)
  case Nil
  then show ?case by (simp add: zero_zero)
next
  case (snoc x xs)
  then show ?case using add_assoc [of zero "accumulate add zero xs" x] by (simp add: ok_zero ok_accumulate)
qed

lemma accumulate_append:
  assumes "list_all ok xs" "list_all ok ys"
  shows "accumulate add zero (xs @ ys) = add (accumulate add zero xs) (accumulate add zero ys)"
  using assms(2)
proof (induction ys rule: rev_induct)
  case Nil
  then show ?case
    using zero_accumulate [OF assms(1)] add_commute [OF ok_zero ok_accumulate [OF assms(1)]] by simp
next
  case (snoc y ys)
  have "accumulate add zero (xs @ ys @ [y]) = add (accumulate add zero (xs @ ys)) y"
    by (metis accumulate_simps(2) append.assoc)
  then show ?case
    using snoc add_assoc [of "accumulate add zero xs" "accumulate add zero ys" y] by (simp add: ok_accumulate assms(1))
qed

lemma accumulate_Cons:
  assumes "ok x" "list_all ok xs"
  shows "accumulate add zero (x # xs) = add (add zero x) (accumulate add zero xs)"
  using accumulate_append [of "[x]" xs] assms by (simp add: accumulate_def)

lemma accumulate_mset:
  assumes "mset xs = mset ys" "list_all ok xs"
  shows "accumulate add zero xs = accumulate add zero ys"
proof -
  have "add (add s x) y = add (add s y) x" if "ok s" "ok x" "ok y" for s x y
    using add_assoc [of s x y] add_assoc [of s y x] add_commute [of x y] that by simp
  then have swap: "fold (\<lambda>x s. add s x) (y # zs) s = add (fold (\<lambda>x s. add s x) zs s) y"
    if "ok s" "ok y" "list_all ok zs" for s y zs
    using that
  proof (induction zs arbitrary: s)
    case Nil
    then show ?case by simp
  next
    case (Cons z zs)
    then show ?case using Cons.IH [of "add s z"] by (simp add: ok_add)
  qed
  show ?thesis
    using assms
  proof (induction xs arbitrary: ys rule: rev_induct)
    case Nil
    then show ?case by simp
  next
    case (snoc x xs)
    then have "x \<in> set ys" by (metis mset_eq_setD in_set_conv_decomp)
    then obtain as bs where ys: "ys = as @ x # bs" by (auto dest: split_list)
    then have m: "mset xs = mset (as @ bs)" using snoc.prems by simp
    then have ok: "list_all ok (as @ bs)" "ok x"
      using snoc.prems(2) mset_eq_setD [OF m] by (simp_all add: list_all_iff)
    have "accumulate add zero ys = add (accumulate add zero (as @ bs)) x"
      using swap [of "accumulate add zero as" x bs] ok by (simp add: ys accumulate_def ok_accumulate [unfolded accumulate_def])
    then show ?case using snoc.IH [OF m] snoc.prems(2) by simp
  qed
qed

text \<open>Groups add up to the total, whatever they are grouped by.\<close>

lemma accumulate_groups:
  assumes "list_all ok (map v xs)" "distinct ks" "f ` set xs \<subseteq> set ks"
  shows "accumulate add zero (map (\<lambda>k. accumulate add zero (map v (filter (\<lambda>x. f x = k) xs))) ks) = accumulate add zero (map v xs)"
  using assms
proof (induction ks arbitrary: xs)
  case Nil
  then show ?case by simp
next
  case (Cons k ks)
  let ?in = "filter (\<lambda>x. f x = k) xs" and ?out = "filter (\<lambda>x. f x \<noteq> k) xs"
  have parts: "list_all ok (map v ?in)" "list_all ok (map v ?out)" using Cons.prems(1) by (auto simp: list_all_iff)
  have eq: "filter (\<lambda>x. f x = k') xs = filter (\<lambda>x. f x = k') ?out" if "k' \<in> set ks" for k'
    using that Cons.prems(2) by (auto intro: filter_cong)
  have rest: "accumulate add zero (map (\<lambda>k. accumulate add zero (map v (filter (\<lambda>x. f x = k) xs))) ks)
    = accumulate add zero (map v ?out)"
    using Cons.IH [of ?out] parts Cons.prems by (auto simp: eq cong: map_cong)
  have ok: "list_all ok (map (\<lambda>k. accumulate add zero (map v (filter (\<lambda>x. f x = k) xs))) ks)"
    using Cons.prems(1) by (auto simp: list_all_iff intro!: ok_accumulate)
  have "mset (map v xs) = mset (map v ?in @ map v ?out)" by (induction xs) simp_all
  then have "accumulate add zero (map v xs) = add (accumulate add zero (map v ?in)) (accumulate add zero (map v ?out))"
    using accumulate_mset accumulate_append [OF parts] Cons.prems(1) by metis
  then show ?case
    using accumulate_Cons [OF ok_accumulate [OF parts(1)] ok] zero_accumulate [OF parts(1)] rest by simp
qed

end

section \<open>Grouping\<close>

text \<open>\<open>BTreeMap::entry\<close>: the value of a key, or a new one at its place in the order.\<close>

fun bm_entry :: "'k :: linorder \<Rightarrow> ('v option \<Rightarrow> 'v) \<Rightarrow> ('k \<times> 'v) list \<Rightarrow> ('k \<times> 'v) list" where
  "bm_entry k f [] = [(k, f None)]"
| "bm_entry k f ((k', v) # m) =
     (if k = k' then (k, f (Some v)) # m
      else if k < k' then (k, f None) # (k', v) # m
      else (k', v) # bm_entry k f m)"

lemma bm_entry_keys: "fst ` set (bm_entry k f m) = insert k (fst ` set m)"
proof (induction m)
  case Nil
  then show ?case by simp
next
  case (Cons e m)
  then show ?case by (cases e) (auto simp: insert_commute)
qed

lemma bm_entry_sorted: "sorted_wrt (<) (map fst m) \<Longrightarrow> sorted_wrt (<) (map fst (bm_entry k f m))"
proof (induction m)
  case Nil
  then show ?case by simp
next
  case (Cons e m)
  obtain k' v where e: "e = (k', v)" by force
  have "\<forall>x \<in> fst ` set (bm_entry k f m). k' < x" if "k' < k" using that Cons.prems by (auto simp: e bm_entry_keys)
  then show ?case using Cons by (auto simp: e)
qed

lemma bm_entry_get: "sorted_wrt (<) (map fst m) \<Longrightarrow> map_of (bm_entry k f m) j = (if j = k then Some (f (map_of m k)) else map_of m j)"
proof (induction m)
  case Nil
  then show ?case by simp
next
  case (Cons e m)
  obtain k' v where e: "e = (k', v)" by force
  have "map_of m k = None" if "k < k'"
    using that Cons.prems by (auto simp: e map_of_eq_None_iff)
  then show ?case using Cons by (auto simp: e)
qed

end
