(* ===== verification/Usage_Histogram.thy ===== *)
theory Usage_Histogram
  imports Accumulation
begin

text \<open>
  The latency histogram of the usage statistics (\<open>src-tauri/src/commands/usage_histogram.rs\<close>).
  A \<open>BTreeMap\<close> is an association list in ascending key order.  The reference definition is the
  sorted list of the observed values: percentiles read from the buckets are within the
  rounding that the module promises of the exact order statistic, and merging is the same as
  observing both populations.
\<close>

section \<open>Definitions\<close>

type_synonym btree = "(nat \<times> nat) list"

text \<open>\<open>*entry(k).or_default() = saturating_add(n)\<close>\<close>

fun bt_add :: "nat \<Rightarrow> nat \<Rightarrow> btree \<Rightarrow> btree" where
  "bt_add k n [] = [(k, sat_add u64_max 0 n)]"
| "bt_add k n ((k', c) # m) =
     (if k = k' then (k, sat_add u64_max c n) # m
      else if k < k' then (k, sat_add u64_max 0 n) # (k', c) # m
      else (k', c) # bt_add k n m)"

record histogram =
  hg_buckets :: btree
  hg_count :: nat
  hg_max :: nat

record percentiles =
  ps_samples :: nat
  ps_p50 :: "nat option"
  ps_p95 :: "nat option"
  ps_max :: "nat option"

definition histogram_default :: histogram where
  "histogram_default = \<lparr> hg_buckets = [], hg_count = 0, hg_max = 0 \<rparr>"

fun bit_length :: "nat \<Rightarrow> nat" where
  "bit_length n = (if n = 0 then 0 else Suc (bit_length (n div 2)))"

declare bit_length.simps [simp del]

definition leading_zeros :: "nat \<Rightarrow> nat" where
  "leading_zeros n = 64 - bit_length n"

text \<open>The key of the bucket of a value.\<close>

definition bucket_upper :: "nat \<Rightarrow> nat" where
  "bucket_upper v =
     (let exponent = 63 - leading_zeros v;
          step = 2 ^ (exponent - 4)
      in sat_mul u64_max (div_ceil v step) step)"

definition observe :: "nat \<Rightarrow> histogram \<Rightarrow> histogram" where
  "observe v h = \<lparr> hg_buckets = bt_add (bucket_upper v) 1 (hg_buckets h),
                   hg_count = sat_add u64_max (hg_count h) 1,
                   hg_max = max (hg_max h) v \<rparr>"

definition merge :: "histogram \<Rightarrow> histogram \<Rightarrow> histogram" where
  "merge other h = \<lparr> hg_buckets = fold (\<lambda>(upper, n). bt_add upper n) (hg_buckets other) (hg_buckets h),
                     hg_count = sat_add u64_max (hg_count h) (hg_count other),
                     hg_max = max (hg_max h) (hg_max other) \<rparr>"

fun percentile_loop :: "nat \<Rightarrow> nat \<Rightarrow> btree \<Rightarrow> nat option" where
  "percentile_loop rank seen [] = None"
| "percentile_loop rank seen ((upper, n) # m) =
     (if rank \<le> seen + n then Some upper else percentile_loop rank (seen + n) m)"

definition percentile :: "nat \<Rightarrow> histogram \<Rightarrow> nat option" where
  "percentile percent h =
     (if hg_count h = 0 then None
      else map_option (\<lambda>upper. min upper (hg_max h))
             (percentile_loop (div_ceil (hg_count h * percent) 100) 0 (hg_buckets h)))"

definition view :: "histogram \<Rightarrow> percentiles" where
  "view h = \<lparr> ps_samples = hg_count h, ps_p50 = percentile 50 h, ps_p95 = percentile 95 h,
              ps_max = (if 0 < hg_count h then Some (hg_max h) else None) \<rparr>"

section \<open>Bucket bounds\<close>

lemma bit_length_bounds: "0 < n \<Longrightarrow> 2 ^ (bit_length n - 1) \<le> n \<and> n < 2 ^ bit_length n \<and> 0 < bit_length n"
proof (induction n rule: bit_length.induct)
  case (1 n)
  show ?case
  proof (cases "n div 2 = 0")
    case True
    then have "n = 1" using 1(2) by simp
    then show ?thesis by (simp add: bit_length.simps [of "Suc 0"] bit_length.simps [of 0])
  next
    case False
    then have ih: "2 ^ (bit_length (n div 2) - 1) \<le> n div 2" "n div 2 < 2 ^ bit_length (n div 2)"
      "0 < bit_length (n div 2)" using 1 by auto
    have b: "bit_length n = Suc (bit_length (n div 2))" using 1(2) by (simp add: bit_length.simps [of n])
    have "(2::nat) ^ bit_length (n div 2) = 2 * 2 ^ (bit_length (n div 2) - 1)"
      using ih(3) by (simp add: power_eq_if)
    moreover have "2 * (n div 2) \<le> n" "n < 2 * (n div 2) + 2" by auto
    ultimately show ?thesis using ih b by simp linarith
  qed
qed

lemma bit_length_mono: "m \<le> n \<Longrightarrow> bit_length m \<le> bit_length n"
proof (induction n arbitrary: m rule: bit_length.induct)
  case (1 n)
  show ?case
  proof (cases "m = 0")
    case True
    then show ?thesis by (simp add: bit_length.simps [of 0])
  next
    case False
    then have "bit_length (m div 2) \<le> bit_length (n div 2)" using 1 by (simp add: div_le_mono)
    then show ?thesis using False 1(2) by (simp add: bit_length.simps [of m] bit_length.simps [of n])
  qed
qed

lemma bit_length_le: "n \<le> u64_max \<Longrightarrow> bit_length n \<le> 64"
proof (rule ccontr)
  assume n: "n \<le> u64_max" and "\<not> bit_length n \<le> 64"
  then have "64 \<le> bit_length n - 1" "0 < n" by (auto intro: gr0I simp: bit_length.simps [of 0])
  then have "(2::nat) ^ 64 \<le> n"
    using bit_length_bounds [of n] power_increasing [of 64 "bit_length n - 1" "2::nat"] by linarith
  then show False using n by simp
qed

definition bucket_step :: "nat \<Rightarrow> nat" where
  "bucket_step v = 2 ^ (63 - leading_zeros v - 4)"

lemma bucket_upper_step: "bucket_upper v = min u64_max (div_ceil v (bucket_step v) * bucket_step v)"
  by (simp add: bucket_upper_def bucket_step_def Let_def sat_mul_def)

lemma bucket_step_pow: "v \<le> u64_max \<Longrightarrow> bucket_step v = 2 ^ (bit_length v - 5)"
  using bit_length_le [of v] by (simp add: bucket_step_def leading_zeros_def)

lemma bucket_step_small: "v \<le> u64_max \<Longrightarrow> bucket_step v = 1 \<or> 16 * bucket_step v \<le> v"
proof (cases "5 < bit_length v")
  case True
  assume v: "v \<le> u64_max"
  have "0 < v" using True by (auto intro: gr0I simp: bit_length.simps [of 0])
  then have "2 ^ (bit_length v - 1) \<le> v" using bit_length_bounds by blast
  moreover have "(2::nat) ^ (bit_length v - 1) = 2 ^ (4 + (bit_length v - 5))" using True by simp
  ultimately show ?thesis by (simp add: bucket_step_pow [OF v] power_add)
qed (simp add: bucket_step_pow)

lemma bucket_upper_bounds:
  assumes "v \<le> u64_max"
  shows "v \<le> bucket_upper v" "bucket_upper v \<le> v + v div 16" "bucket_upper v \<le> u64_max"
    "v < 32 \<Longrightarrow> bucket_upper v = v"
proof -
  have pos: "0 < bucket_step v" by (simp add: bucket_step_def)
  show "v \<le> bucket_upper v" using assms div_ceil_ge [OF pos, of v] by (simp add: bucket_upper_step)
  show "bucket_upper v \<le> u64_max" by (simp add: bucket_upper_step)
  have one: "div_ceil v (Suc 0) = v" by (simp add: div_ceil_def)
  show "bucket_upper v \<le> v + v div 16"
    using bucket_step_small [OF assms]
  proof
    assume "bucket_step v = 1"
    then show ?thesis by (simp add: bucket_upper_step one)
  next
    assume "16 * bucket_step v \<le> v"
    then have "bucket_step v \<le> v div 16" by simp
    then show ?thesis using div_ceil_less [OF pos, of v] by (simp add: bucket_upper_step)
  qed
  show "bucket_upper v = v" if "v < 32"
  proof -
    have "bucket_step v = 1" using bucket_step_small [OF assms] bucket_step_pow [OF assms] that
    proof (elim disjE)
      assume "16 * bucket_step v \<le> v"
      then have "bucket_step v < 2" using that by simp
      then show ?thesis using pos by simp
    qed
    then show ?thesis using assms by (simp add: bucket_upper_step one)
  qed
qed

text \<open>The bucket of a larger value is not below the bucket of a smaller one.\<close>

lemma div_ceil_mono: "0 < b \<Longrightarrow> a \<le> a' \<Longrightarrow> div_ceil a b \<le> div_ceil a' b"
proof -
  assume b: "0 < b" and "a \<le> a'"
  then have "a \<le> div_ceil a' b * b" using div_ceil_ge [OF b, of a'] by linarith
  then have "div_ceil a b * b < (div_ceil a' b + 1) * b" using div_ceil_less [OF b, of a] by simp
  then show ?thesis by (metis Suc_eq_plus1 less_Suc_eq_le mult_less_cancel2)
qed

lemma div_ceil_multiple: "0 < b \<Longrightarrow> a \<le> c * b \<Longrightarrow> div_ceil a b \<le> c"
proof -
  assume b: "0 < b" and "a \<le> c * b"
  then have "div_ceil a b * b < (c + 1) * b" using div_ceil_less [OF b, of a] by simp
  then show ?thesis by (metis Suc_eq_plus1 less_Suc_eq_le mult_less_cancel2)
qed

lemma bucket_upper_mono:
  assumes "v \<le> w" and "w \<le> u64_max"
  shows "bucket_upper v \<le> bucket_upper w"
proof -
  have v: "v \<le> u64_max" using assms by simp
  have le: "bit_length v \<le> bit_length w" using assms(1) by (rule bit_length_mono)
  define s t where "s = bucket_step v" and "t = bucket_step w"
  have pos: "0 < s" "0 < t" by (simp_all add: s_def t_def bucket_step_def)
  have "t = 2 ^ (bit_length w - 5 - (bit_length v - 5)) * s"
    using le by (simp add: s_def t_def bucket_step_pow v assms(2) power_add [symmetric])
  then obtain c where c: "t = c * s" by blast
  have "v \<le> div_ceil w t * c * s" using div_ceil_ge [OF pos(2), of w] assms(1) c by (simp add: mult.assoc)
  then have "div_ceil v s \<le> div_ceil w t * c" by (rule div_ceil_multiple [OF pos(1)])
  then have "div_ceil v s * s \<le> div_ceil w t * t" unfolding c by (metis mult.assoc mult_le_mono1)
  then show ?thesis by (simp add: bucket_upper_step s_def t_def)
qed

section \<open>The buckets as a sorted list\<close>

text \<open>The observations that a bucket list stands for, rounded up and in order.\<close>

definition expand :: "btree \<Rightarrow> nat list" where
  "expand m = concat (map (\<lambda>(k, c). replicate c k) m)"

definition bt_size :: "btree \<Rightarrow> nat" where
  "bt_size m = sum_list (map snd m)"

definition bt_ok :: "btree \<Rightarrow> bool" where
  "bt_ok m \<longleftrightarrow> sorted_wrt (<) (map fst m)"

lemma expand_simps [simp]: "expand [] = []" "expand ((k, c) # m) = replicate c k @ expand m"
  by (simp_all add: expand_def)

lemma length_expand: "length (expand m) = bt_size m"
  by (induction m) (auto simp: bt_size_def)

lemma set_expand: "x \<in> set (expand m) \<Longrightarrow> x \<in> fst ` set m"
  by (induction m) (auto split: if_splits)

lemma sorted_expand: "bt_ok m \<Longrightarrow> sorted (expand m)"
  by (induction m) (fastforce simp: bt_ok_def sorted_append dest!: set_expand)+

lemma bt_add_keys: "fst ` set (bt_add k n m) = insert k (fst ` set m)"
  by (induction k n m rule: bt_add.induct) auto

lemma bt_add_ok: "bt_ok m \<Longrightarrow> bt_ok (bt_add k n m)"
proof (induction k n m rule: bt_add.induct)
  case (2 k n k' c m)
  then have "fst ` set (bt_add k n m) = insert k (fst ` set m)" by (simp add: bt_add_keys)
  then show ?case using 2 by (auto simp: bt_ok_def simp flip: set_map)
qed (simp add: bt_ok_def)

lemma bt_add_mset:
  "bt_size m + n \<le> u64_max \<Longrightarrow> mset (expand (bt_add k n m)) = mset (expand m) + replicate_mset n k"
proof (induction k n m rule: bt_add.induct)
  case (2 k n k' c m)
  then show ?case by (auto simp: sat_add_exact bt_size_def replicate_add)
qed (simp add: sat_add_exact)

lemma bt_add_size: "bt_size m + n \<le> u64_max \<Longrightarrow> bt_size (bt_add k n m) = bt_size m + n"
  using arg_cong [OF bt_add_mset, of m n size k] by (simp add: length_expand)

lemma bt_fold_mset:
  "bt_ok m \<Longrightarrow> bt_size m + bt_size kvs \<le> u64_max \<Longrightarrow>
    bt_ok (fold (\<lambda>(k, n). bt_add k n) kvs m)
    \<and> mset (expand (fold (\<lambda>(k, n). bt_add k n) kvs m)) = mset (expand m) + mset (expand kvs)"
proof (induction kvs arbitrary: m)
  case Nil
  then show ?case by simp
next
  case (Cons e kvs)
  obtain k n where e: "e = (k, n)" by (cases e)
  have b: "bt_size m + n \<le> u64_max" using Cons.prems(2) e by (simp add: bt_size_def)
  have "bt_size (bt_add k n m) + bt_size kvs \<le> u64_max"
    using Cons.prems(2) e by (simp add: bt_add_size [OF b]) (simp add: bt_size_def)
  then show ?case
    using Cons.IH [OF bt_add_ok [OF Cons.prems(1), of k n]] e by (simp add: bt_add_mset [OF b])
qed

lemma percentile_loop_nth:
  "seen < rank \<Longrightarrow> rank \<le> seen + bt_size m \<Longrightarrow>
    percentile_loop rank seen m = Some (expand m ! (rank - seen - 1))"
proof (induction rank seen m rule: percentile_loop.induct)
  case (2 rank seen upper n m)
  show ?case
  proof (cases "rank \<le> seen + n")
    case True
    then have "rank - seen - 1 < n" using 2(2) by linarith
    then show ?thesis using True by (simp add: nth_append)
  next
    case False
    then have "percentile_loop rank (seen + n) m = Some (expand m ! (rank - (seen + n) - 1))"
      using 2 by (intro "2.IH") (auto simp: bt_size_def)
    moreover have "rank - seen - 1 - n = rank - (seen + n) - 1" "\<not> rank - seen - 1 < n" using False by auto
    ultimately show ?thesis using False by (simp add: nth_append)
  qed
qed (simp add: bt_size_def)

text \<open>What a histogram of the values \<open>vs\<close> has to be.\<close>

definition histogram_of :: "nat list \<Rightarrow> histogram \<Rightarrow> bool" where
  "histogram_of vs h \<longleftrightarrow> bt_ok (hg_buckets h) \<and> expand (hg_buckets h) = sort (map bucket_upper vs)
     \<and> hg_count h = length vs \<and> hg_max h = fold max vs 0"

lemma expand_unique:
  "bt_ok m \<Longrightarrow> mset (expand m) = mset xs \<Longrightarrow> expand m = sort xs"
  by (metis properties_for_sort sorted_expand)

lemma histogram_size: "histogram_of vs h \<Longrightarrow> bt_size (hg_buckets h) = length vs"
  by (metis histogram_of_def length_expand length_map length_sort)

lemma observe_histogram:
  assumes "histogram_of vs h" and "length vs < u64_max"
  shows "histogram_of (vs @ [v]) (observe v h)"
proof -
  have s: "bt_size (hg_buckets h) + 1 \<le> u64_max" using histogram_size [OF assms(1)] assms(2) by simp
  have ok: "bt_ok (bt_add (bucket_upper v) 1 (hg_buckets h))"
    using assms(1) by (simp add: histogram_of_def bt_add_ok)
  have "mset (expand (bt_add (bucket_upper v) 1 (hg_buckets h))) = mset (map bucket_upper (vs @ [v]))"
    unfolding bt_add_mset [OF s] using assms(1) by (simp add: histogram_of_def)
  then show ?thesis
    using assms expand_unique [OF ok] ok by (simp add: histogram_of_def observe_def sat_add_exact max.commute)
qed

definition observe_all :: "nat list \<Rightarrow> histogram" where
  "observe_all vs = fold observe vs histogram_default"

lemma observe_all_histogram: "length vs \<le> u64_max \<Longrightarrow> histogram_of vs (observe_all vs)"
proof (induction vs rule: rev_induct)
  case Nil
  then show ?case by (simp add: observe_all_def histogram_of_def histogram_default_def bt_ok_def)
next
  case (snoc v vs)
  then show ?case using observe_histogram [of vs "observe_all vs" v] by (simp add: observe_all_def)
qed

lemma fold_max_append: "fold max ws m = max m (fold max ws (0::nat))"
proof (induction ws arbitrary: m)
  case (Cons w ws)
  show ?case using Cons [of "max w m"] Cons [of w] by (simp add: max.assoc max.left_commute max.commute)
qed simp

lemma merge_histogram:
  assumes "histogram_of vs a" and "histogram_of ws b" and "length vs + length ws \<le> u64_max"
  shows "histogram_of (vs @ ws) (merge b a)"
proof -
  let ?m = "fold (\<lambda>(k, n). bt_add k n) (hg_buckets b) (hg_buckets a)"
  have "bt_ok ?m \<and> mset (expand ?m) = mset (expand (hg_buckets a)) + mset (expand (hg_buckets b))"
    using assms histogram_size by (intro bt_fold_mset) (auto simp: histogram_of_def)
  then have "bt_ok ?m" "expand ?m = sort (map bucket_upper (vs @ ws))"
    using assms by (auto simp: histogram_of_def intro: expand_unique)
  then show ?thesis
    using assms fold_max_append [of ws "fold max vs 0"]
    by (simp add: histogram_of_def merge_def sat_add_exact)
qed

lemma percentile_histogram:
  assumes h: "histogram_of vs h" and p: "1 \<le> percent" "percent \<le> 100" and vs: "vs \<noteq> []"
  shows "percentile percent h
    = Some (min (sort (map bucket_upper vs) ! (div_ceil (length vs * percent) 100 - 1)) (fold max vs 0))"
proof -
  let ?rank = "div_ceil (length vs * percent) 100"
  have n: "0 < length vs" using vs by simp
  have "1 \<le> length vs * percent" using n p(1) by (simp add: Suc_le_eq)
  then have "0 < ?rank" using div_ceil_ge [of 100 "length vs * percent"] by (intro gr0I) simp
  moreover have "?rank \<le> length vs" using p(2) by (intro div_ceil_multiple) simp_all
  ultimately show ?thesis
    using h n percentile_loop_nth [of 0 ?rank "hg_buckets h"] histogram_size [OF h]
    by (simp add: percentile_def histogram_of_def)
qed

section \<open>Properties\<close>

text \<open>
  A percentile read from the histogram is the exact order statistic of the observed values,
  rounded up by at most one sixteenth, never above the largest value, and exact when the
  order statistic is below 32.  It exists for every non-empty population.
\<close>

theorem percentile_accurate:
  assumes "vs \<noteq> []" and "length vs \<le> u64_max" and "\<forall>v \<in> set vs. v \<le> u64_max"
    and "1 \<le> percent" and "percent \<le> 100"
    and "y = sort vs ! (div_ceil (length vs * percent) 100 - 1)"
  shows "\<exists>x. percentile percent (observe_all vs) = Some x \<and> y \<le> x \<and> x \<le> y + y div 16
    \<and> x \<le> fold max vs 0 \<and> (y < 32 \<longrightarrow> x = y)"
proof -
  let ?r = "div_ceil (length vs * percent) 100 - 1"
  have r: "?r < length vs"
  proof -
    have "div_ceil (length vs * percent) 100 \<le> length vs" using assms(5) by (intro div_ceil_multiple) simp_all
    then show ?thesis using assms(1) by (cases vs) auto
  qed
  have "sort (map bucket_upper vs) = map bucket_upper (sort vs)"
  proof (rule properties_for_sort)
    show "sorted (map bucket_upper (sort vs))"
      unfolding sorted_map
      by (rule sorted_wrt_mono_rel [of _ "(\<le>)"]) (use assms(3) in \<open>auto intro: bucket_upper_mono\<close>)
  qed simp
  then have u: "sort (map bucket_upper vs) ! ?r = bucket_upper y" using r assms(6) by simp
  have y: "y \<in> set vs" using r assms(6) by (metis length_sort nth_mem set_sort)
  have m: "y \<le> fold max vs 0"
    using y by (metis List.finite_set Max.set_eq_fold Max_ge insert_iff list.set(2) list.set_intros(1) set_ConsD)
  have b: "y \<le> bucket_upper y" "bucket_upper y \<le> y + y div 16" "y < 32 \<Longrightarrow> bucket_upper y = y"
    using bucket_upper_bounds assms(3) y by blast+
  show ?thesis
    using percentile_histogram [OF observe_all_histogram [OF assms(2)] assms(4,5,1)] b m
    unfolding u by auto
qed

theorem percentile_accurate_witness:
  "\<exists>x. percentile 95 (observe_all [5, 100, 7]) = Some x \<and> 100 \<le> x \<and> x \<le> 106"
  using percentile_accurate [of "[5, 100, 7]" 95 100] by (force simp: div_ceil_def)

text \<open>
  Merging two histograms gives the same view (samples, median, 95th percentile, maximum) as
  observing both populations in one histogram.
\<close>

theorem merge_is_union:
  assumes "length vs + length ws \<le> u64_max"
  shows "view (merge (observe_all ws) (observe_all vs)) = view (observe_all (vs @ ws))"
proof -
  have h: "histogram_of (vs @ ws) (merge (observe_all ws) (observe_all vs))"
    using assms by (intro merge_histogram observe_all_histogram) auto
  have h2: "histogram_of (vs @ ws) (observe_all (vs @ ws))"
    using assms by (intro observe_all_histogram) simp
  have "percentile p (merge (observe_all ws) (observe_all vs)) = percentile p (observe_all (vs @ ws))"
    if "1 \<le> p" "p \<le> 100" for p
  proof (cases "vs @ ws = []")
    case True
    then show ?thesis using h h2 by (auto simp: percentile_def histogram_of_def)
  next
    case False
    then show ?thesis using percentile_histogram [OF h that] percentile_histogram [OF h2 that] by simp
  qed
  then show ?thesis using h h2 by (simp add: view_def histogram_of_def)
qed

theorem merge_is_union_witness:
  "view (merge (observe_all [3]) (observe_all [1, 2])) = view (observe_all [1, 2, 3])"
  using merge_is_union [of "[1, 2]" "[3]"] by simp

section \<open>Histograms add up in any order\<close>

definition bt_get :: "btree \<Rightarrow> nat \<Rightarrow> nat" where
  "bt_get m k = (case map_of m k of None \<Rightarrow> 0 | Some c \<Rightarrow> c)"

definition bt_bounded :: "btree \<Rightarrow> bool" where
  "bt_bounded m \<longleftrightarrow> bt_ok m \<and> (\<forall>e \<in> set m. snd e \<le> u64_max)"

lemma bt_get_Cons: "bt_get ((k', c) # m) j = (if j = k' then c else bt_get m j)"
  by (simp add: bt_get_def)

lemma bt_get_Nil: "bt_get [] j = 0"
  by (simp add: bt_get_def)

lemma bt_get_absent: "k \<notin> fst ` set m \<Longrightarrow> bt_get m k = 0"
  by (auto simp: bt_get_def map_of_eq_None_iff split: option.splits dest: map_of_SomeD intro: rev_image_eqI)

lemma bt_get_le: "bt_bounded m \<Longrightarrow> bt_get m k \<le> u64_max"
  by (force simp: bt_get_def bt_bounded_def split: option.splits dest: map_of_SomeD)

lemma bt_add_get: "bt_ok m \<Longrightarrow> bt_get (bt_add k n m) j = (if j = k then sat_add u64_max (bt_get m k) n else bt_get m j)"
proof (induction m)
  case Nil
  then show ?case by (simp add: bt_get_def)
next
  case (Cons e m)
  obtain k' c where e: "e = (k', c)" by force
  have "k \<notin> fst ` set m" if "k < k'" using that Cons.prems by (force simp: e bt_ok_def)
  then show ?case using Cons by (auto simp: e bt_get_Cons bt_get_absent bt_ok_def)
qed

lemma bt_add_bounded: "bt_bounded m \<Longrightarrow> bt_bounded (bt_add k n m)"
proof -
  have "\<forall>e \<in> set m. snd e \<le> u64_max \<Longrightarrow> \<forall>e \<in> set (bt_add k n m). snd e \<le> u64_max" for m
    by (induction k n m rule: bt_add.induct) (auto simp: sat_add_def)
  then show "bt_bounded m \<Longrightarrow> ?thesis" by (auto simp: bt_bounded_def bt_add_ok)
qed

abbreviation bt_fold :: "btree \<Rightarrow> btree \<Rightarrow> btree" where
  "bt_fold kvs m \<equiv> fold (\<lambda>(upper, n). bt_add upper n) kvs m"

lemma bt_fold_props:
  assumes "bt_ok kvs" "bt_bounded m"
  shows "bt_bounded (bt_fold kvs m)" "fst ` set (bt_fold kvs m) = fst ` set m \<union> fst ` set kvs"
    "bt_get (bt_fold kvs m) j = sat_add u64_max (bt_get m j) (bt_get kvs j)"
proof -
  have "bt_bounded (bt_fold kvs m) \<and> fst ` set (bt_fold kvs m) = fst ` set m \<union> fst ` set kvs
    \<and> bt_get (bt_fold kvs m) j = sat_add u64_max (bt_get m j) (bt_get kvs j)"
    using assms
  proof (induction kvs arbitrary: m)
    case Nil
    then show ?case by (simp add: bt_get_Nil sat_add_def bt_get_le)
  next
    case (Cons e kvs)
    obtain k c where e: "e = (k, c)" by force
    have k: "k \<notin> fst ` set kvs" "bt_ok kvs" using Cons.prems by (auto simp: e bt_ok_def)
    show ?case
      using Cons.IH [OF k(2) bt_add_bounded [OF Cons.prems(2)], of k c] Cons.prems(2) k(1)
      by (auto simp: e bt_add_keys bt_add_get bt_bounded_def bt_get_Cons bt_get_absent sat_add_def)
  qed
  then show "bt_bounded (bt_fold kvs m)" "fst ` set (bt_fold kvs m) = fst ` set m \<union> fst ` set kvs"
    "bt_get (bt_fold kvs m) j = sat_add u64_max (bt_get m j) (bt_get kvs j)" by auto
qed

lemma bt_ext:
  assumes "bt_ok m" "bt_ok m'" "fst ` set m = fst ` set m'" "\<And>j. bt_get m j = bt_get m' j"
  shows "m = m'"
proof -
  have rebuild: "m = map (\<lambda>k. (k, bt_get m k)) (map fst m)" if "bt_ok m" for m
    using that
  proof (induction m)
    case Nil
    then show ?case by simp
  next
    case (Cons e m)
    then have e: "fst e \<notin> fst ` set m" "bt_ok m" by (force simp: bt_ok_def)+
    have "map (\<lambda>k. (k, bt_get (e # m) k)) (map fst m) = map (\<lambda>k. (k, bt_get m k)) (map fst m)"
      using e(1) by (cases e) (force simp: bt_get_Cons)
    then have "map (\<lambda>k. (k, bt_get (e # m) k)) (map fst m) = m" using Cons.IH [OF e(2)] by (rule trans [OF _ sym])
    then show ?case by (cases e) (simp add: bt_get_Cons)
  qed
  have "map fst m = map fst m'"
    using assms(1-3) unfolding bt_ok_def strict_sorted_iff by (metis set_map sorted_distinct_set_unique)
  then show ?thesis using rebuild [OF assms(1)] rebuild [OF assms(2)] assms(4) by (metis ext)
qed

lemma bounded_ok: "bt_bounded m \<Longrightarrow> bt_ok m"
  by (simp add: bt_bounded_def)

definition histogram_ok :: "histogram \<Rightarrow> bool" where
  "histogram_ok h \<longleftrightarrow> bt_bounded (hg_buckets h) \<and> hg_count h \<le> u64_max"

interpretation histograms: accumulation "\<lambda>h other. merge other h" histogram_default histogram_ok
proof (unfold_locales, goal_cases)
  case (1 a b c)
  then have "bt_fold (hg_buckets c) (bt_fold (hg_buckets b) (hg_buckets a)) = bt_fold (bt_fold (hg_buckets c) (hg_buckets b)) (hg_buckets a)"
    by (intro bt_ext) (simp_all add: histogram_ok_def bt_fold_props bounded_ok sat_add_def Un_assoc)
  then show ?case by (simp add: merge_def sat_add_def max.assoc min_add_distrib_left min_add_distrib_right)
next
  case (2 a b)
  then have "bt_fold (hg_buckets b) (hg_buckets a) = bt_fold (hg_buckets a) (hg_buckets b)"
    by (intro bt_ext) (simp_all add: histogram_ok_def bt_fold_props bounded_ok sat_add_def Un_commute add.commute)
  then show ?case by (simp add: merge_def sat_add_def add.commute max.commute)
qed (auto simp: histogram_ok_def histogram_default_def merge_def bt_bounded_def bt_ok_def sat_add_def
      dest: bt_fold_props(1) [unfolded bt_bounded_def bt_ok_def])

lemma observe_ok: "histogram_ok h \<Longrightarrow> histogram_ok (observe v h)"
  by (simp add: histogram_ok_def observe_def bt_add_bounded)

end
