(* ===== verification/Request_Body.thy ===== *)
theory Request_Body
  imports Proxy_Models Json_Value
begin

text \<open>
  What the router reads from a request body before it forwards it, and how it collects bounded
  bodies: the functions around the context preflight of \<open>src-tauri/src/commands/proxy.rs\<close> and
  \<open>receive\<close> of \<open>proxy_delivery.rs\<close>.  \<open>parse\<close> and \<open>print\<close> stand for
  \<open>serde_json::from_slice\<close> and \<open>serde_json::to_vec\<close>; \<open>send\<close> stands for the HTTP client and
  answers a path and a body with a response whose body is a sequence of stream events.
\<close>

definition MAX_PROXY_MODEL_SELECTOR_BYTES :: nat where "MAX_PROXY_MODEL_SELECTOR_BYTES = 512"
definition MAX_COMPLETION_PREFLIGHT_PROMPTS :: nat where "MAX_COMPLETION_PREFLIGHT_PROMPTS = 16"
definition MAX_TOKEN_COUNT_RESPONSE_BYTES :: nat where "MAX_TOKEN_COUNT_RESPONSE_BYTES = 64 * 1024"
definition CONTEXT_PREFLIGHT_TEMPLATE_MARGIN_TOKENS :: nat where
  "CONTEXT_PREFLIGHT_TEMPLATE_MARGIN_TOKENS = 4096"

type_synonym parser = "bytes \<Rightarrow> json option"
type_synonym printer = "json \<Rightarrow> bytes option"

section \<open>Reading the request\<close>

definition requested_model_from_body :: "parser \<Rightarrow> bytes \<Rightarrow> string + string option" where
  "requested_model_from_body parse body =
     (case parse body of
        None \<Rightarrow> Inl ''request body must be a valid JSON object''
      | Some value \<Rightarrow>
          (if \<not> is_object value then Inl ''request body must be a JSON object''
           else (case json_get value ''model'' of
                   None \<Rightarrow> Inr None
                 | Some JNull \<Rightarrow> Inr None
                 | Some (JString model) \<Rightarrow>
                     (if trim model = [] then
                        Inl ''model must be a non-empty string, or omitted to use a default target''
                      else if MAX_PROXY_MODEL_SELECTOR_BYTES < length model then
                        Inl (''model selector exceeds '' @ show_nat MAX_PROXY_MODEL_SELECTOR_BYTES @ '' bytes'')
                      else Inr (Some (trim model)))
                 | Some _ \<Rightarrow> Inl ''model must be a non-empty string, or omitted to use a default target'')))"

definition request_uses_streaming :: "parser \<Rightarrow> bytes \<Rightarrow> bool" where
  "request_uses_streaming parse body =
     (case Option.bind (parse body) (\<lambda>value. json_field as_bool value ''stream'') of
        None \<Rightarrow> False | Some b \<Rightarrow> b)"

datatype input_token_counter = Native string | Completion

record context_preflight_spec =
  cs_counter :: input_token_counter
  cs_error_param :: string
  cs_requested_output_tokens :: nat

record context_violation =
  cv_error_param :: string
  cv_input_tokens :: "nat option"
  cv_requested_output_tokens :: nat
  cv_context_window :: nat
  cv_input_source :: string

definition exceeded :: "context_violation \<Rightarrow> bool" where
  "exceeded v \<longleftrightarrow> cv_context_window v
     < sat_add u64_max (case cv_input_tokens v of None \<Rightarrow> 0 | Some n \<Rightarrow> n) (cv_requested_output_tokens v)"

fun find_u64 :: "json \<Rightarrow> string list \<Rightarrow> nat option" where
  "find_u64 v [] = None"
| "find_u64 v (n # ns) = (case json_field as_u64 v n of Some x \<Rightarrow> Some x | None \<Rightarrow> find_u64 v ns)"

definition output_tokens :: "json \<Rightarrow> string list \<Rightarrow> nat" where
  "output_tokens v names = max (case find_u64 v names of None \<Rightarrow> 0 | Some n \<Rightarrow> n) 1"

definition preflight_spec :: "parser \<Rightarrow> string \<Rightarrow> bytes \<Rightarrow> context_preflight_spec option" where
  "preflight_spec parse path body =
     (case parse body of
        None \<Rightarrow> None
      | Some value \<Rightarrow>
          (if path = ''/v1/chat/completions'' then
             Some \<lparr> cs_counter = Native ''/v1/chat/completions/input_tokens'', cs_error_param = ''messages'',
                    cs_requested_output_tokens = output_tokens value [''max_completion_tokens'', ''max_tokens''] \<rparr>
           else if path = ''/v1/responses'' then
             Some \<lparr> cs_counter = Native ''/v1/responses/input_tokens'', cs_error_param = ''input'',
                    cs_requested_output_tokens = output_tokens value [''max_output_tokens''] \<rparr>
           else if path = ''/v1/messages'' then
             Some \<lparr> cs_counter = Native ''/v1/messages/count_tokens'', cs_error_param = ''messages'',
                    cs_requested_output_tokens = output_tokens value [''max_tokens''] \<rparr>
           else if path = ''/v1/completions'' then
             Some \<lparr> cs_counter = Completion, cs_error_param = ''prompt'',
                    cs_requested_output_tokens = output_tokens value [''max_tokens''] \<rparr>
           else None))"

text \<open>\<open>collect\<close> on an iterator of options: \<open>None\<close> as soon as one is.\<close>

fun collect_options :: "'a option list \<Rightarrow> 'a list option" where
  "collect_options [] = Some []"
| "collect_options (x # xs) =
     (case x of None \<Rightarrow> None | Some a \<Rightarrow> map_option ((#) a) (collect_options xs))"

definition completion_prompts :: "json \<Rightarrow> json list option" where
  "completion_prompts prompt =
     (case prompt of
        JArray items \<Rightarrow>
          (if list_all (\<lambda>i. is_string i \<or> is_array i) items
           then (if items = [] \<or> MAX_COMPLETION_PREFLIGHT_PROMPTS < length items then None else Some items)
           else Some [prompt])
      | _ \<Rightarrow> Some [prompt])"

definition completion_tokenize_bodies :: "parser \<Rightarrow> printer \<Rightarrow> bytes \<Rightarrow> bytes list option" where
  "completion_tokenize_bodies parse print body =
     Option.bind (parse body) (\<lambda>value.
       Option.bind (json_get value ''prompt'') (\<lambda>prompt.
         Option.bind (completion_prompts prompt) (\<lambda>prompts.
           collect_options (map (\<lambda>content. print (JObject
             [(''content'', content), (''add_special'', JBool True), (''parse_special'', JBool True)])) prompts))))"

definition rewrite_request_model :: "parser \<Rightarrow> printer \<Rightarrow> bytes \<Rightarrow> string \<Rightarrow> bytes" where
  "rewrite_request_model parse print body upstream_model_id =
     (if trim upstream_model_id = [] then body
      else case parse body of
             Some (JObject kvs) \<Rightarrow>
               (case print (JObject (hm_insert ''model'' (JString (trim upstream_model_id)) kvs)) of
                  Some b \<Rightarrow> b | None \<Rightarrow> body)
           | _ \<Rightarrow> body)"

section \<open>Bounded bodies\<close>

datatype body_event = Chunk bytes | BodyError string | IdleTimeout

text \<open>A stream ends with its list of events.\<close>

definition append_bounded_response_chunk :: "bytes \<Rightarrow> bytes \<Rightarrow> nat \<Rightarrow> string + bytes" where
  "append_bounded_response_chunk body chunk limit =
     (if limit < sat_add u64_max (length body) (length chunk)
      then Inl (''upstream JSON response exceeds '' @ show_nat limit @ '' bytes'')
      else Inr (body @ chunk))"

text \<open>\<open>resize\<close> answers whether the response reservation could be resized.\<close>

fun collect_loop :: "(nat \<Rightarrow> bool) option \<Rightarrow> nat \<Rightarrow> nat \<Rightarrow> bytes \<Rightarrow> body_event list \<Rightarrow> string + bytes" where
  "collect_loop resize limit idle_ms body [] = Inr body"
| "collect_loop resize limit idle_ms body (IdleTimeout # es) =
     Inl (''upstream response body was idle for '' @ show_nat idle_ms @ '' milliseconds'')"
| "collect_loop resize limit idle_ms body (BodyError e # es) = Inl e"
| "collect_loop resize limit idle_ms body (Chunk chunk # es) =
     (let required = sat_add u64_max (length body) (length chunk)
      in if limit < required then Inl (''upstream JSON response exceeds '' @ show_nat limit @ '' bytes'')
         else if (case resize of None \<Rightarrow> False | Some f \<Rightarrow> \<not> f (sat_mul u64_max required 4))
         then Inl ''router response memory budget exceeded''
         else (case append_bounded_response_chunk body chunk limit of
                 Inl e \<Rightarrow> Inl e
               | Inr body' \<Rightarrow> collect_loop resize limit idle_ms body' es))"

record upstream_response =
  us_success :: bool
  us_content_length :: "nat option"
  us_events :: "body_event list"

definition collect_bounded_response_body ::
  "(nat \<Rightarrow> bool) option \<Rightarrow> nat \<Rightarrow> nat \<Rightarrow> upstream_response \<Rightarrow> string + bytes" where
  "collect_bounded_response_body resize limit idle_ms response =
     (if (case us_content_length response of None \<Rightarrow> False | Some n \<Rightarrow> limit < n)
      then Inl (''upstream JSON response exceeds '' @ show_nat limit @ '' bytes'')
      else collect_loop resize limit idle_ms [] (us_events response))"

text \<open>
  \<open>receive\<close> collects an upload; a status is its number.  The deadline of the whole upload is
  reached when \<open>total_after\<close> events have been taken, if at all.
\<close>

fun receive_loop :: "nat \<Rightarrow> nat option \<Rightarrow> bytes \<Rightarrow> body_event list \<Rightarrow> nat + bytes" where
  "receive_loop limit (Some 0) acc es = Inl 408"
| "receive_loop limit total_after acc [] = Inr acc"
| "receive_loop limit total_after acc (Chunk chunk # es) =
     (if limit - length acc < length chunk then Inl 413
      else receive_loop limit (map_option (\<lambda>n. n - 1) total_after) (acc @ chunk) es)"
| "receive_loop limit total_after acc (BodyError e # es) = Inl 400"
| "receive_loop limit total_after acc (IdleTimeout # es) = Inl 408"

definition receive :: "nat \<Rightarrow> nat option \<Rightarrow> body_event list \<Rightarrow> nat + bytes" where
  "receive limit total_after es = receive_loop limit total_after [] es"

section \<open>Counting input tokens\<close>

type_synonym sender = "string \<Rightarrow> bytes \<Rightarrow> upstream_response option"

definition fetch_token_count_value :: "parser \<Rightarrow> sender \<Rightarrow> proxy_config \<Rightarrow> string \<Rightarrow> bytes \<Rightarrow> json option" where
  "fetch_token_count_value parse send config path body =
     (let timeout_ms = min (max (pc_health_check_timeout_ms config) 1000) (max (pc_timeout_ms config) 1000)
      in case send path body of
           None \<Rightarrow> None
         | Some response \<Rightarrow>
             (if \<not> us_success response then None
              else case collect_bounded_response_body None MAX_TOKEN_COUNT_RESPONSE_BYTES timeout_ms response of
                     Inl e \<Rightarrow> None
                   | Inr b \<Rightarrow> parse b))"

fun max_token_count :: "nat option \<Rightarrow> json option list \<Rightarrow> nat option" where
  "max_token_count maximum [] = maximum"
| "max_token_count maximum (v # vs) =
     (case Option.bind v (\<lambda>x. json_field as_array x ''tokens'') of
        None \<Rightarrow> None
      | Some tokens \<Rightarrow>
          max_token_count (Some (case maximum of None \<Rightarrow> length tokens | Some m \<Rightarrow> max m (length tokens))) vs)"

definition fetch_input_token_count ::
  "parser \<Rightarrow> printer \<Rightarrow> sender \<Rightarrow> proxy_config \<Rightarrow> bytes \<Rightarrow> input_token_counter \<Rightarrow> nat option" where
  "fetch_input_token_count parse print send config upstream_body counter =
     (case counter of
        Native path \<Rightarrow>
          Option.bind (fetch_token_count_value parse send config path upstream_body)
            (\<lambda>v. json_field as_u64 v ''input_tokens'')
      | Completion \<Rightarrow>
          Option.bind (completion_tokenize_bodies parse print upstream_body)
            (\<lambda>bodies. max_token_count None
               (map (fetch_token_count_value parse send config ''/tokenize'') bodies)))"

definition exact_context_preflight_required :: "nat \<Rightarrow> nat \<Rightarrow> nat \<Rightarrow> bool" where
  "exact_context_preflight_required request_body_bytes requested_output_tokens context_window \<longleftrightarrow>
     context_window < sat_add u64_max (sat_add u64_max request_body_bytes requested_output_tokens)
                        CONTEXT_PREFLIGHT_TEMPLATE_MARGIN_TOKENS"

definition context_limit_violation ::
  "parser \<Rightarrow> printer \<Rightarrow> sender \<Rightarrow> proxy_config \<Rightarrow> string \<Rightarrow> bytes \<Rightarrow> nat \<Rightarrow> context_violation option" where
  "context_limit_violation parse print send config path upstream_body context_window =
     (if context_window = 0 then None
      else case preflight_spec parse path upstream_body of
        None \<Rightarrow> None
      | Some spec \<Rightarrow>
          (let result = (\<lambda>tokens source. \<lparr> cv_error_param = cs_error_param spec, cv_input_tokens = tokens,
                 cv_requested_output_tokens = cs_requested_output_tokens spec,
                 cv_context_window = context_window, cv_input_source = source \<rparr>)
           in if context_window < cs_requested_output_tokens spec then Some (result None ''output_only'')
              else if \<not> exact_context_preflight_required (length upstream_body)
                         (cs_requested_output_tokens spec) context_window
              then Some (result None ''not_needed'')
              else (let input_tokens = fetch_input_token_count parse print send config upstream_body (cs_counter spec)
                    in Some (result input_tokens
                         (if input_tokens \<noteq> None then ''exact'' else ''unavailable'')))))"

section \<open>Lemmas\<close>

fun events_bytes :: "body_event list \<Rightarrow> bytes" where
  "events_bytes [] = []"
| "events_bytes (Chunk c # es) = c @ events_bytes es"
| "events_bytes (_ # es) = events_bytes es"

definition all_chunks :: "body_event list \<Rightarrow> bool" where
  "all_chunks es = list_all (\<lambda>e. \<exists>c. e = Chunk c) es"

lemma collect_loop_Inr:
  assumes "length body + length (events_bytes es) \<le> u64_max"
  shows "collect_loop None limit idle_ms body es = Inr out \<Longrightarrow> length body \<le> limit \<Longrightarrow>
    all_chunks es \<and> out = body @ events_bytes es \<and> length out \<le> limit"
  using assms
proof (induction "None :: (nat \<Rightarrow> bool) option" limit idle_ms body es rule: collect_loop.induct)
  case (4 limit idle_ms body chunk es)
  then have "length body + length chunk \<le> limit" and r: "collect_loop None limit idle_ms (body @ chunk) es = Inr out"
    by (auto simp: append_bounded_response_chunk_def Let_def sat_add_def split: if_splits)
  then have "all_chunks es \<and> out = (body @ chunk) @ events_bytes es \<and> length out \<le> limit"
    using 4 by (intro "4.hyps" [OF refl _ _ _ r]) (auto simp: append_bounded_response_chunk_def sat_add_def)
  then show ?case by (auto simp: all_chunks_def)
qed (auto simp: all_chunks_def)

lemma collect_loop_ok:
  "all_chunks es \<Longrightarrow> length body + length (events_bytes es) \<le> limit \<Longrightarrow> limit \<le> u64_max \<Longrightarrow>
    collect_loop None limit idle_ms body es = Inr (body @ events_bytes es)"
  by (induction "None :: (nat \<Rightarrow> bool) option" limit idle_ms body es rule: collect_loop.induct)
    (auto simp: all_chunks_def append_bounded_response_chunk_def Let_def sat_add_def)

lemma receive_loop_iff:
  "length acc \<le> limit \<Longrightarrow> receive_loop limit d acc es = Inr out \<longleftrightarrow>
     all_chunks es \<and> out = acc @ events_bytes es \<and> length out \<le> limit
     \<and> (case d of None \<Rightarrow> True | Some n \<Rightarrow> length es < n)"
  by (induction limit d acc es rule: receive_loop.induct) (auto simp: all_chunks_def split: option.splits)

section \<open>Properties\<close>

text \<open>
  \<open>receive\<close> returns an upload exactly when every event is a chunk, the whole body fits the
  limit and the deadline is not reached, and what it returns is the concatenation of the
  chunks; every failure is one of 400, 408 and 413.
\<close>

theorem receive_correct:
  "(receive limit d es = Inr out \<longleftrightarrow>
      all_chunks es \<and> out = events_bytes es \<and> length out \<le> limit
      \<and> (case d of None \<Rightarrow> True | Some n \<Rightarrow> length es < n))
   \<and> (\<forall>code. receive limit d es = Inl code \<longrightarrow> code \<in> {400, 408, 413})"
proof -
  have e: "receive_loop limit d acc es = Inl code \<Longrightarrow> code \<in> {400, 408, 413}" for acc code
    by (induction limit d acc es rule: receive_loop.induct) (auto split: if_splits)
  show ?thesis using receive_loop_iff [of "[]" limit d es out] e unfolding receive_def by auto
qed

theorem receive_correct_witness:
  "receive 3 None [Chunk ''ab'', Chunk ''c''] = Inr ''abc'' \<and> receive 3 None [Chunk ''abcd''] = Inl 413"
  using receive_correct [of 3 None "[Chunk ''ab'', Chunk ''c'']" "''abc''"]
  by (simp add: receive_def)

text \<open>
  \<open>collect_bounded_response_body\<close> returns a body exactly when the declared length, if any,
  and the received bytes are within the limit and the stream neither fails nor idles; the body
  is then everything that was received.
\<close>

theorem collect_body_correct:
  assumes "limit \<le> u64_max" and "length (events_bytes (us_events response)) \<le> u64_max"
  shows "collect_bounded_response_body None limit idle_ms response = Inr out \<longleftrightarrow>
    all_chunks (us_events response) \<and> out = events_bytes (us_events response) \<and> length out \<le> limit
    \<and> (\<forall>n. us_content_length response = Some n \<longrightarrow> n \<le> limit)"
proof -
  have l: "collect_loop None limit idle_ms [] (us_events response) = Inr out \<longleftrightarrow>
      all_chunks (us_events response) \<and> out = events_bytes (us_events response) \<and> length out \<le> limit"
    using collect_loop_Inr [of "[]" "us_events response" limit idle_ms out]
      collect_loop_ok [of "us_events response" "[]" limit idle_ms] assms by auto
  show ?thesis
  proof (cases "us_content_length response")
    case None
    then show ?thesis by (simp add: collect_bounded_response_body_def l)
  next
    case (Some n)
    then show ?thesis by (auto simp: collect_bounded_response_body_def l)
  qed
qed

theorem collect_body_correct_witness:
  "collect_bounded_response_body None 4 1000
     \<lparr> us_success = True, us_content_length = Some 3, us_events = [Chunk ''abc''] \<rparr> = Inr ''abc''"
  using collect_body_correct [of 4 "\<lparr> us_success = True, us_content_length = Some 3, us_events = [Chunk ''abc''] \<rparr>" 1000 "''abc''"]
  by (simp add: all_chunks_def)

text \<open>
  The context preflight reports an overflow exactly when the requested output alone is too
  large, or when the exact count was needed and available and input plus output exceed the
  window.  Skipping the exact count is sound: then every input of at most as many tokens as the
  body has bytes plus the template margin fits the window together with the output.
\<close>

theorem context_preflight_correct:
  assumes "context_limit_violation parse print send config path body window = Some v" and "window < u64_max"
  shows "(exceeded v \<longleftrightarrow> window < cv_requested_output_tokens v
      \<or> (\<exists>n. cv_input_tokens v = Some n \<and> cv_input_source v = ''exact''
            \<and> window < n + cv_requested_output_tokens v))
    \<and> (cv_input_source v = ''not_needed'' \<longrightarrow>
        (\<forall>n \<le> length body + CONTEXT_PREFLIGHT_TEMPLATE_MARGIN_TOKENS. n + cv_requested_output_tokens v \<le> window))
    \<and> cv_context_window v = window \<and> 1 \<le> cv_requested_output_tokens v"
proof -
  obtain spec where s: "preflight_spec parse path body = Some spec"
    using assms(1) by (auto simp: context_limit_violation_def split: if_splits option.splits)
  have o: "1 \<le> cs_requested_output_tokens spec"
    using s by (auto simp: preflight_spec_def output_tokens_def split: option.splits if_splits)
  have w: "window \<noteq> 0" using assms(1) by (cases "window = 0") (simp_all add: context_limit_violation_def)
  show ?thesis
  proof (cases "window < cs_requested_output_tokens spec")
    case True
    then show ?thesis using assms s o w
      by (auto simp: context_limit_violation_def Let_def exceeded_def sat_add_def)
  next
    case fits: False
    show ?thesis
    proof (cases "exact_context_preflight_required (length body) (cs_requested_output_tokens spec) window")
      case True
      then show ?thesis using assms s o w fits
        by (auto simp: context_limit_violation_def Let_def exceeded_def sat_add_def split: option.splits)
    next
      case False
      then have "length body + cs_requested_output_tokens spec + CONTEXT_PREFLIGHT_TEMPLATE_MARGIN_TOKENS \<le> window"
        using assms(2) by (auto simp: exact_context_preflight_required_def sat_add_def min_def split: if_splits)
      then show ?thesis using assms s o w fits False
        by (auto simp: context_limit_violation_def Let_def exceeded_def sat_add_def)
    qed
  qed
qed

theorem context_preflight_correct_witness:
  "\<exists>v. context_limit_violation (\<lambda>_. Some (JObject [(''max_tokens'', JNumber (PosInt 10))])) (\<lambda>_. None)
     (\<lambda>_ _. None) proxy_config_default ''/v1/messages'' ''{}'' 5 = Some v \<and> exceeded v"
proof -
  let ?v = "\<lparr> cv_error_param = ''messages'', cv_input_tokens = None, cv_requested_output_tokens = 10,
     cv_context_window = 5, cv_input_source = ''output_only'' \<rparr>"
  have "context_limit_violation (\<lambda>_. Some (JObject [(''max_tokens'', JNumber (PosInt 10))])) (\<lambda>_. None)
     (\<lambda>_ _. None) proxy_config_default ''/v1/messages'' ''{}'' 5 = Some ?v"
    by (simp add: context_limit_violation_def preflight_spec_def output_tokens_def json_field_def)
  then show ?thesis using context_preflight_correct by fastforce
qed

end
