(* ===== verification/Quota_Request.thy ===== *)
theory Quota_Request
  imports Request_Body Usage_Quota
begin

text \<open>
  The quota preflight of a request: \<open>src-tauri/src/commands/proxy_quota_request.rs\<close> (the output
  limit of a generation request is made explicit and unique) and \<open>proxy_quota.rs\<close> (how many
  tokens a request reserves).  The shown guarantee is that the reservation covers the input
  count plus the output limit that is really sent upstream.
\<close>

definition OUTPUT_FIELDS :: "string list" where
  "OUTPUT_FIELDS = [''max_tokens'', ''max_completion_tokens'', ''max_output_tokens'', ''n_predict'', ''max_new_tokens'']"

definition GENERATION_FIELDS :: "string list" where
  "GENERATION_FIELDS = [''n'', ''best_of'', ''num_return_sequences'']"

record output_limit =
  ol_tokens :: nat
  ol_defaulted :: bool
  ol_field :: string

definition fit_default :: "nat \<Rightarrow> nat option \<Rightarrow> json \<Rightarrow> output_limit \<Rightarrow> output_limit \<times> json" where
  "fit_default input context value l =
     (if ol_defaulted l then
        (case context of
           None \<Rightarrow> (l, value)
         | Some c \<Rightarrow>
             (if 0 < c
              then (let tokens = min (ol_tokens l) (max (c - input) 1)
                    in (l\<lparr>ol_tokens := tokens\<rparr>, json_set value (ol_field l) (JNumber (PosInt tokens))))
              else (l, value)))
      else (l, value))"

definition integer :: "json \<Rightarrow> int option" where
  "integer value =
     (case as_i64 value of
        Some n \<Rightarrow> Some n
      | None \<Rightarrow>
          (case as_str value of
             Some s \<Rightarrow> parse_i64 (trim s)
           | None \<Rightarrow>
               (case as_f64 value of
                  None \<Rightarrow> None
                | Some x \<Rightarrow> if of_int \<lfloor>x\<rfloor> = x \<and> - 2 \<le> x \<and> x \<le> of_nat i32_max then Some \<lfloor>x\<rfloor> else None)))"

text \<open>\<open>object.get(name).filter(|v| !v.is_null())\<close>\<close>

definition present :: "(string \<times> json) list \<Rightarrow> string \<Rightarrow> json option" where
  "present object name =
     (case map_of object name of None \<Rightarrow> None | Some v \<Rightarrow> if is_null v then None else Some v)"

fun check_single_generation :: "(string \<times> json) list \<Rightarrow> string list \<Rightarrow> quota_error + unit" where
  "check_single_generation object [] = Inr ()"
| "check_single_generation object (name # names) =
     (case present object name of
        None \<Rightarrow> check_single_generation object names
      | Some v \<Rightarrow> if integer v \<noteq> Some 1 then Inl (QMultipleGenerations name)
                 else check_single_generation object names)"

fun finite_limit :: "(string \<times> json) list \<Rightarrow> nat option \<Rightarrow> string list \<Rightarrow> quota_error + nat option" where
  "finite_limit object fin [] = Inr fin"
| "finite_limit object fin (name # names) =
     (case present object name of
        None \<Rightarrow> finite_limit object fin names
      | Some v \<Rightarrow>
          (case integer v of
             None \<Rightarrow> Inl (QInvalidLimit name)
           | Some n \<Rightarrow>
               (if \<not> (- 2 \<le> n \<and> n \<le> int i32_max) then Inl (QInvalidLimit name)
                else if 0 \<le> n
                then finite_limit object
                       (Some (case fin of None \<Rightarrow> nat n | Some current \<Rightarrow> min current (nat n))) names
                else finite_limit object fin names)))"

definition single_prompt :: "json \<Rightarrow> json" where
  "single_prompt prompt =
     (case prompt of
        JArray [item] \<Rightarrow> if is_string item \<or> is_array item then item else prompt
      | _ \<Rightarrow> prompt)"

definition prompt_ok :: "json \<Rightarrow> bool" where
  "prompt_ok prompt \<longleftrightarrow> is_string prompt
     \<or> (case as_array prompt of None \<Rightarrow> False | Some a \<Rightarrow> a \<noteq> [] \<and> list_all (\<lambda>n. as_u64 n \<noteq> None) a)"

definition normalize_prompt :: "string \<Rightarrow> (string \<times> json) list \<Rightarrow> quota_error + (string \<times> json) list" where
  "normalize_prompt path object =
     (if path \<noteq> ''/v1/completions'' then Inr object
      else case map_of object ''prompt'' of
             None \<Rightarrow> Inl QUnmetered
           | Some prompt \<Rightarrow>
               (if prompt_ok (single_prompt prompt)
                then Inr (hm_insert ''prompt'' (single_prompt prompt) object)
                else Inl QUnsupportedBatch))"

definition limit_field :: "string \<Rightarrow> string option" where
  "limit_field path =
     (if path = ''/v1/chat/completions'' \<or> path = ''/v1/messages'' \<or> path = ''/v1/completions''
      then Some ''max_tokens''
      else if path = ''/v1/responses'' then Some ''max_output_tokens'' else None)"

definition default_tokens :: "nat \<Rightarrow> nat" where
  "default_tokens d = (if d = 0 then DEFAULT_QUOTA_OUTPUT_TOKENS else min d i32_max)"

definition normalize :: "string \<Rightarrow> json \<Rightarrow> nat \<Rightarrow> quota_error + json \<times> output_limit" where
  "normalize path value dflt =
     (case limit_field path of
        None \<Rightarrow> Inl QUnmetered
      | Some field \<Rightarrow>
          (case as_object value of
             None \<Rightarrow> Inl QUnmetered
           | Some object \<Rightarrow>
               (case check_single_generation object GENERATION_FIELDS of
                  Inl e \<Rightarrow> Inl e
                | Inr _ \<Rightarrow>
                    (case finite_limit object None OUTPUT_FIELDS of
                       Inl e \<Rightarrow> Inl e
                     | Inr fin \<Rightarrow>
                         (case normalize_prompt path object of
                            Inl e \<Rightarrow> Inl e
                          | Inr object1 \<Rightarrow>
                              (let object2 = fold hm_remove (OUTPUT_FIELDS @ GENERATION_FIELDS) object1;
                                   tokens = (case fin of None \<Rightarrow> default_tokens dflt | Some n \<Rightarrow> n)
                               in Inr (JObject (hm_insert field (JNumber (PosInt tokens)) object2),
                                       \<lparr> ol_tokens = tokens, ol_defaulted = (fin = None),
                                         ol_field = field \<rparr>)))))))"

definition vector_items :: "string \<Rightarrow> json \<Rightarrow> quota_error + nat" where
  "vector_items path value =
     (let rerank = (path \<in> set [''/rerank'', ''/reranking'', ''/v1/rerank'', ''/v1/reranking''])
      in case (if rerank then json_get_or value ''documents'' ''texts''
               else json_get_or value ''input'' ''content'') of
           None \<Rightarrow> Inl QUnmetered
         | Some input \<Rightarrow>
             (case (case as_array input of
                      Some a \<Rightarrow> if \<not> rerank \<and> (case a of [] \<Rightarrow> False | x # _ \<Rightarrow> is_number x) then Some 1
                               else Some (length a)
                    | None \<Rightarrow> if \<not> rerank \<and> is_string input then Some 1 else None) of
                None \<Rightarrow> Inl QUnmetered
              | Some n \<Rightarrow> if n = 0 \<or> 4096 < n then Inl QUnmetered else Inr n))"

record prepared =
  pp_body :: bytes
  pp_context_check :: "context_violation option"
  pp_reservation :: "(proxy_api_key \<times> nat) option"

definition count_path :: "string \<Rightarrow> bool" where
  "count_path path \<longleftrightarrow> path \<in> set [''/v1/messages/count_tokens'', ''/v1/chat/completions/input_tokens'',
     ''/v1/responses/input_tokens'']"

text \<open>
  \<open>prepare\<close>: \<open>key_id\<close> is the identity of the request's key, \<open>props\<close> the answer of the
  target's \<open>/props\<close> endpoint.
\<close>

definition prepare_generation ::
  "parser \<Rightarrow> printer \<Rightarrow> sender \<Rightarrow> proxy_config \<Rightarrow> string \<Rightarrow> json \<Rightarrow> nat option \<Rightarrow> proxy_api_key
    \<Rightarrow> context_preflight_spec \<Rightarrow> quota_error + prepared" where
  "prepare_generation parse print send config path value context_window key spec =
     (case normalize path value (ak_quota_default_output_tokens key) of
        Inl e \<Rightarrow> Inl e
      | Inr (value1, output) \<Rightarrow>
          (case print value1 of
             None \<Rightarrow> Inl QUnmetered
           | Some count_body \<Rightarrow>
               (case fetch_input_token_count parse print send config count_body (cs_counter spec) of
                  None \<Rightarrow> Inl QUnmetered
                | Some input \<Rightarrow>
                    (case fit_default input context_window value1 output of
                       (output2, value2) \<Rightarrow>
                         (case print value2 of
                            None \<Rightarrow> Inl QUnmetered
                          | Some body2 \<Rightarrow>
                              (let reserved_output = max (ol_tokens output2) 1
                               in case checked_add u64_max input reserved_output of
                                    None \<Rightarrow> Inl QUnmetered
                                  | Some amount \<Rightarrow> Inr
                                      \<lparr> pp_body = body2,
                                        pp_context_check = map_option (\<lambda>w.
                                          \<lparr> cv_error_param = cs_error_param spec, cv_input_tokens = Some input,
                                            cv_requested_output_tokens = reserved_output,
                                            cv_context_window = w, cv_input_source = ''exact'' \<rparr>) context_window,
                                        pp_reservation = Some (key, amount) \<rparr>))))))"

definition prepare ::
  "parser \<Rightarrow> printer \<Rightarrow> sender \<Rightarrow> json option \<Rightarrow> proxy_config \<Rightarrow> string \<Rightarrow> string \<Rightarrow> bytes \<Rightarrow> nat option
    \<Rightarrow> quota_error + prepared" where
  "prepare parse print send props config key_id path body context_window =
     (let unmetered = \<lparr> pp_body = body, pp_context_check = None, pp_reservation = None \<rparr> in
      if count_path path then Inr unmetered
      else case find (\<lambda>key. ak_id key = key_id \<and> quota_enabled key) (pc_api_keys config) of
        None \<Rightarrow> Inr unmetered
      | Some key \<Rightarrow>
          (case parse body of
             None \<Rightarrow> Inl QUnmetered
           | Some value \<Rightarrow>
               (case preflight_spec parse path body of
                  Some spec \<Rightarrow> prepare_generation parse print send config path value context_window key spec
                | None \<Rightarrow>
                    (case vector_items path value of
                       Inl e \<Rightarrow> Inl e
                     | Inr items \<Rightarrow>
                         (case props of
                            None \<Rightarrow> Inl QUnmetered
                          | Some p \<Rightarrow>
                              (case Option.bind (json_pointer2 p ''default_generation_settings'' ''n_ctx'') as_u64 of
                                 None \<Rightarrow> Inl QUnmetered
                               | Some context \<Rightarrow>
                                   (if context = 0 then Inl QUnmetered
                                    else case checked_mul u64_max context items of
                                           None \<Rightarrow> Inl QUnmetered
                                         | Some amount \<Rightarrow> Inr (unmetered\<lparr>pp_reservation := Some (key, amount)\<rparr>))))))))"

definition quota_status :: "quota_error \<Rightarrow> nat" where
  "quota_status e = (case e of QExceeded \<Rightarrow> 429 | QUnavailable \<Rightarrow> 503 | _ \<Rightarrow> 400)"

text \<open>\<open>admit\<close> reserves what \<open>prepare\<close> computed; without a reservation nothing happens.\<close>

definition admit ::
  "faults \<Rightarrow> (int \<Rightarrow> string + int) \<Rightarrow> string \<Rightarrow> int \<Rightarrow> (proxy_api_key \<times> nat) option \<Rightarrow> ledger
    \<Rightarrow> ledger \<times> (quota_error + quota_permit option)" where
  "admit faults month_start rid now reservation lg =
     (case reservation of
        None \<Rightarrow> (lg, Inr None)
      | Some (key, amount) \<Rightarrow>
          (case reserve_at faults month_start key rid amount now lg of
             (lg', Inl e) \<Rightarrow> (lg', Inl e)
           | (lg', Inr p) \<Rightarrow> (lg', Inr (Some p))))"

section \<open>Normalisation\<close>

definition limit_aliases :: "string list" where
  "limit_aliases = OUTPUT_FIELDS @ GENERATION_FIELDS"

text \<open>The finite limit a field of the request sets, if any.\<close>

definition explicit_limit :: "(string \<times> json) list \<Rightarrow> string \<Rightarrow> nat option" where
  "explicit_limit object name =
     (case present object name of
        None \<Rightarrow> None
      | Some v \<Rightarrow> (case integer v of Some n \<Rightarrow> if 0 \<le> n then Some (nat n) else None | None \<Rightarrow> None))"

lemma get_fold_remove: "map_of (fold hm_remove ks m) k = (if k \<in> set ks then None else map_of m k)"
  by (induction ks arbitrary: m) auto

lemma finite_limit_spec:
  assumes "finite_limit object acc names = Inr res" and "\<And>a. acc = Some a \<Longrightarrow> a \<le> i32_max"
  shows "(res = None \<longleftrightarrow> acc = None \<and> (\<forall>n \<in> set names. explicit_limit object n = None))
    \<and> (\<forall>r. res = Some r \<longrightarrow> r \<le> i32_max \<and> (\<forall>a. acc = Some a \<longrightarrow> r \<le> a)
         \<and> (\<forall>n \<in> set names. \<forall>x. explicit_limit object n = Some x \<longrightarrow> r \<le> x)
         \<and> (acc = Some r \<or> (\<exists>n \<in> set names. explicit_limit object n = Some r)))"
  using assms
proof (induction object acc names rule: finite_limit.induct)
  case (1 object acc)
  then show ?case by auto
next
  case (2 object acc name names)
  show ?case
  proof (cases "present object name")
    case None
    then have "explicit_limit object name = None" by (simp add: explicit_limit_def)
    moreover have "finite_limit object acc names = Inr res" using 2(4) None by simp
    ultimately show ?thesis using 2(1) [OF None] 2(5) by simp
  next
    case (Some v)
    then obtain n where n: "integer v = Some n" "- 2 \<le> n" "n \<le> int i32_max"
      using 2(4) by (auto split: option.splits if_splits)
    show ?thesis
    proof (cases "0 \<le> n")
      case True
      let ?acc = "Some (case acc of None \<Rightarrow> nat n | Some current \<Rightarrow> min current (nat n))"
      have e: "explicit_limit object name = Some (nat n)" using Some n True by (simp add: explicit_limit_def)
      have f: "finite_limit object ?acc names = Inr res" using 2(4) Some n True by simp
      have b: "\<And>a. ?acc = Some a \<Longrightarrow> a \<le> i32_max" using n 2(5) by (auto split: option.splits simp: min_def)
      show ?thesis
        using 2(2) [OF Some n(1) _ True f b] n e by (cases acc) (auto simp: min_def split: if_splits)
    next
      case False
      then have "explicit_limit object name = None" using Some n by (simp add: explicit_limit_def)
      moreover have "finite_limit object acc names = Inr res" using 2(4) Some n False by simp
      ultimately show ?thesis using 2(3) [OF Some n(1) _ False] n 2(5) by simp
    qed
  qed
qed

lemma default_tokens_le: "default_tokens d \<le> i32_max"
  by (simp add: default_tokens_def DEFAULT_QUOTA_OUTPUT_TOKENS_def)

lemma normalize_InrD:
  assumes "normalize path value dflt = Inr (value', l)"
  obtains field object fin object1 where "limit_field path = Some field" "value = JObject object"
    "finite_limit object None OUTPUT_FIELDS = Inr fin" "normalize_prompt path object = Inr object1"
    "ol_tokens l = (case fin of None \<Rightarrow> default_tokens dflt | Some n \<Rightarrow> n)"
    "ol_defaulted l = (fin = None)" "ol_field l = field"
    "value' = JObject (hm_insert field (JNumber (PosInt (ol_tokens l))) (fold hm_remove limit_aliases object1))"
proof -
  obtain object where "value = JObject object"
    using assms by (cases "value") (auto simp: normalize_def split: option.splits)
  then show thesis
    using assms that
    by (auto simp: normalize_def limit_aliases_def Let_def split: option.splits sum.splits)
qed

lemma limit_field_alias: "limit_field path = Some field \<Longrightarrow> field \<in> set OUTPUT_FIELDS"
  by (auto simp: limit_field_def OUTPUT_FIELDS_def split: if_splits)

lemma prompt_not_alias: "''prompt'' \<notin> set limit_aliases"
  by (simp add: limit_aliases_def OUTPUT_FIELDS_def GENERATION_FIELDS_def)

lemma normalize_prompt_get:
  "normalize_prompt path object = Inr object1 \<Longrightarrow> k \<noteq> ''prompt'' \<or> path \<noteq> ''/v1/completions'' \<Longrightarrow>
    map_of object1 k = map_of object k"
  by (auto simp: normalize_prompt_def split: if_splits option.splits)

text \<open>
  A normalised request has exactly one output limit: the canonical field of its endpoint.
  Its value never exceeds any finite limit the client set under any alias, equals one of them
  when there is one and the key's default otherwise, and fits 31 bits; all other aliases and
  multi-generation fields are gone and every other field is as the client sent it.
\<close>

theorem normalize_correct:
  assumes "normalize path (JObject object) dflt = Inr (value', l)"
  shows "json_get value' (ol_field l) = Some (JNumber (PosInt (ol_tokens l))) \<and> ol_tokens l \<le> i32_max
    \<and> (\<forall>name \<in> set limit_aliases. name \<noteq> ol_field l \<longrightarrow> json_get value' name = None)
    \<and> (\<forall>k. k \<notin> set limit_aliases \<longrightarrow> k \<noteq> ''prompt'' \<or> path \<noteq> ''/v1/completions'' \<longrightarrow>
          json_get value' k = map_of object k)
    \<and> (\<forall>name \<in> set OUTPUT_FIELDS. \<forall>x. explicit_limit object name = Some x \<longrightarrow> ol_tokens l \<le> x)
    \<and> (if ol_defaulted l
        then ol_tokens l = default_tokens dflt \<and> (\<forall>name \<in> set OUTPUT_FIELDS. explicit_limit object name = None)
        else \<exists>name \<in> set OUTPUT_FIELDS. explicit_limit object name = Some (ol_tokens l))"
proof -
  obtain field fin object1 where f: "limit_field path = Some field"
    "finite_limit object None OUTPUT_FIELDS = Inr fin" "normalize_prompt path object = Inr object1"
    "ol_tokens l = (case fin of None \<Rightarrow> default_tokens dflt | Some n \<Rightarrow> n)"
    "ol_defaulted l = (fin = None)" "ol_field l = field"
    "value' = JObject (hm_insert field (JNumber (PosInt (ol_tokens l))) (fold hm_remove limit_aliases object1))"
    using assms by (rule normalize_InrD) auto
  note s = finite_limit_spec [OF f(2), simplified]
  have lim: "ol_tokens l \<le> i32_max
    \<and> (\<forall>name \<in> set OUTPUT_FIELDS. \<forall>x. explicit_limit object name = Some x \<longrightarrow> ol_tokens l \<le> x)
    \<and> (if ol_defaulted l
        then ol_tokens l = default_tokens dflt \<and> (\<forall>name \<in> set OUTPUT_FIELDS. explicit_limit object name = None)
        else \<exists>name \<in> set OUTPUT_FIELDS. explicit_limit object name = Some (ol_tokens l))"
    using s f(4,5) default_tokens_le by (cases fin) auto
  have "field \<in> set limit_aliases" using limit_field_alias [OF f(1)] by (simp add: limit_aliases_def)
  then show ?thesis
    using lim f(6,7) normalize_prompt_get [OF f(3)] by (auto simp: get_fold_remove)
qed

theorem normalize_correct_witness:
  "\<exists>value' l. normalize ''/v1/chat/completions''
       (JObject [(''max_tokens'', JNumber (PosInt 900)), (''n_predict'', JNumber (PosInt 20))]) 0 = Inr (value', l)
     \<and> ol_tokens l \<le> 20"
proof -
  let ?o = "[(''max_tokens'', JNumber (PosInt 900)), (''n_predict'', JNumber (PosInt 20))]"
  obtain value' l where n: "normalize ''/v1/chat/completions'' (JObject ?o) 0 = Inr (value', l)"
    by (simp add: normalize_def limit_field_def GENERATION_FIELDS_def OUTPUT_FIELDS_def present_def integer_def
        normalize_prompt_def Let_def)
  have e: "explicit_limit ?o ''n_predict'' = Some 20" by (simp add: explicit_limit_def present_def integer_def)
  have "''n_predict'' \<in> set OUTPUT_FIELDS" by (simp add: OUTPUT_FIELDS_def)
  then have "ol_tokens l \<le> 20" using normalize_correct [OF n] e by blast
  then show ?thesis using n by blast
qed

lemma fold_remove_id: "\<forall>k \<in> set ks. map_of m k = None \<Longrightarrow> fold hm_remove ks m = m"
  by (induction ks) (auto simp: delete_id hm_get_None_iff)

lemma remove_insert_absent: "map_of m k = None \<Longrightarrow> hm_remove k (hm_insert k v m) = m"
  by (simp add: hm_get_None_iff hm_length_insert_new hm_remove_filter)
     (simp add: filter_id_conv image_iff, metis fst_conv)

lemma remove_other: "hm_remove k (m @ [(f, v)]) = (if k = f then hm_remove k m else hm_remove k m @ [(f, v)])"
  by (simp add: hm_remove_filter)

lemma fold_remove_insert:
  assumes "\<forall>k \<in> set ks. map_of m k = None" and "f \<in> set ks"
  shows "fold hm_remove ks (hm_insert f v m) = m"
  using assms
proof (induction ks)
  case (Cons k ks)
  have "map_of m f = None" using Cons.prems by auto
  then have i: "hm_insert f v m = m @ [(f, v)]" by (simp add: hm_get_None_iff hm_length_insert_new)
  have km: "hm_remove k m = m" using Cons.prems by (simp add: delete_id hm_get_None_iff)
  show ?case
  proof (cases "k = f")
    case True
    then show ?thesis using km Cons.prems fold_remove_id [of ks m] by (simp add: i remove_other)
  next
    case False
    then show ?thesis using Cons km by (simp add: i remove_other)
  qed
qed simp

lemma number_not_prompt: "as_u64 x = Some n \<Longrightarrow> \<not> is_string x \<and> \<not> is_array x"
  by (cases x) simp_all

lemma single_prompt_ok: "prompt_ok (single_prompt p) \<Longrightarrow> single_prompt (single_prompt p) = single_prompt p"
  by (auto simp: prompt_ok_def single_prompt_def dest!: number_not_prompt split: json.splits list.splits if_splits)

lemma single_generation_absent:
  "\<forall>n \<in> set names. map_of object n = None \<Longrightarrow> check_single_generation object names = Inr ()"
  by (induction names) (simp_all add: present_def)

lemma finite_limit_absent:
  "\<forall>n \<in> set names. map_of object n = None \<Longrightarrow> finite_limit object acc names = Inr acc"
  by (induction names) (simp_all add: present_def)

lemma finite_limit_single:
  assumes "f \<in> set names" and "distinct names" and "\<forall>n \<in> set names. n \<noteq> f \<longrightarrow> map_of object n = None"
    and "map_of object f = Some (JNumber (PosInt t))" and "t \<le> i32_max"
  shows "finite_limit object None names = Inr (Some t)"
  using assms(1-3)
proof (induction names)
  case (Cons n names)
  show ?case
  proof (cases "n = f")
    case True
    then have "\<forall>m \<in> set names. map_of object m = None" using Cons.prems by auto
    then show ?thesis using True assms(4,5) finite_limit_absent by (simp add: present_def integer_def)
  next
    case False
    then show ?thesis using Cons by (simp add: present_def)
  qed
qed simp

text \<open>
  Normalising is idempotent: a normalised request is accepted again, unchanged, with the same
  token limit, whatever default applies then.
\<close>

theorem normalize_idempotent:
  assumes "normalize path value dflt = Inr (value', l)"
  shows "normalize path value' dflt2 = Inr (value', l\<lparr>ol_defaulted := False\<rparr>)"
proof -
  obtain field object fin object1 where f: "limit_field path = Some field" "value = JObject object"
    "finite_limit object None OUTPUT_FIELDS = Inr fin" "normalize_prompt path object = Inr object1"
    "ol_tokens l = (case fin of None \<Rightarrow> default_tokens dflt | Some n \<Rightarrow> n)"
    "ol_defaulted l = (fin = None)" "ol_field l = field"
    "value' = JObject (hm_insert field (JNumber (PosInt (ol_tokens l))) (fold hm_remove limit_aliases object1))"
    using assms by (rule normalize_InrD)
  let ?m = "fold hm_remove limit_aliases object1"
  let ?o = "hm_insert field (JNumber (PosInt (ol_tokens l))) ?m"
  have le: "ol_tokens l \<le> i32_max" using normalize_correct [OF assms [unfolded f(2)]] by blast
  have fo: "field \<in> set OUTPUT_FIELDS" using limit_field_alias [OF f(1)] .
  have out: "field \<notin> set GENERATION_FIELDS" "distinct OUTPUT_FIELDS"
    using fo by (auto simp: OUTPUT_FIELDS_def GENERATION_FIELDS_def)
  have none: "\<forall>k \<in> set limit_aliases. map_of ?m k = None" by (simp add: get_fold_remove)
  have g: "check_single_generation ?o GENERATION_FIELDS = Inr ()"
    using none out(1) by (intro single_generation_absent) (auto simp: limit_aliases_def)
  have l: "finite_limit ?o None OUTPUT_FIELDS = Inr (Some (ol_tokens l))"
    using none fo out(2) le by (intro finite_limit_single) (auto simp: limit_aliases_def)
  have pf: "''prompt'' \<noteq> field" using fo prompt_not_alias by (auto simp: limit_aliases_def)
  have p: "normalize_prompt path ?o = Inr ?o"
  proof (cases "path = ''/v1/completions''")
    case False
    then show ?thesis by (simp add: normalize_prompt_def)
  next
    case True
    then obtain q where q: "map_of object1 ''prompt'' = Some (single_prompt q)" "prompt_ok (single_prompt q)"
      using f(4) by (auto simp: normalize_prompt_def split: option.splits if_splits)
    then have mo: "map_of ?o ''prompt'' = Some (single_prompt q)"
      using pf prompt_not_alias by (simp add: get_fold_remove)
    show ?thesis
      unfolding normalize_prompt_def mo option.case single_prompt_ok [OF q(2)] hm_insert_same [OF mo]
      using True q(2) by simp
  qed
  have r: "fold hm_remove limit_aliases ?o = ?m"
    using none fo by (intro fold_remove_insert) (auto simp: limit_aliases_def)
  show ?thesis
    unfolding f(8) normalize_def
    using f(1,7) g l p r by (simp add: limit_aliases_def Let_def)
qed

theorem normalize_idempotent_witness:
  "\<exists>v l. normalize ''/v1/responses'' (JObject [(''input'', JString ''hi'')]) 7 = Inr (v, l)
     \<and> normalize ''/v1/responses'' v 0 = Inr (v, l\<lparr>ol_defaulted := False\<rparr>)"
proof -
  obtain v l where n: "normalize ''/v1/responses'' (JObject [(''input'', JString ''hi'')]) 7 = Inr (v, l)"
    by (simp add: normalize_def limit_field_def GENERATION_FIELDS_def OUTPUT_FIELDS_def present_def
        normalize_prompt_def Let_def)
  then show ?thesis using normalize_idempotent [OF n] by blast
qed

section \<open>Coverage of the reservation\<close>

lemma fit_default_spec:
  assumes "fit_default input context value l = (l', value')" and "value = JObject object"
    and "json_get value (ol_field l) = Some (JNumber (PosInt (ol_tokens l)))"
  shows "ol_field l' = ol_field l \<and> json_get value' (ol_field l) = Some (JNumber (PosInt (ol_tokens l')))
    \<and> (\<forall>k. k \<noteq> ol_field l \<longrightarrow> json_get value' k = json_get value k)
    \<and> ol_tokens l' \<le> ol_tokens l
    \<and> (\<not> ol_defaulted l \<longrightarrow> value' = value \<and> l' = l)
    \<and> (\<forall>c. ol_defaulted l \<longrightarrow> context = Some c \<longrightarrow> input < c \<longrightarrow> input + ol_tokens l' \<le> c)"
  using assms by (auto simp: fit_default_def Let_def split: option.splits if_splits)

text \<open>
  \<open>v\<close> is the client's request with at most the output limit \<open>field\<close>: every other limit alias and
  multi-generation field is gone, a list of one prompt is unwrapped, the rest is as it came.
\<close>

definition same_request :: "string \<Rightarrow> string \<Rightarrow> (string \<times> json) list \<Rightarrow> json \<Rightarrow> bool" where
  "same_request path field object v \<longleftrightarrow>
     (\<forall>k. k \<noteq> field \<longrightarrow> json_get v k =
        (if k \<in> set limit_aliases then None
         else if k = ''prompt'' \<and> path = ''/v1/completions''
         then map_option single_prompt (map_of object k)
         else map_of object k))"

lemma normalize_same_request:
  assumes "normalize path (JObject object) dflt = Inr (value', l)"
  shows "same_request path (ol_field l) object value'"
proof -
  obtain field object1 where f: "normalize_prompt path object = Inr object1" "ol_field l = field"
    "value' = JObject (hm_insert field (JNumber (PosInt (ol_tokens l))) (fold hm_remove limit_aliases object1))"
    using assms by (rule normalize_InrD) auto
  have "map_of object1 k = (if k = ''prompt'' \<and> path = ''/v1/completions''
      then map_option single_prompt (map_of object k) else map_of object k)" for k
    using f(1) by (auto simp: normalize_prompt_def split: if_splits option.splits)
  then show ?thesis by (simp add: same_request_def f(2,3) get_fold_remove)
qed

text \<open>
  The output limit \<open>t\<close> of a request: the least limit the client set; a client without one gets the
  default of the key, reduced to what the input leaves of the context window, at least one token.
\<close>

definition limit_chosen :: "(string \<times> json) list \<Rightarrow> nat \<Rightarrow> nat option \<Rightarrow> nat \<Rightarrow> nat \<Rightarrow> bool" where
  "limit_chosen object default_limit context input t \<longleftrightarrow>
     (if \<forall>name \<in> set OUTPUT_FIELDS. explicit_limit object name = None
      then t = (case context of
                  None \<Rightarrow> default_limit
                | Some c \<Rightarrow> if c = 0 then default_limit else min default_limit (max (c - input) 1))
      else (\<exists>name \<in> set OUTPUT_FIELDS. explicit_limit object name = Some t)
        \<and> (\<forall>name \<in> set OUTPUT_FIELDS. \<forall>x. explicit_limit object name = Some x \<longrightarrow> t \<le> x))"

lemma fit_default_chosen:
  assumes "normalize path (JObject object) dflt = Inr (v1, l)" "fit_default input context v1 l = (l2, v2)"
  shows "limit_chosen object (default_tokens dflt) context input (ol_tokens l2)"
proof (cases "ol_defaulted l")
  case True
  then show ?thesis
    using normalize_correct [OF assms(1)] assms(2)
    by (auto simp: limit_chosen_def fit_default_def Let_def split: option.splits if_splits)
next
  case False
  then have "l2 = l" using assms(2) by (simp add: fit_default_def)
  then show ?thesis using normalize_correct [OF assms(1)] False by (auto simp: limit_chosen_def)
qed

text \<open>
  C15. The reservation of a generation request covers everything the upstream may use.  The body
  whose tokens are counted and the body that is forwarded are both the client's request, the same
  in every field but the one output limit; the forwarded limit \<open>t\<close> is the least one the client
  set, or the default of the key reduced to what the counted input leaves of the context window (at
  least one token); the reserved amount is the input count plus \<open>max t 1\<close>, for a key of the
  configuration with this id and a quota; and the context check sees the same two numbers.
\<close>

theorem reservation_covers:
  assumes "prepare parse print send props config key_id path body context = Inr p"
    and "pp_reservation p = Some (key, amount)" and "preflight_spec parse path body = Some spec"
  shows "\<exists>object field counted_value counted value input t.
      parse body = Some (JObject object) \<and> limit_field path = Some field
    \<and> same_request path field object counted_value \<and> print counted_value = Some counted
    \<and> fetch_input_token_count parse print send config counted (cs_counter spec) = Some input
    \<and> same_request path field object value \<and> print value = Some (pp_body p)
    \<and> json_get value field = Some (JNumber (PosInt t))
    \<and> limit_chosen object (default_tokens (ak_quota_default_output_tokens key)) context input t
    \<and> amount = input + max t 1 \<and> amount \<le> u64_max
    \<and> pp_context_check p = map_option (\<lambda>w. \<lparr> cv_error_param = cs_error_param spec,
        cv_input_tokens = Some input, cv_requested_output_tokens = max t 1, cv_context_window = w,
        cv_input_source = ''exact'' \<rparr>) context
    \<and> ak_id key = key_id \<and> quota_enabled key \<and> key \<in> set (pc_api_keys config)"
proof -
  obtain v0 where v0: "\<not> count_path path" "parse body = Some v0"
    "find (\<lambda>key. ak_id key = key_id \<and> quota_enabled key) (pc_api_keys config) = Some key"
    "prepare_generation parse print send config path v0 context key spec = Inr p"
    using assms by (auto simp: prepare_def Let_def prepare_generation_def split: if_splits option.splits sum.splits prod.splits)
  obtain v1 l counted input l2 v2 where n: "normalize path v0 (ak_quota_default_output_tokens key) = Inr (v1, l)"
    and pc: "print v1 = Some counted"
    and c: "fetch_input_token_count parse print send config counted (cs_counter spec) = Some input"
    and fd: "fit_default input context v1 l = (l2, v2)"
    and pr: "print v2 = Some (pp_body p)" and am: "amount = input + max (ol_tokens l2) 1" "amount \<le> u64_max"
    and ch: "pp_context_check p = map_option (\<lambda>w. \<lparr> cv_error_param = cs_error_param spec,
        cv_input_tokens = Some input, cv_requested_output_tokens = max (ol_tokens l2) 1,
        cv_context_window = w, cv_input_source = ''exact'' \<rparr>) context"
    using v0(4) assms(2)
    by (auto simp: prepare_generation_def Let_def split: sum.splits prod.splits option.splits)
  obtain object where o: "v0 = JObject object" using n by (rule normalize_InrD) blast
  obtain object' where o': "v1 = JObject object'" using n by (rule normalize_InrD) blast
  have lf: "limit_field path = Some (ol_field l)" using n by (rule normalize_InrD) auto
  have fs: "json_get v2 (ol_field l) = Some (JNumber (PosInt (ol_tokens l2)))"
    "\<And>k. k \<noteq> ol_field l \<Longrightarrow> json_get v2 k = json_get v1 k"
    using fit_default_spec [OF fd o'] normalize_correct [OF n [unfolded o]] by auto
  have same: "same_request path (ol_field l) object v1" "same_request path (ol_field l) object v2"
    using normalize_same_request [OF n [unfolded o]] fs(2) by (simp_all add: same_request_def)
  have key: "ak_id key = key_id \<and> quota_enabled key \<and> key \<in> set (pc_api_keys config)"
    using find_SomeD [OF v0(3)] by simp
  show ?thesis
    by (rule exI [of _ object], rule exI [of _ "ol_field l"], rule exI [of _ v1], rule exI [of _ counted],
        rule exI [of _ v2], rule exI [of _ input], rule exI [of _ "ol_tokens l2"], intro conjI)
      (use v0(2) o lf same pc c pr fs(1) fit_default_chosen [OF n [unfolded o] fd] am ch key in \<open>simp_all only:\<close>)
qed

definition demo_parse :: parser where
  "demo_parse b = (if b = ''q'' then Some (JObject [(''max_tokens'', JNumber (PosInt 5))])
     else if b = ''c'' then Some (JObject [(''input_tokens'', JNumber (PosInt 12))]) else None)"

definition demo_send :: sender where
  "demo_send path b = Some \<lparr> us_success = True, us_content_length = None, us_events = [Chunk ''c''] \<rparr>"

definition demo_config :: proxy_config where
  "demo_config = proxy_config_default\<lparr>pc_api_keys := [demo_key]\<rparr>"

definition demo_spec :: context_preflight_spec where
  "demo_spec = \<lparr> cs_counter = Native ''/v1/messages/count_tokens'', cs_error_param = ''messages'',
     cs_requested_output_tokens = 5 \<rparr>"

lemma demo_spec: "preflight_spec demo_parse ''/v1/messages'' ''q'' = Some demo_spec"
  by (simp add: preflight_spec_def demo_parse_def demo_spec_def output_tokens_def json_field_def)

lemma demo_find:
  "find (\<lambda>key. ak_id key = ''k'' \<and> quota_enabled key) (pc_api_keys demo_config) = Some demo_key"
  by (simp add: demo_config_def demo_key_def quota_enabled_def proxy_api_key_default_def)

lemma demo_count: "fetch_input_token_count demo_parse print demo_send config b (cs_counter demo_spec) = Some 12"
  by (simp add: fetch_input_token_count_def demo_spec_def fetch_token_count_value_def demo_send_def
      collect_bounded_response_body_def append_bounded_response_chunk_def MAX_TOKEN_COUNT_RESPONSE_BYTES_def
      demo_parse_def json_field_def sat_add_def Let_def)

lemma demo_normalize:
  "normalize ''/v1/messages'' (JObject [(''max_tokens'', JNumber (PosInt 5))]) d
    = Inr (JObject [(''max_tokens'', JNumber (PosInt 5))],
           \<lparr> ol_tokens = 5, ol_defaulted = False, ol_field = ''max_tokens'' \<rparr>)"
  by (simp add: normalize_def limit_field_def GENERATION_FIELDS_def OUTPUT_FIELDS_def present_def integer_def
      normalize_prompt_def Let_def)

theorem reservation_covers_witness:
  "\<exists>p. prepare demo_parse (\<lambda>_. Some ''p'') demo_send None demo_config ''k'' ''/v1/messages'' ''q'' None = Inr p
     \<and> pp_reservation p = Some (demo_key, 17)
     \<and> (\<exists>value input t. (17 :: nat) = input + max t 1 \<and> json_get value ''max_tokens'' = Some (JNumber (PosInt t)))"
proof -
  let ?p = "\<lparr> pp_body = ''p'', pp_context_check = None, pp_reservation = Some (demo_key, 17) \<rparr>"
  have parse: "demo_parse ''q'' = Some (JObject [(''max_tokens'', JNumber (PosInt 5))])" by (simp add: demo_parse_def)
  have "\<not> count_path ''/v1/messages''" by (simp add: count_path_def)
  then have p: "prepare demo_parse (\<lambda>_. Some ''p'') demo_send None demo_config ''k'' ''/v1/messages'' ''q'' None = Inr ?p"
    unfolding prepare_def Let_def demo_find demo_spec parse option.case prepare_generation_def demo_normalize
    by (simp add: demo_count fit_default_def checked_add_def)
  have "limit_field ''/v1/messages'' = Some ''max_tokens''" by (simp add: limit_field_def)
  then have "\<exists>value input t. (17 :: nat) = input + max t 1 \<and> json_get value ''max_tokens'' = Some (JNumber (PosInt t))"
    using reservation_covers [OF p _ demo_spec, of demo_key 17] by auto
  then show ?thesis using p by simp
qed

end
