(* ===== verification/Tool_History.thy ===== *)
theory Tool_History
  imports Json_Value "HOL-Library.Multiset"
begin

text \<open>
  The check of tool calls and tool results in a chat history
  (\<open>src-tauri/src/commands/proxy_tool_history.rs\<close>).  \<open>validate\<close> follows the loop of the code with
  its two hash sets as lists; \<open>well_paired\<close> is the reference definition: every message that is
  not a tool result is followed by exactly the results of the calls it makes.
\<close>

section \<open>Definitions\<close>

record tool_history_error =
  he_param :: string
  he_message :: string

definition message_role :: "json \<Rightarrow> string option" where
  "message_role m = json_field as_str m ''role''"

text \<open>A string field that is not blank.\<close>

definition nonblank_field :: "json \<Rightarrow> string \<Rightarrow> string option" where
  "nonblank_field v k =
     (case json_field as_str v k of None \<Rightarrow> None | Some s \<Rightarrow> if trim s = [] then None else Some s)"

definition at_index :: "string \<Rightarrow> nat \<Rightarrow> string" where
  "at_index s i = s @ ''['' @ show_nat i @ '']''"

text \<open>The inner loop over the calls of an assistant message.\<close>

fun collect_calls :: "nat \<Rightarrow> nat \<Rightarrow> json list \<Rightarrow> string list \<Rightarrow> tool_history_error + string list" where
  "collect_calls index call_index [] pending = Inr pending"
| "collect_calls index call_index (call # calls) pending =
     (let param = at_index (at_index ''messages'' index @ ''.tool_calls'') call_index @ ''.id''
      in case nonblank_field call ''id'' of
           None \<Rightarrow> Inl \<lparr> he_param = param, he_message = ''assistant tool calls require a non-empty string id'' \<rparr>
         | Some i \<Rightarrow>
             if i \<in> set pending
             then Inl \<lparr> he_param = param, he_message = ''tool call ids must be unique within an assistant turn'' \<rparr>
             else collect_calls index (call_index + 1) calls (i # pending))"

fun validate_loop :: "nat \<Rightarrow> json list \<Rightarrow> string list \<Rightarrow> string list \<Rightarrow> nat \<Rightarrow> tool_history_error option" where
  "validate_loop index [] pending answered batch_index =
     (if pending \<noteq> []
      then Some \<lparr> he_param = at_index ''messages'' batch_index @ ''.tool_calls'',
                  he_message = ''each assistant tool call requires a matching tool result before requesting another generation'' \<rparr>
      else None)"
| "validate_loop index (message # messages) pending answered batch_index =
     (if message_role message = Some ''tool'' then
        (let param = at_index ''messages'' index @ ''.tool_call_id''
         in case nonblank_field message ''tool_call_id'' of
              None \<Rightarrow> Some \<lparr> he_param = param,
                             he_message = ''tool results require a non-empty string tool_call_id'' \<rparr>
            | Some i \<Rightarrow>
                if i \<notin> set pending
                then Some \<lparr> he_param = param,
                            he_message = (if i \<in> set answered
                                          then ''a tool call must not receive duplicate results''
                                          else ''tool_call_id does not match an outstanding assistant tool call'') \<rparr>
                else validate_loop (index + 1) messages (removeAll i pending) (i # answered) batch_index)
      else if pending \<noteq> [] then
        Some \<lparr> he_param = at_index ''messages'' batch_index @ ''.tool_calls'',
               he_message = ''each assistant tool call requires a matching tool result before the next non-tool message'' \<rparr>
      else if message_role message \<noteq> Some ''assistant'' then
        validate_loop (index + 1) messages [] [] batch_index
      else case json_get message ''tool_calls'' of
        None \<Rightarrow> validate_loop (index + 1) messages [] [] batch_index
      | Some calls \<Rightarrow>
          if is_null calls then validate_loop (index + 1) messages [] [] batch_index
          else (case as_array calls of
                  None \<Rightarrow> Some \<lparr> he_param = at_index ''messages'' index @ ''.tool_calls'',
                                 he_message = ''assistant tool_calls must be an array or null'' \<rparr>
                | Some cs \<Rightarrow>
                    (case collect_calls index 0 cs [] of
                       Inl e \<Rightarrow> Some e
                     | Inr pending' \<Rightarrow> validate_loop (index + 1) messages pending' [] index)))"

definition validate :: "(bytes \<Rightarrow> json option) \<Rightarrow> string \<Rightarrow> bytes \<Rightarrow> tool_history_error option" where
  "validate parse path body =
     (if path \<noteq> ''/v1/chat/completions'' then None
      else case Option.bind (parse body) (\<lambda>value. json_field as_array value ''messages'') of
             None \<Rightarrow> None
           | Some messages \<Rightarrow> validate_loop 0 messages [] [] 0)"

section \<open>Reference definition\<close>

definition is_tool :: "json \<Rightarrow> bool" where
  "is_tool m \<longleftrightarrow> message_role m = Some ''tool''"

text \<open>The ids of the calls a message makes; \<open>None\<close> when they are malformed.\<close>

definition call_ids :: "json \<Rightarrow> string list option" where
  "call_ids m =
     (if message_role m \<noteq> Some ''assistant'' then Some []
      else case json_get m ''tool_calls'' of
             None \<Rightarrow> Some []
           | Some calls \<Rightarrow>
               if is_null calls then Some []
               else (case as_array calls of
                       None \<Rightarrow> None
                     | Some cs \<Rightarrow>
                         (let ids = map (\<lambda>c. nonblank_field c ''id'') cs
                          in if None \<in> set ids \<or> \<not> distinct ids then None else Some (map the ids))))"

definition results_match :: "string list \<Rightarrow> json list \<Rightarrow> bool" where
  "results_match ids tools \<longleftrightarrow>
     mset (map (\<lambda>t. nonblank_field t ''tool_call_id'') tools) = mset (map Some ids)"

function well_paired :: "json list \<Rightarrow> bool" where
  "well_paired [] = True"
| "well_paired (m # ms) =
     (\<not> is_tool m
      \<and> (case call_ids m of None \<Rightarrow> False | Some ids \<Rightarrow> results_match ids (takeWhile is_tool ms))
      \<and> well_paired (dropWhile is_tool ms))"
  by pat_completeness auto
termination
  by (relation "measure length") (auto simp: less_Suc_eq_le length_dropWhile_le)

section \<open>Lemmas\<close>

lemma collect_calls_iff:
  "distinct pending \<Longrightarrow>
    (\<exists>p. collect_calls i k cs pending = Inr p) \<longleftrightarrow>
      None \<notin> set (map (\<lambda>c. nonblank_field c ''id'') cs)
      \<and> distinct (map (\<lambda>c. nonblank_field c ''id'') cs @ map Some pending)"
proof (induction i k cs pending rule: collect_calls.induct)
  case (1 index call_index pending)
  then show ?case by (simp add: distinct_map)
next
  case (2 index call_index call calls pending)
  then show ?case by (cases "nonblank_field call ''id''") (auto simp: image_iff)
qed

lemma collect_calls_mset:
  "collect_calls i k cs pending = Inr p \<Longrightarrow>
    mset (map Some p) = mset (map (\<lambda>c. nonblank_field c ''id'') cs) + mset (map Some pending)"
proof (induction i k cs pending rule: collect_calls.induct)
  case (2 index call_index call calls pending)
  then show ?case by (cases "nonblank_field call ''id''") (auto simp: Let_def split: if_splits)
qed simp

lemma collect_calls_distinct:
  "collect_calls i k cs pending = Inr p \<Longrightarrow> distinct pending \<Longrightarrow> distinct p"
proof (induction i k cs pending rule: collect_calls.induct)
  case (2 index call_index call calls pending)
  then show ?case by (cases "nonblank_field call ''id''") (auto simp: Let_def split: if_splits)
qed simp

lemma results_match_set: "results_match ids ts \<Longrightarrow> t \<in> set ts \<Longrightarrow> nonblank_field t ''tool_call_id'' \<in> Some ` set ids"
proof -
  assume "results_match ids ts" and t: "t \<in> set ts"
  then have "mset (map (\<lambda>t. nonblank_field t ''tool_call_id'') ts) = mset (map Some ids)"
    by (simp only: results_match_def)
  from mset_eq_setD [OF this] show ?thesis using t by auto
qed

lemma map_Some_the: "None \<notin> set xs \<Longrightarrow> map Some (map the xs) = xs"
  by (induction xs) auto

lemma distinct_map_the: "None \<notin> set xs \<Longrightarrow> distinct xs \<Longrightarrow> distinct (map the xs)"
  using map_Some_the by (metis distinct_map)

lemma loop_tools:
  assumes "list_all is_tool ts" and "rest = [] \<or> \<not> is_tool (hd rest)" and "distinct pending"
  shows "validate_loop i (ts @ rest) pending answered b = None \<longleftrightarrow>
    results_match pending ts \<and> validate_loop (i + length ts) rest [] [] b = None"
  using assms(1,3)
proof (induction ts arbitrary: i pending answered)
  case Nil
  show ?case
  proof (cases rest)
    case Nil
    then show ?thesis by (simp add: results_match_def)
  next
    case (Cons m ms)
    then have "message_role m \<noteq> Some ''tool''" using assms(2) by (simp add: is_tool_def)
    then show ?thesis using Cons by (cases pending) (simp_all add: results_match_def)
  qed
next
  case (Cons t ts)
  have tool: "message_role t = Some ''tool''" using Cons.prems by (simp add: is_tool_def)
  have all: "list_all is_tool ts" using Cons.prems by simp
  show ?case
  proof (cases "nonblank_field t ''tool_call_id''")
    case None
    then have "\<not> results_match pending (t # ts)" using results_match_set [of pending "t # ts" t] by auto
    then show ?thesis using tool None by simp
  next
    case (Some x)
    show ?thesis
    proof (cases "x \<in> set pending")
      case False
      then have "\<not> results_match pending (t # ts)" using Some results_match_set [of pending "t # ts" t] by auto
      then show ?thesis using tool Some False by simp
    next
      case True
      have r: "removeAll x pending = remove1 x pending" using Cons.prems(2) by (simp add: distinct_remove1_removeAll)
      have "mset pending = mset (x # remove1 x pending)" using True by simp
      then have "mset (map Some pending) = mset (map Some (x # remove1 x pending))" by (simp only: mset_map)
      then have "results_match pending (t # ts) = results_match (remove1 x pending) ts"
        using Some by (simp only: results_match_def list.map mset.simps add_mset_add_mset_same_iff)
      then show ?thesis
        using tool Some True Cons.IH [OF all, of "remove1 x pending"] Cons.prems(2) by (simp add: r)
    qed
  qed
qed

lemma loop_split:
  assumes "distinct p"
  shows "validate_loop i ms p a b = None \<longleftrightarrow>
    results_match p (takeWhile is_tool ms)
    \<and> validate_loop (i + length (takeWhile is_tool ms)) (dropWhile is_tool ms) [] [] b = None"
proof -
  have "list_all is_tool (takeWhile is_tool ms)" by (auto simp: list_all_iff dest: set_takeWhileD)
  moreover have "dropWhile is_tool ms = [] \<or> \<not> is_tool (hd (dropWhile is_tool ms))"
    using hd_dropWhile [of is_tool ms] by (metis dropWhile_eq_Nil_conv)
  ultimately show ?thesis
    using loop_tools [of "takeWhile is_tool ms" "dropWhile is_tool ms" p i a b] assms by simp
qed

lemma results_match_cong: "mset q = mset p \<Longrightarrow> results_match q = results_match p"
  by (simp add: results_match_def fun_eq_iff)

lemma loop_pending_mset:
  assumes "distinct p" and "distinct q" and "mset q = mset p"
  shows "(validate_loop i ms q a b = None) = (validate_loop i ms p a b = None)"
  unfolding loop_split [OF assms(1)] loop_split [OF assms(2)] results_match_cong [OF assms(3)] ..

lemma loop_batch_irrelevant: "(validate_loop i ms p a b = None) = (validate_loop i' ms p a' b' = None)"
proof (induction ms arbitrary: i i' p a a' b b')
  case (Cons m ms)
  show ?case
  proof (cases "message_role m = Some ''tool''")
    case True
    then show ?thesis using Cons by (auto simp: Let_def split: option.splits)
  next
    case False
    have c: "(\<exists>e. collect_calls i k cs q = Inl e) = (\<exists>e. collect_calls i' k' cs q = Inl e)"
      "collect_calls i k cs q = Inr r \<Longrightarrow> collect_calls i' k' cs q = Inr r" for k k' cs q r
      by (induction i k cs q arbitrary: k' r rule: collect_calls.induct) (auto simp: Let_def split: option.splits)
    show ?thesis
      using False Cons c
      by (auto split: option.splits sum.splits) (metis Inl_Inr_False)+
  qed
qed simp

text \<open>What the loop does with a message that is not a tool result, when nothing is outstanding.\<close>

lemma loop_message:
  assumes "\<not> is_tool m"
  shows "validate_loop i (m # ms) [] a b = None \<longleftrightarrow>
    (case call_ids m of
       None \<Rightarrow> False
     | Some ids \<Rightarrow> \<exists>p. distinct p \<and> mset p = mset ids \<and> validate_loop (i + 1) ms p [] i = None)"
proof -
  have nt: "message_role m \<noteq> Some ''tool''" using assms by (simp add: is_tool_def)
  have plain: "(\<exists>p. distinct p \<and> mset p = mset [] \<and> validate_loop (i + 1) ms p [] i = None)
      = (validate_loop (i + 1) ms [] [] b = None)"
    using loop_batch_irrelevant [of "i + 1" ms "[]" "[]" i "i + 1" "[]" b] by auto
  show ?thesis
  proof (cases "message_role m = Some ''assistant'' \<and> json_get m ''tool_calls'' \<noteq> None
      \<and> \<not> is_null (the (json_get m ''tool_calls''))")
    case False
    then have "call_ids m = Some []" "validate_loop i (m # ms) [] a b = validate_loop (i + 1) ms [] [] b"
      using nt by (auto simp: call_ids_def split: option.splits)
    then show ?thesis using plain by simp
  next
    case True
    then obtain calls where c: "json_get m ''tool_calls'' = Some calls" "\<not> is_null calls" by auto
    show ?thesis
    proof (cases "as_array calls")
      case None
      then show ?thesis using True c nt by (simp add: call_ids_def)
    next
      case (Some cs)
      let ?ids = "map (\<lambda>c. nonblank_field c ''id'') cs"
      show ?thesis
      proof (cases "collect_calls i 0 cs []")
        case (Inl e)
        then have "None \<in> set ?ids \<or> \<not> distinct ?ids" using collect_calls_iff [of "[]" i 0 cs] by auto
        then show ?thesis using True c nt Some Inl by (auto simp: call_ids_def Let_def)
      next
        case (Inr p)
        have ok: "None \<notin> set ?ids" "distinct ?ids" using collect_calls_iff [of "[]" i 0 cs] Inr by auto
        have ids: "call_ids m = Some (map the ?ids)"
          using True c nt Some ok by (auto simp: call_ids_def Let_def)
        have d: "distinct p" using collect_calls_distinct [OF Inr] by simp
        have "map Some (map the ?ids) = ?ids" using ok(1) by (rule map_Some_the)
        then have "mset (map Some p) = mset (map Some (map the ?ids))"
          using collect_calls_mset [OF Inr] by (simp only: list.map mset.simps add_0_right)
        then have ms: "mset p = mset (map the ?ids)"
          unfolding mset_map [of Some] by (rule injD [OF multiset.inj_map [OF inj_Some]])
        have "validate_loop i (m # ms) [] a b = validate_loop (i + 1) ms p [] i"
          using True c nt Some Inr by simp
        moreover have "(\<exists>q. distinct q \<and> mset q = mset (map the ?ids) \<and> validate_loop (i + 1) ms q [] i = None)
            = (validate_loop (i + 1) ms p [] i = None)"
          using d ms loop_pending_mset [OF d] by metis
        ultimately show ?thesis unfolding ids option.case by simp
      qed
    qed
  qed
qed

lemma loop_well_paired: "validate_loop i ms [] a b = None \<longleftrightarrow> well_paired ms"
proof (induction ms arbitrary: i a b rule: well_paired.induct)
  case 1
  then show ?case by simp
next
  case (2 m ms)
  show ?case
  proof (cases "is_tool m")
    case True
    then show ?thesis by (simp add: is_tool_def Let_def split: option.splits)
  next
    case False
    have t: "validate_loop (i + 1) ms p [] i = None \<longleftrightarrow>
        results_match p (takeWhile is_tool ms) \<and> well_paired (dropWhile is_tool ms)" if "distinct p" for p
      unfolding loop_split [OF that] using 2 by simp
    show ?thesis
    proof (cases "call_ids m")
      case None
      then show ?thesis using loop_message [OF False] False by simp
    next
      case (Some ids)
      have "distinct ids"
      proof (cases "ids = []")
        case False
        then obtain cs where "ids = map the (map (\<lambda>c. nonblank_field c ''id'') cs)"
          "None \<notin> set (map (\<lambda>c. nonblank_field c ''id'') cs)" "distinct (map (\<lambda>c. nonblank_field c ''id'') cs)"
          using Some by (auto simp: call_ids_def Let_def split: if_splits option.splits)
        then show ?thesis using distinct_map_the by blast
      qed simp
      then have "(\<exists>p. distinct p \<and> mset p = mset ids \<and> validate_loop (i + 1) ms p [] i = None)
          = (results_match ids (takeWhile is_tool ms) \<and> well_paired (dropWhile is_tool ms))"
        using t results_match_cong by metis
      then show ?thesis
        unfolding loop_message [OF False] using False Some by simp
    qed
  qed
qed

section \<open>Property\<close>

text \<open>
  C16. \<open>validate\<close> accepts a chat history exactly when it is well paired: it starts with a message
  that is not a tool result, every assistant message has well-formed calls with unique,
  non-blank ids, and the tool results that follow it answer each of its calls exactly once and
  nothing else.  Other endpoints and bodies without a message list are left to the upstream.
\<close>

theorem validate_correct:
  "validate parse path body = None \<longleftrightarrow>
     (path = ''/v1/chat/completions'' \<longrightarrow>
       (case Option.bind (parse body) (\<lambda>value. json_field as_array value ''messages'') of
          None \<Rightarrow> True | Some messages \<Rightarrow> well_paired messages))"
  by (simp add: validate_def loop_well_paired split: option.splits)

definition demo_call :: json where
  "demo_call = JObject [(''role'', JString ''assistant''), (''tool_calls'', JArray [JObject [(''id'', JString ''x'')]])]"

definition demo_result :: json where
  "demo_result = JObject [(''role'', JString ''tool''), (''tool_call_id'', JString ''x'')]"

theorem validate_correct_witness:
  "validate (\<lambda>_. Some (JObject [(''messages'', JArray [demo_call, demo_result])])) ''/v1/chat/completions'' ''b'' = None
   \<and> validate (\<lambda>_. Some (JObject [(''messages'', JArray [demo_call])])) ''/v1/chat/completions'' ''b'' \<noteq> None"
proof -
  have "trim ''x'' = ''x''" by code_simp
  then have "well_paired [demo_call, demo_result]" "\<not> well_paired [demo_call]"
    by (simp_all add: demo_call_def demo_result_def is_tool_def message_role_def json_field_def call_ids_def
        nonblank_field_def results_match_def)
  then show ?thesis
    using validate_correct [of "\<lambda>_. Some (JObject [(''messages'', JArray [demo_call, demo_result])])"
        "''/v1/chat/completions''" "''b''"]
      validate_correct [of "\<lambda>_. Some (JObject [(''messages'', JArray [demo_call])])" "''/v1/chat/completions''" "''b''"]
    by (simp add: json_field_def)
qed

end
