(* ===== verification/Proxy_Config.thy ===== *)
theory Proxy_Config
  imports Proxy_Models
begin

text \<open>
  The configuration of the router: \<open>normalize_and_validate_proxy_config\<close> and its helpers in
  \<open>src-tauri/src/commands/proxy.rs\<close>, with \<open>format_host_port\<close> and \<open>service_url\<close> of
  \<open>utils.rs\<close>.  The parser of IP addresses of Rust's standard library is modelled here.
  Parameters stand for code outside the repository: \<open>digest\<close> is SHA-256 followed by unpadded
  URL-safe base64, \<open>parse_url\<close> is \<open>reqwest::Url::parse\<close>, \<open>uuid k\<close> is the \<open>k\<close>-th random
  identifier drawn.  The error texts, which are in Chinese, are constructors of \<open>config_error\<close>.
\<close>

declare map_of_eq_Some_iff [simp del]

section \<open>IP addresses\<close>

text \<open>\<open>IpAddr::from_str\<close>: a reader takes a prefix and gives back the rest.\<close>

definition is_hex_digit :: "char \<Rightarrow> bool" where
  "is_hex_digit c =
     (let n = (of_char c :: nat)
      in (48 \<le> n \<and> n \<le> 57) \<or> (65 \<le> n \<and> n \<le> 70) \<or> (97 \<le> n \<and> n \<le> 102))"

definition hex_value :: "char \<Rightarrow> nat" where
  "hex_value c =
     (let n = (of_char c :: nat)
      in if n \<le> 57 then n - 48 else if n \<le> 70 then n - 55 else n - 87)"

definition read_octet :: "string \<Rightarrow> (nat \<times> string) option" where
  "read_octet s =
     (let ds = takeWhile is_ascii_digit s
      in if ds = [] \<or> 3 < length ds \<or> 255 < digits_value ds \<or> (hd ds = CHR ''0'' \<and> 1 < length ds)
         then None else Some (digits_value ds, dropWhile is_ascii_digit s))"

definition read_char :: "char \<Rightarrow> string \<Rightarrow> string option" where
  "read_char c s = (case s of [] \<Rightarrow> None | x # xs \<Rightarrow> if x = c then Some xs else None)"

definition read_dot_octet :: "string \<Rightarrow> (nat \<times> string) option" where
  "read_dot_octet s = Option.bind (read_char (CHR ''.'') s) read_octet"

definition read_ipv4 :: "string \<Rightarrow> (nat list \<times> string) option" where
  "read_ipv4 s =
     Option.bind (read_octet s) (\<lambda>(a, s1).
       Option.bind (read_dot_octet s1) (\<lambda>(b, s2).
         Option.bind (read_dot_octet s2) (\<lambda>(c, s3).
           Option.bind (read_dot_octet s3) (\<lambda>(d, s4). Some ([a, b, c, d], s4)))))"

definition read_hex_group :: "string \<Rightarrow> (nat \<times> string) option" where
  "read_hex_group s =
     (let ds = takeWhile is_hex_digit s
      in if ds = [] \<or> 4 < length ds then None
         else Some (foldl (\<lambda>acc c. acc * 16 + hex_value c) 0 ds, dropWhile is_hex_digit s))"

definition read_separator :: "nat \<Rightarrow> string \<Rightarrow> string option" where
  "read_separator i s = (if 0 < i then read_char (CHR '':'') s else Some s)"

text \<open>Up to \<open>n\<close> groups from index \<open>i\<close> on; the flag says that an IPv4 part ended them.\<close>

fun read_groups :: "nat \<Rightarrow> nat \<Rightarrow> string \<Rightarrow> nat list \<times> bool \<times> string" where
  "read_groups 0 i s = ([], False, s)"
| "read_groups (Suc n) i s =
     (case (if 0 < n then Option.bind (read_separator i s) read_ipv4 else None) of
        Some (q, rest) \<Rightarrow> ([q ! 0 * 256 + q ! 1, q ! 2 * 256 + q ! 3], True, rest)
      | None \<Rightarrow>
          (case Option.bind (read_separator i s) read_hex_group of
             Some (g, rest) \<Rightarrow> (case read_groups n (i + 1) rest of (gs, v4, r) \<Rightarrow> (g # gs, v4, r))
           | None \<Rightarrow> ([], False, s)))"

definition read_ipv6 :: "string \<Rightarrow> (nat list \<times> string) option" where
  "read_ipv6 s =
     (case read_groups 8 0 s of
        (head, head_ipv4, r) \<Rightarrow>
          if length head = 8 then Some (head, r)
          else if head_ipv4 then None
          else Option.bind (Option.bind (read_char (CHR '':'') r) (read_char (CHR '':''))) (\<lambda>t.
                 (case read_groups (8 - (length head + 1)) 0 t of
                    (tail, _, r2) \<Rightarrow>
                      Some (head @ replicate (8 - length head - length tail) 0 @ tail, r2))))"

definition parses_as_loopback :: "string \<Rightarrow> bool" where
  "parses_as_loopback s =
     (case read_ipv4 s of
        Some (q, rest) \<Rightarrow> rest = [] \<and> q ! 0 = 127
      | None \<Rightarrow> (case read_ipv6 s of
                  Some (gs, rest) \<Rightarrow> rest = [] \<and> gs = [0, 0, 0, 0, 0, 0, 0, 1]
                | None \<Rightarrow> False))"

section \<open>Hosts and URLs\<close>

definition unbracket_host :: "string \<Rightarrow> string" where
  "unbracket_host host =
     (let trimmed = trim host
      in case Option.bind (strip_prefix ''['' trimmed) (strip_suffix '']'') of
           Some h \<Rightarrow> h | None \<Rightarrow> trimmed)"

definition is_local_bind_host :: "string \<Rightarrow> bool" where
  "is_local_bind_host host =
     (let h = unbracket_host host in eq_ignore_ascii_case h ''localhost'' \<or> parses_as_loopback h)"

definition format_host_port :: "string \<Rightarrow> nat \<Rightarrow> string" where
  "format_host_port host port =
     (let normalized = unbracket_host host
      in if CHR '':'' \<in> set normalized then ''['' @ normalized @ '']:'' @ show_nat port
         else normalized @ '':'' @ show_nat port)"

definition service_url :: "string \<Rightarrow> string \<Rightarrow> nat \<Rightarrow> string \<Rightarrow> string \<Rightarrow> string" where
  "service_url scheme host port api_prefix path =
     (let scheme' = (if eq_ignore_ascii_case scheme ''https'' then ''https'' else ''http'');
          prefix = trim_matches (CHR ''/'') api_prefix;
          path' = trim_start_matches (CHR ''/'') path;
          suffix = (if prefix = [] then (if path' = [] then [] else ''/'' @ path')
                    else if path' = [] then ''/'' @ prefix else ''/'' @ prefix @ ''/'' @ path')
      in scheme' @ ''://'' @ format_host_port host port @ suffix)"

definition proxy_bound_addr :: "proxy_config \<Rightarrow> string" where
  "proxy_bound_addr config = format_host_port (trim (pc_host config)) (pc_port config)"

section \<open>API keys\<close>

definition PROXY_API_KEY_HASH_PREFIX :: string where
  "PROXY_API_KEY_HASH_PREFIX = ''sha256:''"

definition hash_proxy_api_key :: "(string \<Rightarrow> string) \<Rightarrow> string \<Rightarrow> string" where
  "hash_proxy_api_key digest key = PROXY_API_KEY_HASH_PREFIX @ digest key"

definition digest_char :: "char \<Rightarrow> bool" where
  "digest_char c \<longleftrightarrow> is_ascii_alphanumeric c \<or> c = CHR ''-'' \<or> c = CHR ''_''"

definition is_hashed_proxy_api_key :: "string \<Rightarrow> bool" where
  "is_hashed_proxy_api_key v =
     (case strip_prefix PROXY_API_KEY_HASH_PREFIX v of
        None \<Rightarrow> False | Some d \<Rightarrow> length d = 43 \<and> list_all digest_char d)"

text \<open>\<open>constant_time_eq\<close>: the loop runs over the longer length and ors up the differences.\<close>

definition byte_at :: "bytes \<Rightarrow> nat \<Rightarrow> nat" where
  "byte_at s i = (if i < length s then of_char (s ! i) else 0)"

definition constant_time_eq :: "bytes \<Rightarrow> bytes \<Rightarrow> bool" where
  "constant_time_eq l r =
     (fold (\<lambda>i difference. or difference (xor (byte_at l i) (byte_at r i)))
        [0..<max (length l) (length r)] (xor (length l) (length r)) = 0)"

definition proxy_api_key_matches :: "(string \<Rightarrow> string) \<Rightarrow> string \<Rightarrow> string \<Rightarrow> bool" where
  "proxy_api_key_matches digest stored presented =
     constant_time_eq stored
       (if is_hashed_proxy_api_key stored then hash_proxy_api_key digest presented else presented)"

section \<open>Normalisation\<close>

datatype config_error =
  NotLoopback
| UnsupportedStrategy string
| InvalidOrigin string
| ImpureOrigin string
| UnsupportedScope string
| KeyTooShort string
| DuplicateKey
| RouteWithoutAlias nat
| RouteWithoutTarget nat
| RouteTargetMissing nat

definition normalize_strategy :: "string \<Rightarrow> config_error + string" where
  "normalize_strategy s =
     (let t = trim s
      in if t = [] \<or> t = ''firstHealthy'' \<or> t = ''priorityFailover'' then Inr ''priorityFailover''
         else if t = ''roundRobin'' \<or> t = ''leastBusy'' \<or> t = ''weighted'' then Inr t
         else Inl (UnsupportedStrategy t))"

definition clamp_limits :: "proxy_config \<Rightarrow> proxy_config" where
  "clamp_limits c =
     (let interval = clamp 1000 300000 (pc_health_check_interval_ms c)
      in c\<lparr> pc_timeout_ms := clamp 1000 (24 * 60 * 60 * 1000) (pc_timeout_ms c),
            pc_connect_timeout_ms := clamp 100 60000 (pc_connect_timeout_ms c),
            pc_streaming_idle_timeout_ms := clamp 1000 (24 * 60 * 60 * 1000) (pc_streaming_idle_timeout_ms c),
            pc_health_check_interval_ms := interval,
            pc_health_check_timeout_ms := clamp 250 (max interval 250) (pc_health_check_timeout_ms c),
            pc_unhealthy_threshold := clamp 1 100 (pc_unhealthy_threshold c),
            pc_recovery_cooldown_ms := clamp 1000 3600000 (pc_recovery_cooldown_ms c),
            pc_max_concurrent_requests := clamp 1 100000 (pc_max_concurrent_requests c),
            pc_queue_timeout_ms := clamp 10 300000 (pc_queue_timeout_ms c),
            pc_requests_per_minute := min (pc_requests_per_minute c) 10000000 \<rparr>)"

definition hash_if_plain :: "(string \<Rightarrow> string) \<Rightarrow> string \<Rightarrow> string" where
  "hash_if_plain digest k = (if is_hashed_proxy_api_key k then k else hash_proxy_api_key digest k)"

definition all_scopes :: "string list" where
  "all_scopes = [''inference'', ''discovery'']"

text \<open>The first key that stands for the legacy key is enabled, or a new key is appended.\<close>

fun enable_legacy :: "(string \<Rightarrow> string) \<Rightarrow> string \<Rightarrow> proxy_api_key list \<Rightarrow> proxy_api_key list option" where
  "enable_legacy digest h [] = None"
| "enable_legacy digest h (k # ks) =
     (if hash_if_plain digest (trim (ak_key k)) = h
      then Some (k\<lparr> ak_enabled := True, ak_scopes := all_scopes \<rparr> # ks)
      else map_option ((#) k) (enable_legacy digest h ks))"

definition migrate_legacy_key :: "(string \<Rightarrow> string) \<Rightarrow> proxy_config \<Rightarrow> proxy_config" where
  "migrate_legacy_key digest c =
     (let legacy = trim (pc_public_api_key c);
          h = hash_if_plain digest legacy;
          keys = (if legacy = [] then pc_api_keys c
                  else case enable_legacy digest h (pc_api_keys c) of
                         Some ks \<Rightarrow> ks
                       | None \<Rightarrow> pc_api_keys c @
                           [(proxy_api_key_default [])\<lparr> ak_id := ''migrated-legacy-key'',
                              ak_name := ''Migrated legacy key'', ak_key := h, ak_enabled := True,
                              ak_scopes := all_scopes, ak_requests_per_minute := 0 \<rparr>])
      in c\<lparr> pc_api_keys := keys, pc_public_api_key := [] \<rparr>)"

record url =
  url_scheme :: string
  url_host :: "string option"
  url_username :: string
  url_password :: "string option"
  url_path :: string
  url_query :: "string option"
  url_fragment :: "string option"

definition pure_origin :: "url \<Rightarrow> bool" where
  "pure_origin u \<longleftrightarrow> (url_scheme u = ''http'' \<or> url_scheme u = ''https'') \<and> url_host u \<noteq> None
     \<and> url_username u = [] \<and> url_password u = None \<and> url_path u = ''/'' \<and> url_query u = None
     \<and> url_fragment u = None"

definition clean_origin :: "string \<Rightarrow> string" where
  "clean_origin o' = trim_end_matches (CHR ''/'') (trim o')"

fun check_origins :: "(string \<Rightarrow> url option) \<Rightarrow> string list \<Rightarrow> config_error option" where
  "check_origins parse_url [] = None"
| "check_origins parse_url (o' # os) =
     (case parse_url o' of
        None \<Rightarrow> Some (InvalidOrigin o')
      | Some u \<Rightarrow> if pure_origin u then check_origins parse_url os else Some (ImpureOrigin o'))"

text \<open>Keep the first of several origins that differ only in case.\<close>

fun dedup_origins :: "string list \<Rightarrow> string list \<Rightarrow> string list" where
  "dedup_origins seen [] = []"
| "dedup_origins seen (o' # os) =
     (if ascii_lowercase o' \<in> set seen then dedup_origins seen os
      else o' # dedup_origins (ascii_lowercase o' # seen) os)"

definition normalize_origins :: "(string \<Rightarrow> url option) \<Rightarrow> string list \<Rightarrow> config_error + string list" where
  "normalize_origins parse_url os =
     (let cleaned = filter (\<lambda>o'. o' \<noteq> []) (map clean_origin os)
      in case check_origins parse_url cleaned of
           Some e \<Rightarrow> Inl e | None \<Rightarrow> Inr (dedup_origins [] cleaned))"

text \<open>
  The loop that draws identifiers until one is new: the first index from \<open>n\<close> on whose
  identifier is not used.  \<open>None\<close> means that more than \<open>length used\<close> draws met a used one.
\<close>

definition fresh_id :: "(nat \<Rightarrow> string) \<Rightarrow> nat \<Rightarrow> string list \<Rightarrow> nat option" where
  "fresh_id uuid n used = find (\<lambda>k. uuid k \<notin> set used) [n..<n + length used + 1]"

text \<open>The identifier an entry gets, and the next unused index of the supply.\<close>

definition assign_id :: "(nat \<Rightarrow> string) \<Rightarrow> nat \<Rightarrow> string list \<Rightarrow> string \<Rightarrow> (string \<times> nat) option" where
  "assign_id uuid n used i =
     (if i = [] \<or> i \<in> set used
      then map_option (\<lambda>k. (uuid k, k + 1)) (fresh_id uuid n used)
      else Some (i, n))"

definition normalize_scopes :: "string list \<Rightarrow> string list" where
  "normalize_scopes ss =
     sort (remdups (filter (\<lambda>s. s \<noteq> []) (map (\<lambda>s. ascii_lowercase (trim s)) ss)))"

abbreviation max_safe_integer :: nat where
  "max_safe_integer \<equiv> 9007199254740991"

definition limit_key :: "proxy_api_key \<Rightarrow> proxy_api_key" where
  "limit_key k =
     k\<lparr> ak_requests_per_minute := min (ak_requests_per_minute k) 10000000,
        ak_max_concurrent_requests := min (ak_max_concurrent_requests k) 100000,
        ak_daily_token_budget := min (ak_daily_token_budget k) max_safe_integer,
        ak_monthly_token_budget := min (ak_monthly_token_budget k) max_safe_integer,
        ak_daily_token_limit := min (ak_daily_token_limit k) max_safe_integer,
        ak_monthly_token_limit := min (ak_monthly_token_limit k) max_safe_integer,
        ak_quota_default_output_tokens :=
          (if ak_quota_default_output_tokens k = 0 then DEFAULT_QUOTA_OUTPUT_TOKENS
           else min (ak_quota_default_output_tokens k) i32_max) \<rparr>"

definition hash_key :: "(string \<Rightarrow> string) \<Rightarrow> proxy_api_key \<Rightarrow> proxy_api_key" where
  "hash_key digest k =
     (if 16 \<le> length (ak_key k) \<and> \<not> is_hashed_proxy_api_key (ak_key k)
      then k\<lparr>ak_key := hash_proxy_api_key digest (ak_key k)\<rparr> else k)"

definition clean_key :: "string \<Rightarrow> proxy_api_key \<Rightarrow> proxy_api_key" where
  "clean_key i k =
     limit_key (k\<lparr> ak_id := i, ak_name := trim (ak_name k), ak_key := trim (ak_key k),
                   ak_scopes := normalize_scopes (ak_scopes k) \<rparr>)"

text \<open>The checks of one key, with the values of the enabled keys before it.\<close>

definition check_key :: "(string \<Rightarrow> string) \<Rightarrow> string list \<Rightarrow> proxy_api_key \<Rightarrow> config_error + proxy_api_key" where
  "check_key digest vals k =
     (if \<not> list_all (\<lambda>s. s \<in> set all_scopes) (ak_scopes k) then Inl (UnsupportedScope (ak_name k))
      else if ak_enabled k \<and> \<not> is_hashed_proxy_api_key (ak_key k) \<and> length (ak_key k) < 16
      then Inl (KeyTooShort (ak_name k))
      else if ak_enabled k \<and> ak_key (hash_key digest k) \<in> set vals then Inl DuplicateKey
      else Inr (hash_key digest k))"

text \<open>Outer \<open>None\<close>: an identifier loop did not find a new identifier.\<close>

fun normalize_keys ::
  "(string \<Rightarrow> string) \<Rightarrow> (nat \<Rightarrow> string) \<Rightarrow> nat \<Rightarrow> string list \<Rightarrow> string list \<Rightarrow> proxy_api_key list
    \<Rightarrow> (config_error + proxy_api_key list \<times> nat) option" where
  "normalize_keys digest uuid n ids vals [] = Some (Inr ([], n))"
| "normalize_keys digest uuid n ids vals (k # ks) =
     (case assign_id uuid n ids (trim (ak_id k)) of
        None \<Rightarrow> None
      | Some (i, n') \<Rightarrow>
          (case check_key digest vals (clean_key i k) of
             Inl e \<Rightarrow> Some (Inl e)
           | Inr k' \<Rightarrow>
               (case normalize_keys digest uuid n' (i # ids) (if ak_enabled k' then ak_key k' # vals else vals) ks of
                  None \<Rightarrow> None
                | Some (Inl e) \<Rightarrow> Some (Inl e)
                | Some (Inr (ks', m)) \<Rightarrow> Some (Inr (k' # ks', m)))))"

fun normalize_routes ::
  "(nat \<Rightarrow> string) \<Rightarrow> nat \<Rightarrow> string list \<Rightarrow> proxy_route list \<Rightarrow> (proxy_route list \<times> nat) option" where
  "normalize_routes uuid n ids [] = Some ([], n)"
| "normalize_routes uuid n ids (r # rs) =
     (case assign_id uuid n ids (trim (rt_id r)) of
        None \<Rightarrow> None
      | Some (i, n') \<Rightarrow>
          map_option (\<lambda>(rs', m).
              (r\<lparr> rt_id := i, rt_model_alias := trim (rt_model_alias r),
                  rt_target_instance_id := trim (rt_target_instance_id r),
                  rt_weight := clamp 1 1000 (rt_weight r),
                  rt_max_concurrent_requests := min (rt_max_concurrent_requests r) 100000 \<rparr> # rs', m))
            (normalize_routes uuid n' (i # ids) rs))"

fun check_routes :: "(string, instance_config) hmap \<Rightarrow> nat \<Rightarrow> proxy_route list \<Rightarrow> config_error option" where
  "check_routes instances i [] = None"
| "check_routes instances i (r # rs) =
     (if \<not> rt_enabled r then check_routes instances (i + 1) rs
      else if trim (rt_model_alias r) = [] then Some (RouteWithoutAlias (i + 1))
      else if trim (rt_target_instance_id r) = [] then Some (RouteWithoutTarget (i + 1))
      else if hm_get instances (trim (rt_target_instance_id r)) = None then Some (RouteTargetMissing (i + 1))
      else check_routes instances (i + 1) rs)"

definition normalize_and_validate_proxy_config ::
  "(string \<Rightarrow> string) \<Rightarrow> (string \<Rightarrow> url option) \<Rightarrow> (nat \<Rightarrow> string) \<Rightarrow> proxy_config
    \<Rightarrow> (string, instance_config) hmap \<Rightarrow> (config_error + proxy_config) option" where
  "normalize_and_validate_proxy_config digest parse_url uuid config instances =
     (let host = (if trim (pc_host config) = [] then ''127.0.0.1'' else trim (pc_host config))
      in if \<not> is_local_bind_host host then Some (Inl NotLoopback)
         else (case normalize_strategy (pc_routing_strategy config) of
           Inl e \<Rightarrow> Some (Inl e)
         | Inr strategy \<Rightarrow>
             (let c1 = migrate_legacy_key digest (clamp_limits (config\<lparr> pc_host := host,
                         pc_default_instance_id := trim (pc_default_instance_id config),
                         pc_routing_strategy := strategy \<rparr>))
              in case normalize_origins parse_url (pc_cors_allowed_origins c1) of
                   Inl e \<Rightarrow> Some (Inl e)
                 | Inr origins \<Rightarrow>
                     (case normalize_keys digest uuid 0 [] [] (pc_api_keys c1) of
                        None \<Rightarrow> None
                      | Some (Inl e) \<Rightarrow> Some (Inl e)
                      | Some (Inr (keys, n)) \<Rightarrow>
                          (case normalize_routes uuid n [] (pc_routes c1) of
                             None \<Rightarrow> None
                           | Some (routes, _) \<Rightarrow>
                               (case check_routes instances 0 routes of
                                  Some e \<Rightarrow> Some (Inl e)
                                | None \<Rightarrow> Some (Inr (c1\<lparr> pc_cors_allowed_origins := origins,
                                    pc_api_keys := keys, pc_routes := routes \<rparr>))))))))"

section \<open>Updates of a running router\<close>

text \<open>\<open>split_once(']')\<close> and \<open>rsplit_once(':')\<close>, the part before the separator.\<close>

definition before_first :: "char \<Rightarrow> string \<Rightarrow> string option" where
  "before_first c s = (if c \<in> set s then Some (takeWhile (\<lambda>x. x \<noteq> c) s) else None)"

definition before_last :: "char \<Rightarrow> string \<Rightarrow> string option" where
  "before_last c s = (if c \<in> set s then Some (rev (tl (dropWhile (\<lambda>x. x \<noteq> c) (rev s)))) else None)"

datatype update_error = AddressChanged | BoundNotLoopback

definition bound_host :: "string \<Rightarrow> string" where
  "bound_host addr =
     (case Option.bind (strip_prefix ''['' addr) (before_first (CHR '']'')) of
        Some h \<Rightarrow> h
      | None \<Rightarrow> (case before_last (CHR '':'') addr of Some h \<Rightarrow> h | None \<Rightarrow> addr))"

definition validate_proxy_config_update ::
  "proxy_config \<Rightarrow> proxy_config \<Rightarrow> bool \<Rightarrow> string option \<Rightarrow> update_error + unit" where
  "validate_proxy_config_update current next running actual_bound_addr =
     (if \<not> running then Inr ()
      else (let addr = (case actual_bound_addr of None \<Rightarrow> proxy_bound_addr current | Some a \<Rightarrow> a)
            in if proxy_bound_addr next \<noteq> addr then Inl AddressChanged
               else if \<not> is_local_bind_host (bound_host addr) then Inl BoundNotLoopback
               else Inr ()))"

section \<open>Comparing keys\<close>

lemma fold_or_zero:
  "fold (\<lambda>i d. or d (f i)) is d = (0 :: nat) \<longleftrightarrow> d = 0 \<and> (\<forall>i \<in> set is. f i = 0)"
  by (induction "is" arbitrary: d) (auto simp: or_eq_0_iff)

lemma xor_zero_iff: "xor a b = (0 :: nat) \<longleftrightarrow> a = b"
proof
  assume e: "xor a b = 0"
  show "a = b"
  proof (rule bit_eqI)
    fix n
    have "bit (xor a b) n = bit (0 :: nat) n" using e by simp
    then show "bit a n = bit b n" by (simp add: bit_xor_iff)
  qed
qed simp

lemma constant_time_eq_iff: "constant_time_eq l r \<longleftrightarrow> l = r"
proof
  assume "constant_time_eq l r"
  then have len: "length l = length r" and b: "\<And>i. i < length l \<Longrightarrow> byte_at l i = byte_at r i"
    by (auto simp: constant_time_eq_def fold_or_zero xor_zero_iff)
  show "l = r"
  proof (rule nth_equalityI [OF len])
    fix i assume "i < length l"
    then show "l ! i = r ! i" using b [of i] len by (simp add: byte_at_def)
  qed
qed (simp only: constant_time_eq_def fold_or_zero, simp)

definition digest_ok :: "(string \<Rightarrow> string) \<Rightarrow> bool" where
  "digest_ok digest \<longleftrightarrow> (\<forall>k. length (digest k) = 43 \<and> list_all digest_char (digest k))"

lemma hashed_hash [simp]: "digest_ok digest \<Longrightarrow> is_hashed_proxy_api_key (hash_proxy_api_key digest k)"
  by (simp add: digest_ok_def is_hashed_proxy_api_key_def hash_proxy_api_key_def strip_prefix_def starts_with_def)

lemma hashed_trim: "is_hashed_proxy_api_key k \<Longrightarrow> trim k = k"
proof (rule trim_graphic)
  fix c assume h: "is_hashed_proxy_api_key k" and c: "c \<in> set k"
  obtain d where d: "strip_prefix PROXY_API_KEY_HASH_PREFIX k = Some d" "list_all digest_char d"
    using h by (auto simp: is_hashed_proxy_api_key_def split: option.splits)
  then have "k = PROXY_API_KEY_HASH_PREFIX @ d"
    by (metis append_take_drop_id option.distinct(1) option.inject starts_with_def strip_prefix_def)
  then have "c \<in> set PROXY_API_KEY_HASH_PREFIX \<or> digest_char c" using c d(2) by (auto simp: list_all_iff)
  then show "graphic c"
    by (auto simp: PROXY_API_KEY_HASH_PREFIX_def digest_char_def is_ascii_alphanumeric_def graphic_def Let_def)
qed

section \<open>What a normalised configuration satisfies\<close>

definition uuid_ok :: "(nat \<Rightarrow> string) \<Rightarrow> bool" where
  "uuid_ok uuid \<longleftrightarrow> inj uuid \<and> (\<forall>k. trim (uuid k) = uuid k \<and> uuid k \<noteq> [])"

definition key_ok :: "proxy_api_key \<Rightarrow> bool" where
  "key_ok k \<longleftrightarrow> ak_id k \<noteq> [] \<and> trim (ak_id k) = ak_id k \<and> trim (ak_name k) = ak_name k \<and> trim (ak_key k) = ak_key k
     \<and> sorted (ak_scopes k) \<and> distinct (ak_scopes k) \<and> set (ak_scopes k) \<subseteq> set all_scopes
     \<and> limit_key k = k \<and> (ak_enabled k \<or> 16 \<le> length (ak_key k) \<longrightarrow> is_hashed_proxy_api_key (ak_key k))"

definition route_ok :: "proxy_route \<Rightarrow> bool" where
  "route_ok r \<longleftrightarrow> rt_id r \<noteq> [] \<and> trim (rt_id r) = rt_id r \<and> trim (rt_model_alias r) = rt_model_alias r
     \<and> trim (rt_target_instance_id r) = rt_target_instance_id r
     \<and> 1 \<le> rt_weight r \<and> rt_weight r \<le> 1000 \<and> rt_max_concurrent_requests r \<le> 100000"

definition config_ok :: "(string \<Rightarrow> url option) \<Rightarrow> (string, instance_config) hmap \<Rightarrow> proxy_config \<Rightarrow> bool" where
  "config_ok parse_url instances c \<longleftrightarrow>
     trim (pc_host c) = pc_host c \<and> pc_host c \<noteq> [] \<and> is_local_bind_host (pc_host c)
     \<and> trim (pc_default_instance_id c) = pc_default_instance_id c
     \<and> pc_routing_strategy c \<in> set [''priorityFailover'', ''roundRobin'', ''leastBusy'', ''weighted'']
     \<and> clamp_limits c = c \<and> pc_public_api_key c = []
     \<and> distinct (map ascii_lowercase (pc_cors_allowed_origins c))
     \<and> list_all (\<lambda>o'. o' \<noteq> [] \<and> (case parse_url o' of None \<Rightarrow> False | Some u \<Rightarrow> pure_origin u))
          (pc_cors_allowed_origins c)
     \<and> list_all key_ok (pc_api_keys c) \<and> distinct (map ak_id (pc_api_keys c))
     \<and> distinct (map ak_key (filter ak_enabled (pc_api_keys c)))
     \<and> list_all route_ok (pc_routes c) \<and> distinct (map rt_id (pc_routes c))
     \<and> list_all (\<lambda>r. rt_enabled r \<longrightarrow> rt_model_alias r \<noteq> [] \<and> rt_target_instance_id r \<noteq> []
          \<and> hm_get instances (rt_target_instance_id r) \<noteq> None) (pc_routes c)"

lemma fresh_id_total: "inj uuid \<Longrightarrow> fresh_id uuid n used \<noteq> None"
proof
  assume inj: "inj uuid" and "fresh_id uuid n used = None"
  then have "uuid ` {n..<n + length used + 1} \<subseteq> set used"
    by (auto simp: fresh_id_def find_None_all simp del: upt_Suc)
  then have "card (uuid ` {n..<n + length used + 1}) \<le> card (set used)" by (intro card_mono) auto
  then have "length used + 1 \<le> card (set used)"
    using card_image [OF inj_on_subset [OF inj subset_UNIV], of "{n..<n + length used + 1}"] by simp
  then show False using card_length [of used] by linarith
qed

lemma fresh_id_Some: "fresh_id uuid n used = Some k \<Longrightarrow> uuid k \<notin> set used"
  unfolding fresh_id_def by (drule find_SomeD) simp

lemma assign_id_total: "uuid_ok uuid \<Longrightarrow> assign_id uuid n used i \<noteq> None"
  using fresh_id_total by (simp add: assign_id_def uuid_ok_def)

lemma assign_id_Some:
  assumes "uuid_ok uuid" and "assign_id uuid n used i = Some (j, m)" and "trim i = i"
  shows "j \<notin> set used \<and> j \<noteq> [] \<and> trim j = j"
  using assms by (auto simp: assign_id_def uuid_ok_def dest: fresh_id_Some split: if_splits)

lemma assign_id_keep: "i \<noteq> [] \<Longrightarrow> i \<notin> set used \<Longrightarrow> assign_id uuid n used i = Some (i, n)"
  by (simp add: assign_id_def)

lemma limit_key_idem [simp]: "limit_key (limit_key k) = limit_key k"
  by (simp add: limit_key_def DEFAULT_QUOTA_OUTPUT_TOKENS_def)

lemma limit_key_fields [simp]:
  "ak_id (limit_key k) = ak_id k" "ak_name (limit_key k) = ak_name k" "ak_key (limit_key k) = ak_key k"
  "ak_scopes (limit_key k) = ak_scopes k" "ak_enabled (limit_key k) = ak_enabled k"
  by (simp_all add: limit_key_def)

lemma hash_key_fields [simp]:
  "ak_id (hash_key digest k) = ak_id k" "ak_name (hash_key digest k) = ak_name k"
  "ak_scopes (hash_key digest k) = ak_scopes k" "ak_enabled (hash_key digest k) = ak_enabled k"
  by (simp_all add: hash_key_def)

lemma limit_hash_key [simp]: "limit_key (hash_key digest (limit_key k)) = hash_key digest (limit_key k)"
  by (simp add: hash_key_def limit_key_def DEFAULT_QUOTA_OUTPUT_TOKENS_def)

lemma normalize_scopes_props:
  "sorted (normalize_scopes ss) \<and> distinct (normalize_scopes ss)"
  by (simp add: normalize_scopes_def)

lemma check_key_Inr:
  assumes "digest_ok digest" and "i \<noteq> []" "trim i = i" and "check_key digest vals (clean_key i k) = Inr k'"
  shows "key_ok k' \<and> ak_id k' = i \<and> (ak_enabled k' \<longrightarrow> ak_key k' \<notin> set vals)"
proof -
  define k1 where "k1 = clean_key i k"
  have c: "list_all (\<lambda>s. s \<in> set all_scopes) (ak_scopes k1)" "k' = hash_key digest k1"
    "\<not> (ak_enabled k1 \<and> \<not> is_hashed_proxy_api_key (ak_key k1) \<and> length (ak_key k1) < 16)"
    "\<not> (ak_enabled k1 \<and> ak_key (hash_key digest k1) \<in> set vals)"
    using assms(4) unfolding k1_def [symmetric] check_key_def by (auto split: if_splits)
  have l: "limit_key k' = k'" unfolding c(2) k1_def clean_key_def by (rule limit_hash_key)
  have h: "ak_enabled k1 \<or> 16 \<le> length (ak_key k') \<longrightarrow> is_hashed_proxy_api_key (ak_key k')"
    using assms(1) c(2,3) by (auto simp: hash_key_def)
  have t: "trim (ak_key k') = ak_key k'"
    using assms(1) c(2) hashed_trim by (auto simp: hash_key_def k1_def clean_key_def)
  have s: "sorted (ak_scopes k1) \<and> distinct (ak_scopes k1) \<and> set (ak_scopes k1) \<subseteq> set all_scopes"
    using c(1) normalize_scopes_props by (auto simp: list_all_iff k1_def clean_key_def)
  have f: "ak_id k1 = i" "trim (ak_name k1) = ak_name k1" by (simp_all add: k1_def clean_key_def)
  show ?thesis unfolding key_ok_def using l h t s f assms(2,3) c(2,4) by simp
qed

lemma normalize_keys_Cons:
  assumes "normalize_keys digest uuid n ids vals (k # ks) = Some (Inr (ks', m))"
  obtains i n' k' rest where "assign_id uuid n ids (trim (ak_id k)) = Some (i, n')"
    "check_key digest vals (clean_key i k) = Inr k'" "ks' = k' # rest"
    "normalize_keys digest uuid n' (i # ids) (if ak_enabled k' then ak_key k' # vals else vals) ks = Some (Inr (rest, m))"
  using assms by (auto split: option.splits sum.splits prod.splits)

lemma normalize_keys_ok:
  assumes "digest_ok digest" and "uuid_ok uuid"
  shows "normalize_keys digest uuid n ids vals ks = Some (Inr (ks', m)) \<Longrightarrow>
    list_all key_ok ks' \<and> distinct (map ak_id ks') \<and> set (map ak_id ks') \<inter> set ids = {}
    \<and> distinct (map ak_key (filter ak_enabled ks')) \<and> set (map ak_key (filter ak_enabled ks')) \<inter> set vals = {}"
proof (induction ks arbitrary: n ids vals ks' m)
  case Nil
  then show ?case by simp
next
  case (Cons k ks)
  obtain i n' k' rest where i: "assign_id uuid n ids (trim (ak_id k)) = Some (i, n')"
    and c: "check_key digest vals (clean_key i k) = Inr k'" and ks': "ks' = k' # rest"
    and r: "normalize_keys digest uuid n' (i # ids) (if ak_enabled k' then ak_key k' # vals else vals) ks = Some (Inr (rest, m))"
    using Cons.prems by (rule normalize_keys_Cons)
  note ij = assign_id_Some [OF assms(2) i trim_idem]
  have "key_ok k'" "ak_id k' = i" "ak_enabled k' \<longrightarrow> ak_key k' \<notin> set vals"
    using check_key_Inr [OF assms(1) _ _ c] ij by auto
  then show ?case using Cons.IH [OF r] ij ks' by (auto split: if_splits)
qed

lemma normalize_keys_total: "uuid_ok uuid \<Longrightarrow> \<exists>r. normalize_keys digest uuid n ids vals ks = Some r"
proof (induction ks arbitrary: n ids vals)
  case (Cons k ks)
  obtain i n' where i: "assign_id uuid n ids (trim (ak_id k)) = Some (i, n')"
    using assign_id_total [OF Cons.prems] by fastforce
  show ?case
  proof (cases "check_key digest vals (clean_key i k)")
    case (Inl e)
    then show ?thesis using i by simp
  next
    case (Inr k')
    obtain r where "normalize_keys digest uuid n' (i # ids) (if ak_enabled k' then ak_key k' # vals else vals) ks = Some r"
      using Cons.IH [OF Cons.prems] by blast
    then show ?thesis using i Inr by (cases r) auto
  qed
qed simp

lemma normalize_scopes_id:
  assumes "sorted ss" "distinct ss" "set ss \<subseteq> set all_scopes"
  shows "normalize_scopes ss = ss"
proof -
  have g: "trim s = s \<and> ascii_lowercase s = s \<and> s \<noteq> []" if "s \<in> set all_scopes" for s
  proof -
    have "trim s = s" using that by (intro trim_graphic) (auto simp: all_scopes_def graphic_def)
    then show ?thesis using that by (auto simp: all_scopes_def ascii_lowercase_def to_ascii_lower_def)
  qed
  have "map (\<lambda>s. ascii_lowercase (trim s)) ss = ss" using g assms(3) by (intro map_idI) auto
  moreover have "filter (\<lambda>s. s \<noteq> []) ss = ss" using g assms(3) by (simp add: filter_id_conv subset_iff)
  ultimately show ?thesis using assms by (simp add: normalize_scopes_def distinct_remdups_id sorted_sort_id)
qed

lemma check_key_id:
  assumes "key_ok k" and "ak_enabled k \<longrightarrow> ak_key k \<notin> set vals"
  shows "check_key digest vals (clean_key (ak_id k) k) = Inr k"
proof -
  have "clean_key (ak_id k) k = k"
    using assms(1) normalize_scopes_id [of "ak_scopes k"] by (simp add: clean_key_def key_ok_def)
  moreover have "hash_key digest k = k" using assms(1) by (auto simp: hash_key_def key_ok_def)
  ultimately show ?thesis using assms by (auto simp: check_key_def key_ok_def list_all_iff)
qed

lemma normalize_keys_id:
  "list_all key_ok ks \<Longrightarrow> distinct (map ak_id ks) \<Longrightarrow> set (map ak_id ks) \<inter> set ids = {} \<Longrightarrow>
   distinct (map ak_key (filter ak_enabled ks)) \<Longrightarrow> set (map ak_key (filter ak_enabled ks)) \<inter> set vals = {} \<Longrightarrow>
   normalize_keys digest uuid n ids vals ks = Some (Inr (ks, n))"
proof (induction ks arbitrary: ids vals)
  case (Cons k ks)
  have ok: "key_ok k" "trim (ak_id k) = ak_id k" "ak_id k \<noteq> []" using Cons.prems(1) by (simp_all add: key_ok_def)
  have i: "assign_id uuid n ids (trim (ak_id k)) = Some (ak_id k, n)"
    unfolding ok(2) using ok(3) Cons.prems(3) by (intro assign_id_keep) auto
  have c: "check_key digest vals (clean_key (ak_id k) k) = Inr k"
    using Cons.prems(5) by (intro check_key_id ok) auto
  have "normalize_keys digest uuid n (ak_id k # ids) (if ak_enabled k then ak_key k # vals else vals) ks = Some (Inr (ks, n))"
    by (rule Cons.IH) (use Cons.prems in \<open>auto split: if_splits\<close>)
  then show ?case using i c by simp
qed simp

section \<open>Routes and origins\<close>

lemma normalize_routes_ok:
  assumes "uuid_ok uuid"
  shows "normalize_routes uuid n ids rs = Some (rs', m) \<Longrightarrow>
    list_all route_ok rs' \<and> distinct (map rt_id rs') \<and> set (map rt_id rs') \<inter> set ids = {}"
proof (induction rs arbitrary: n ids rs' m)
  case (Cons r rs)
  obtain i n' where i: "assign_id uuid n ids (trim (rt_id r)) = Some (i, n')"
    using assign_id_total [OF assms] by fastforce
  note ij = assign_id_Some [OF assms i trim_idem]
  obtain rest where r: "normalize_routes uuid n' (i # ids) rs = Some (rest, m)"
    and rs': "rs' = r\<lparr> rt_id := i, rt_model_alias := trim (rt_model_alias r),
                  rt_target_instance_id := trim (rt_target_instance_id r),
                  rt_weight := clamp 1 1000 (rt_weight r),
                  rt_max_concurrent_requests := min (rt_max_concurrent_requests r) 100000 \<rparr> # rest"
    using Cons.prems i by auto
  show ?case using Cons.IH [OF r] ij rs' clamp_bounds [of 1 1000 "rt_weight r"] by (auto simp: route_ok_def)
qed simp

lemma normalize_routes_total: "uuid_ok uuid \<Longrightarrow> \<exists>r. normalize_routes uuid n ids rs = Some r"
proof (induction rs arbitrary: n ids)
  case (Cons r rs)
  obtain i n' where "assign_id uuid n ids (trim (rt_id r)) = Some (i, n')"
    using assign_id_total [OF Cons.prems] by fastforce
  then show ?case using Cons.IH [OF Cons.prems, of n' "i # ids"] by auto
qed simp

lemma normalize_routes_id:
  "list_all route_ok rs \<Longrightarrow> distinct (map rt_id rs) \<Longrightarrow> set (map rt_id rs) \<inter> set ids = {} \<Longrightarrow>
   normalize_routes uuid n ids rs = Some (rs, n)"
proof (induction rs arbitrary: ids)
  case (Cons r rs)
  have "assign_id uuid n ids (trim (rt_id r)) = Some (rt_id r, n)"
    using Cons.prems assign_id_keep by (auto simp: route_ok_def)
  moreover have "normalize_routes uuid n (rt_id r # ids) rs = Some (rs, n)"
    by (rule Cons.IH) (use Cons.prems in auto)
  ultimately show ?case using Cons.prems(1) by (simp add: route_ok_def clamp_inside)
qed simp

lemma check_routes_None:
  "check_routes instances i rs = None \<longleftrightarrow>
     list_all (\<lambda>r. rt_enabled r \<longrightarrow> trim (rt_model_alias r) \<noteq> [] \<and> trim (rt_target_instance_id r) \<noteq> []
        \<and> hm_get instances (trim (rt_target_instance_id r)) \<noteq> None) rs"
  by (induction rs arbitrary: i) auto

lemma check_origins_None:
  "check_origins parse_url os = None \<longleftrightarrow>
     list_all (\<lambda>o'. case parse_url o' of None \<Rightarrow> False | Some u \<Rightarrow> pure_origin u) os"
  by (induction os) (auto split: option.splits)

lemma dedup_origins_props:
  "distinct (map ascii_lowercase (dedup_origins seen os))
   \<and> set (map ascii_lowercase (dedup_origins seen os)) \<inter> set seen = {} \<and> set (dedup_origins seen os) \<subseteq> set os"
  by (induction seen os rule: dedup_origins.induct) auto

lemma dedup_origins_id:
  "distinct (map ascii_lowercase os) \<Longrightarrow> set (map ascii_lowercase os) \<inter> set seen = {} \<Longrightarrow> dedup_origins seen os = os"
  by (induction seen os rule: dedup_origins.induct) auto

lemma clamp_limits_idem [simp]: "clamp_limits (clamp_limits c) = clamp_limits c"
  by (simp add: clamp_limits_def Let_def clamp_def)

lemma clamp_limits_frame:
  "clamp_limits (c\<lparr>pc_api_keys := ks\<rparr>) = (clamp_limits c)\<lparr>pc_api_keys := ks\<rparr>"
  "clamp_limits (c\<lparr>pc_public_api_key := p\<rparr>) = (clamp_limits c)\<lparr>pc_public_api_key := p\<rparr>"
  "clamp_limits (c\<lparr>pc_cors_allowed_origins := os\<rparr>) = (clamp_limits c)\<lparr>pc_cors_allowed_origins := os\<rparr>"
  "clamp_limits (c\<lparr>pc_routes := rs\<rparr>) = (clamp_limits c)\<lparr>pc_routes := rs\<rparr>"
  by (simp_all add: clamp_limits_def Let_def)

lemma clamp_limits_fields [simp]:
  "pc_host (clamp_limits c) = pc_host c" "pc_default_instance_id (clamp_limits c) = pc_default_instance_id c"
  "pc_routing_strategy (clamp_limits c) = pc_routing_strategy c" "pc_routes (clamp_limits c) = pc_routes c"
  "pc_public_api_key (clamp_limits c) = pc_public_api_key c" "pc_api_keys (clamp_limits c) = pc_api_keys c"
  "pc_cors_allowed_origins (clamp_limits c) = pc_cors_allowed_origins c"
  by (simp_all add: clamp_limits_def Let_def)

lemma migrate_fields [simp]:
  "pc_host (migrate_legacy_key digest c) = pc_host c"
  "pc_default_instance_id (migrate_legacy_key digest c) = pc_default_instance_id c"
  "pc_routing_strategy (migrate_legacy_key digest c) = pc_routing_strategy c"
  "pc_routes (migrate_legacy_key digest c) = pc_routes c"
  "pc_public_api_key (migrate_legacy_key digest c) = []"
  "pc_cors_allowed_origins (migrate_legacy_key digest c) = pc_cors_allowed_origins c"
  by (simp_all add: migrate_legacy_key_def Let_def)

lemma migrate_clamp [simp]:
  "clamp_limits (migrate_legacy_key digest (clamp_limits c)) = migrate_legacy_key digest (clamp_limits c)"
  by (simp add: migrate_legacy_key_def Let_def clamp_limits_frame)

lemma strategy_Inr:
  "normalize_strategy s = Inr t \<Longrightarrow> t \<in> set [''priorityFailover'', ''roundRobin'', ''leastBusy'', ''weighted'']"
  by (auto simp: normalize_strategy_def Let_def split: if_splits)

lemma strategy_fixed:
  assumes "t \<in> set [''priorityFailover'', ''roundRobin'', ''leastBusy'', ''weighted'']"
  shows "normalize_strategy t = Inr t"
proof -
  have "trim t = t" using assms by (intro trim_graphic) (auto simp: graphic_def)
  then show ?thesis using assms by (auto simp: normalize_strategy_def)
qed

lemma loopback_default: "is_local_bind_host ''127.0.0.1'' \<and> trim ''127.0.0.1'' = ''127.0.0.1''"
proof -
  have t: "trim ''127.0.0.1'' = ''127.0.0.1''" by (rule trim_graphic) (auto simp: graphic_def)
  then show ?thesis
    by (simp add: is_local_bind_host_def unbracket_host_def strip_prefix_def starts_with_def parses_as_loopback_def
        read_ipv4_def read_octet_def read_dot_octet_def read_char_def is_ascii_digit_def digits_value_def)
qed

lemma normalize_config_Inr:
  assumes "normalize_and_validate_proxy_config digest parse_url uuid config instances = Some (Inr c)"
  obtains host strategy c1 origins keys n routes m where
    "host = (if trim (pc_host config) = [] then ''127.0.0.1'' else trim (pc_host config))" "is_local_bind_host host"
    "normalize_strategy (pc_routing_strategy config) = Inr strategy"
    "c1 = migrate_legacy_key digest (clamp_limits (config\<lparr> pc_host := host,
       pc_default_instance_id := trim (pc_default_instance_id config), pc_routing_strategy := strategy \<rparr>))"
    "normalize_origins parse_url (pc_cors_allowed_origins c1) = Inr origins"
    "normalize_keys digest uuid 0 [] [] (pc_api_keys c1) = Some (Inr (keys, n))"
    "normalize_routes uuid n [] (pc_routes c1) = Some (routes, m)" "check_routes instances 0 routes = None"
    "c = c1\<lparr> pc_cors_allowed_origins := origins, pc_api_keys := keys, pc_routes := routes \<rparr>"
proof -
  define host where "host = (if trim (pc_host config) = [] then ''127.0.0.1'' else trim (pc_host config))"
  have l: "is_local_bind_host host"
    using assms unfolding normalize_and_validate_proxy_config_def Let_def host_def [symmetric] by (auto split: if_splits)
  obtain strategy where st: "normalize_strategy (pc_routing_strategy config) = Inr strategy"
    using assms l unfolding normalize_and_validate_proxy_config_def Let_def host_def [symmetric]
    by (cases "normalize_strategy (pc_routing_strategy config)") auto
  define c1 where "c1 = migrate_legacy_key digest (clamp_limits (config\<lparr> pc_host := host,
       pc_default_instance_id := trim (pc_default_instance_id config), pc_routing_strategy := strategy \<rparr>))"
  note e = assms [unfolded normalize_and_validate_proxy_config_def Let_def, folded host_def,
      unfolded st sum.case, folded c1_def]
  show thesis
    using e l that [OF host_def l st c1_def]
    by (auto split: sum.splits option.splits prod.splits)
qed

section \<open>Concrete parameters\<close>

definition sample_digest :: "string \<Rightarrow> string" where
  "sample_digest k = replicate 43 (CHR ''a'')"

definition sample_uuid :: "nat \<Rightarrow> string" where
  "sample_uuid k = replicate (k + 1) (CHR ''u'')"

definition sample_config :: proxy_config where
  "sample_config = proxy_config_default\<lparr> pc_host := [],
     pc_api_keys := [(proxy_api_key_default [])\<lparr> ak_key := ''0123456789abcdef'' \<rparr>],
     pc_routes := [(proxy_route_default [])\<lparr> rt_model_alias := ''m'', rt_target_instance_id := ''i'', rt_weight := 0 \<rparr>] \<rparr>"

lemma sample_digest_ok: "digest_ok sample_digest"
  by (simp add: digest_ok_def sample_digest_def list_all_iff digest_char_def is_ascii_alphanumeric_def)

lemma sample_uuid_ok: "uuid_ok sample_uuid"
proof -
  have "trim (sample_uuid k) = sample_uuid k" for k
    by (rule trim_graphic) (auto simp: sample_uuid_def graphic_def)
  moreover have "inj sample_uuid" by (rule injI) (simp add: sample_uuid_def)
  ultimately show ?thesis by (simp add: uuid_ok_def sample_uuid_def)
qed

lemma default_config_ok: "config_ok parse_url instances proxy_config_default"
  using loopback_default
  by (simp add: config_ok_def proxy_config_default_def clamp_limits_def Let_def clamp_def)

section \<open>Properties\<close>

text \<open>
  C17. Normalising a configuration always returns, and a configuration it accepts is valid: it binds
  to a loopback address, has one of the four strategies and all limits in their ranges, carries
  no plain legacy key, only pure and distinct HTTP(S) origins, keys with distinct non-blank
  identifiers and known scopes of which the enabled ones are distinct hashes, and routes with
  distinct identifiers of which the enabled ones name an existing instance.
\<close>

theorem config_normalized:
  assumes "digest_ok digest" and "uuid_ok uuid"
  shows "(\<exists>res. normalize_and_validate_proxy_config digest parse_url uuid config instances = Some res)
    \<and> (\<forall>c. normalize_and_validate_proxy_config digest parse_url uuid config instances = Some (Inr c) \<longrightarrow>
          config_ok parse_url instances c)"
proof (intro conjI allI impI)
  have k: "\<exists>r. normalize_keys digest uuid n ids vals ks = Some r" for n ids vals ks
    by (rule normalize_keys_total [OF assms(2)])
  have r: "\<exists>r. normalize_routes uuid n ids rs = Some r" for n ids rs
    by (rule normalize_routes_total [OF assms(2)])
  show "\<exists>res. normalize_and_validate_proxy_config digest parse_url uuid config instances = Some res"
    unfolding normalize_and_validate_proxy_config_def Let_def
    using k r by (auto split: sum.splits option.splits prod.splits) (metis option.distinct(1))+
next
  fix c assume "normalize_and_validate_proxy_config digest parse_url uuid config instances = Some (Inr c)"
  then show "config_ok parse_url instances c"
  proof (rule normalize_config_Inr)
    fix host strategy c1 origins keys n routes m
    assume h: "host = (if trim (pc_host config) = [] then ''127.0.0.1'' else trim (pc_host config))"
      "is_local_bind_host host"
      and st: "normalize_strategy (pc_routing_strategy config) = Inr strategy"
      and c1: "c1 = migrate_legacy_key digest (clamp_limits (config\<lparr> pc_host := host,
       pc_default_instance_id := trim (pc_default_instance_id config), pc_routing_strategy := strategy \<rparr>))"
      and os: "normalize_origins parse_url (pc_cors_allowed_origins c1) = Inr origins"
      and ks: "normalize_keys digest uuid 0 [] [] (pc_api_keys c1) = Some (Inr (keys, n))"
      and rs: "normalize_routes uuid n [] (pc_routes c1) = Some (routes, m)" "check_routes instances 0 routes = None"
      and c: "c = c1\<lparr> pc_cors_allowed_origins := origins, pc_api_keys := keys, pc_routes := routes \<rparr>"
    have host: "trim host = host \<and> host \<noteq> []" using h(1) loopback_default by auto
    have cl: "clamp_limits c = c" unfolding c clamp_limits_frame unfolding c1 by simp
    let ?cleaned = "filter (\<lambda>o'. o' \<noteq> []) (map clean_origin (pc_cors_allowed_origins c1))"
    have o1: "check_origins parse_url ?cleaned = None" "origins = dedup_origins [] ?cleaned"
      using os by (auto simp: normalize_origins_def Let_def split: option.splits)
    have o2: "distinct (map ascii_lowercase origins)" "set origins \<subseteq> set ?cleaned"
      using dedup_origins_props [of "[]" ?cleaned] o1(2) by auto
    have o3: "list_all (\<lambda>o'. o' \<noteq> [] \<and> (case parse_url o' of None \<Rightarrow> False | Some u \<Rightarrow> pure_origin u)) origins"
      using o1(1) o2(2) unfolding check_origins_None list_all_iff by auto
    note ko = normalize_keys_ok [OF assms ks]
    note ro = normalize_routes_ok [OF assms(2) rs(1)]
    have rr: "list_all (\<lambda>r. rt_enabled r \<longrightarrow> rt_model_alias r \<noteq> [] \<and> rt_target_instance_id r \<noteq> []
          \<and> hm_get instances (rt_target_instance_id r) \<noteq> None) routes"
      using rs(2) ro unfolding check_routes_None list_all_iff route_ok_def by auto
    show ?thesis
      unfolding config_ok_def using cl o2(1) o3 ko ro rr strategy_Inr [OF st] host h(2)
      by (simp add: c c1)
  qed
qed

theorem config_normalized_witness:
  "\<exists>res. normalize_and_validate_proxy_config sample_digest (\<lambda>_. None) sample_uuid sample_config [] = Some res"
  using config_normalized [OF sample_digest_ok sample_uuid_ok] by blast

text \<open>
  Normalisation is stable: a valid configuration whose origins are already trimmed is accepted
  and returned unchanged, in particular keys keep their hashes and identifiers.
\<close>

theorem config_idempotent:
  assumes "config_ok parse_url instances c" and "list_all (\<lambda>o'. clean_origin o' = o') (pc_cors_allowed_origins c)"
  shows "normalize_and_validate_proxy_config digest parse_url uuid c instances = Some (Inr c)"
proof -
  note ok = assms(1) [unfolded config_ok_def]
  have host: "(if trim (pc_host c) = [] then ''127.0.0.1'' else trim (pc_host c)) = pc_host c" using ok by simp
  have st: "normalize_strategy (pc_routing_strategy c) = Inr (pc_routing_strategy c)"
    using ok by (intro strategy_fixed) blast
  have mg: "migrate_legacy_key digest c = c" using ok by (simp add: migrate_legacy_key_def trim_Nil)
  have cl: "map clean_origin (pc_cors_allowed_origins c) = pc_cors_allowed_origins c"
    using assms(2) by (intro map_idI) (simp add: list_all_iff)
  have ne: "filter (\<lambda>o'. o' \<noteq> []) (pc_cors_allowed_origins c) = pc_cors_allowed_origins c"
    using ok by (simp add: filter_id_conv list_all_iff)
  have co: "check_origins parse_url (pc_cors_allowed_origins c) = None"
    unfolding check_origins_None using ok by (simp add: list_all_iff)
  have os: "normalize_origins parse_url (pc_cors_allowed_origins c) = Inr (pc_cors_allowed_origins c)"
    using ok dedup_origins_id [of "pc_cors_allowed_origins c" "[]"] by (simp add: normalize_origins_def cl ne co)
  have ks: "normalize_keys digest uuid 0 [] [] (pc_api_keys c) = Some (Inr (pc_api_keys c, 0))"
    using ok by (intro normalize_keys_id) auto
  have rs: "normalize_routes uuid 0 [] (pc_routes c) = Some (pc_routes c, 0)"
    using ok by (intro normalize_routes_id) auto
  have cr: "check_routes instances 0 (pc_routes c) = None"
    unfolding check_routes_None using ok by (auto simp: list_all_iff route_ok_def)
  have up: "c\<lparr> pc_host := pc_host c, pc_default_instance_id := trim (pc_default_instance_id c),
      pc_routing_strategy := pc_routing_strategy c \<rparr> = c" using ok by simp
  have cc: "clamp_limits c = c" using ok by simp
  show ?thesis
    unfolding normalize_and_validate_proxy_config_def Let_def host st sum.case up cc mg os ks rs option.case prod.case cr
    using ok by simp
qed

theorem config_idempotent_witness:
  "normalize_and_validate_proxy_config sample_digest (\<lambda>_. None) sample_uuid proxy_config_default []
     = Some (Inr proxy_config_default)"
  by (rule config_idempotent [OF default_config_ok]) (simp add: proxy_config_default_def)

text \<open>
  Keys are compared exactly: the constant-time comparison is equality, so a stored plain key
  matches only itself, and a stored hash matches exactly the secrets with that digest.
\<close>

theorem key_match_correct:
  assumes "digest_ok digest"
  shows "(proxy_api_key_matches digest (hash_proxy_api_key digest secret) presented \<longleftrightarrow> digest presented = digest secret)
    \<and> (\<not> is_hashed_proxy_api_key stored \<longrightarrow> (proxy_api_key_matches digest stored presented \<longleftrightarrow> presented = stored))
    \<and> (constant_time_eq l r \<longleftrightarrow> l = r)"
  using assms hashed_hash [OF assms, of secret]
  by (auto simp: proxy_api_key_matches_def constant_time_eq_iff hash_proxy_api_key_def)

theorem key_match_correct_witness:
  "proxy_api_key_matches sample_digest (hash_proxy_api_key sample_digest ''secret'') ''secret''
   \<and> \<not> proxy_api_key_matches sample_digest ''plain'' ''plaim''"
proof -
  have "\<not> is_hashed_proxy_api_key ''plain''"
    by (simp add: is_hashed_proxy_api_key_def strip_prefix_def starts_with_def PROXY_API_KEY_HASH_PREFIX_def)
  then show ?thesis
    using key_match_correct [OF sample_digest_ok, of "''secret''" "''secret''" "''plain''"]
      key_match_correct [OF sample_digest_ok, of "''secret''" "''plaim''" "''plain''"] by simp
qed

end
