(* ===== verification/Usage_Protocol.thy ===== *)
theory Usage_Protocol
  imports Json_Value
begin

text \<open>
  Token accounting per API protocol (\<open>src-tauri/src/commands/usage_protocol.rs\<close>): which
  protocol a path speaks, what one JSON value or one server-sent event of a response says about
  consumption, and how a stream of lines is accumulated.  \<open>parse\<close> stands for
  \<open>serde_json::from_str\<close>.
\<close>

section \<open>Protocols\<close>

datatype usage_protocol = PChat | PCompletion | PResponses | PAnthropic | PEmbedding | PRerank | PCount

definition usage_from_path :: "string \<Rightarrow> usage_protocol option" where
  "usage_from_path path =
     (if path = ''/v1/chat/completions'' then Some PChat
      else if path = ''/v1/completions'' then Some PCompletion
      else if path = ''/v1/responses'' then Some PResponses
      else if path = ''/v1/messages'' then Some PAnthropic
      else if path \<in> set [''/embedding'', ''/embeddings'', ''/v1/embeddings''] then Some PEmbedding
      else if path \<in> set [''/rerank'', ''/reranking'', ''/v1/rerank'', ''/v1/reranking''] then Some PRerank
      else if path \<in> set [''/v1/messages/count_tokens'', ''/v1/chat/completions/input_tokens'',
                           ''/v1/responses/input_tokens''] then Some PCount
      else None)"

fun usage_kind :: "usage_protocol \<Rightarrow> string" where
  "usage_kind PEmbedding = ''embedding''"
| "usage_kind PRerank = ''rerank''"
| "usage_kind PCount = ''count''"
| "usage_kind _ = ''generation''"

record token_usage =
  tk_input :: "nat option"
  tk_output :: "nat option"
  tk_cached :: "nat option"
  tk_cache_write :: "nat option"
  tk_reasoning :: "nat option"

definition token_usage_default :: token_usage where
  "token_usage_default = \<lparr> tk_input = None, tk_output = None, tk_cached = None, tk_cache_write = None,
     tk_reasoning = None \<rparr>"

definition MAX_COUNT :: nat where
  "MAX_COUNT = i64_max div 4"

text \<open>\<open>count\<close>: a field that is an unsigned integer in the accepted range.\<close>

definition count_field :: "json \<Rightarrow> string \<Rightarrow> nat option" where
  "count_field v name =
     (case json_field as_u64 v name of None \<Rightarrow> None | Some n \<Rightarrow> if n \<le> MAX_COUNT then Some n else None)"

record usage_accumulator =
  ua_protocol :: usage_protocol
  ua_tokens :: token_usage
  ua_terminal :: bool
  ua_failed :: bool
  ua_malformed :: bool
  ua_finish_reason :: "string option"
  ua_source :: string
  ua_event :: string
  ua_data :: string
  ua_anthropic_input :: "nat option"
  ua_anthropic_read :: "nat option"
  ua_anthropic_write :: "nat option"

definition usage_new :: "usage_protocol \<Rightarrow> usage_accumulator" where
  "usage_new protocol = \<lparr> ua_protocol = protocol, ua_tokens = token_usage_default, ua_terminal = False,
     ua_failed = False, ua_malformed = False, ua_finish_reason = None, ua_source = ''none'',
     ua_event = [], ua_data = [], ua_anthropic_input = None, ua_anthropic_read = None,
     ua_anthropic_write = None \<rparr>"

definition quality :: "usage_accumulator \<Rightarrow> bool \<Rightarrow> string" where
  "quality a eligible_request =
     (if \<not> eligible_request \<or> ua_protocol a = PCount then ''not_applicable''
      else if \<not> ua_malformed a \<and> tk_input (ua_tokens a) \<noteq> None \<and> tk_output (ua_tokens a) \<noteq> None then ''complete''
      else if tk_input (ua_tokens a) \<noteq> None \<or> tk_output (ua_tokens a) \<noteq> None then ''partial''
      else ''unknown'')"

section \<open>A usage object\<close>

definition or_keep :: "'a option \<Rightarrow> 'a option \<Rightarrow> 'a option" where
  "or_keep new old = (case new of None \<Rightarrow> old | Some x \<Rightarrow> Some x)"

definition or_zero :: "nat option \<Rightarrow> nat" where
  "or_zero x = (case x of None \<Rightarrow> 0 | Some n \<Rightarrow> n)"

definition input_key :: "usage_protocol \<Rightarrow> string" where
  "input_key p = (if p = PResponses \<or> p = PAnthropic then ''input_tokens'' else ''prompt_tokens'')"

definition output_key :: "usage_protocol \<Rightarrow> string" where
  "output_key p = (if p = PResponses \<or> p = PAnthropic then ''output_tokens'' else ''completion_tokens'')"

definition has_malformed_count :: "usage_protocol \<Rightarrow> json \<Rightarrow> bool" where
  "has_malformed_count p usage =
     list_ex (\<lambda>name. (case json_get usage name of None \<Rightarrow> False | Some v \<Rightarrow> \<not> is_null v)
                     \<and> count_field usage name = None)
       [input_key p, output_key p, ''cache_read_input_tokens'', ''cache_creation_input_tokens'']"

definition observe_anthropic_input :: "json \<Rightarrow> usage_accumulator \<Rightarrow> usage_accumulator" where
  "observe_anthropic_input usage a =
     (let inp = or_keep (count_field usage ''input_tokens'') (ua_anthropic_input a);
          rd = or_keep (count_field usage ''cache_read_input_tokens'') (ua_anthropic_read a);
          wr = or_keep (count_field usage ''cache_creation_input_tokens'') (ua_anthropic_write a)
      in a\<lparr> ua_anthropic_input := inp, ua_anthropic_read := rd, ua_anthropic_write := wr,
            ua_tokens := (ua_tokens a)\<lparr> tk_input := map_option (\<lambda>n. n + or_zero rd + or_zero wr) inp,
                                         tk_cached := map_option (\<lambda>_. or_zero rd) inp,
                                         tk_cache_write := wr \<rparr> \<rparr>)"

definition observe_input :: "json \<Rightarrow> usage_accumulator \<Rightarrow> usage_accumulator" where
  "observe_input usage a =
     (let t = (ua_tokens a)\<lparr> tk_input := or_keep (count_field usage (input_key (ua_protocol a))) (tk_input (ua_tokens a)) \<rparr>
      in a\<lparr> ua_tokens :=
        (case json_get usage (if ua_protocol a = PResponses then ''input_tokens_details'' else ''prompt_tokens_details'') of
           None \<Rightarrow> t
         | Some details \<Rightarrow> t\<lparr> tk_cached := count_field details ''cached_tokens'',
                              tk_cache_write := count_field details ''cache_write_tokens'' \<rparr>) \<rparr>)"

definition observe_output :: "json \<Rightarrow> usage_accumulator \<Rightarrow> usage_accumulator" where
  "observe_output usage a =
     (let p = ua_protocol a;
          t = (ua_tokens a)\<lparr> tk_output := or_keep (count_field usage (output_key p)) (tk_output (ua_tokens a)) \<rparr>;
          t1 = (if (p = PEmbedding \<or> p = PRerank) \<and> tk_input t \<noteq> None then t\<lparr>tk_output := Some 0\<rparr> else t)
      in a\<lparr> ua_tokens :=
        (case json_get usage (if p = PResponses then ''output_tokens_details'' else ''completion_tokens_details'') of
           None \<Rightarrow> t1
         | Some details \<Rightarrow> t1\<lparr> tk_reasoning := count_field details ''reasoning_tokens'' \<rparr>) \<rparr>)"

definition exceeds :: "nat option \<Rightarrow> nat option \<Rightarrow> bool" where
  "exceeds part whole = (case (part, whole) of (Some x, Some y) \<Rightarrow> y < x | _ \<Rightarrow> False)"

definition check_cached :: "usage_accumulator \<Rightarrow> usage_accumulator" where
  "check_cached a =
     (if exceeds (tk_cached (ua_tokens a)) (tk_input (ua_tokens a))
      then a\<lparr> ua_tokens := (ua_tokens a)\<lparr>tk_cached := None\<rparr>, ua_malformed := True \<rparr> else a)"

definition check_reasoning :: "usage_accumulator \<Rightarrow> usage_accumulator" where
  "check_reasoning a =
     (if exceeds (tk_reasoning (ua_tokens a)) (tk_output (ua_tokens a))
      then a\<lparr> ua_tokens := (ua_tokens a)\<lparr>tk_reasoning := None\<rparr>, ua_malformed := True \<rparr> else a)"

definition observe_usage :: "json \<Rightarrow> usage_accumulator \<Rightarrow> usage_accumulator" where
  "observe_usage usage a =
     (if ua_protocol a = PCount then a
      else (let a1 = a\<lparr> ua_source := ''upstream_usage'',
                        ua_malformed := ua_malformed a \<or> has_malformed_count (ua_protocol a) usage \<rparr>;
                a2 = (if ua_protocol a = PAnthropic then observe_anthropic_input usage a1 else observe_input usage a1)
            in check_reasoning (check_cached (observe_output usage a2))))"

section \<open>A JSON value of the response\<close>

definition str_field :: "json \<Rightarrow> string \<Rightarrow> string option" where
  "str_field v k = json_field as_str v k"

definition nonempty_str :: "json \<Rightarrow> string \<Rightarrow> bool" where
  "nonempty_str v k = (case str_field v k of None \<Rightarrow> False | Some s \<Rightarrow> s \<noteq> [])"

definition value_type :: "json \<Rightarrow> string" where
  "value_type v = (case str_field v ''type'' of None \<Rightarrow> [] | Some s \<Rightarrow> s)"

definition response_of :: "json \<Rightarrow> json" where
  "response_of v = (case json_get v ''response'' of None \<Rightarrow> v | Some r \<Rightarrow> r)"

definition value_failed :: "json \<Rightarrow> bool" where
  "value_failed v \<longleftrightarrow> (case json_get v ''error'' of None \<Rightarrow> False | Some e \<Rightarrow> \<not> is_null e)
     \<or> value_type v = ''error'' \<or> value_type v = ''response.failed''
     \<or> str_field (response_of v) ''status'' = Some ''failed''"

definition value_terminal :: "json \<Rightarrow> bool" where
  "value_terminal v \<longleftrightarrow> value_type v \<in> set [''response.completed'', ''response.failed'', ''response.incomplete'', ''message_stop'']"

definition stop_reason :: "json \<Rightarrow> string option" where
  "stop_reason v =
     Option.bind (case json_pointer2 v ''delta'' ''stop_reason'' of
                    Some x \<Rightarrow> Some x | None \<Rightarrow> json_get v ''stop_reason'') as_str"

text \<open>The three places that set the finish reason, in order; the last one wins.\<close>

definition finish_reason_of :: "json \<Rightarrow> string option \<Rightarrow> string option" where
  "finish_reason_of v old =
     (let r0 = (if value_type v = ''response.incomplete'' \<or> str_field (response_of v) ''status'' = Some ''incomplete''
                then Some ''incomplete'' else old);
          r1 = (case stop_reason v of None \<Rightarrow> r0 | Some s \<Rightarrow> Some (take_chars 64 s))
      in case json_field as_array v ''choices'' of
           None \<Rightarrow> r1
         | Some choices \<Rightarrow>
             fold (\<lambda>choice r. case str_field choice ''finish_reason'' of
                                None \<Rightarrow> r | Some s \<Rightarrow> Some (take_chars 64 s)) choices r1)"

definition usage_object :: "usage_protocol \<Rightarrow> json \<Rightarrow> json option" where
  "usage_object p v =
     (case (if p = PAnthropic \<and> value_type v = ''message_start'' then json_pointer2 v ''message'' ''usage''
            else if p = PResponses then json_get (response_of v) ''usage''
            else json_get v ''usage'') of
        None \<Rightarrow> None | Some u \<Rightarrow> if is_object u then Some u else None)"

definition choice_has_output :: "json \<Rightarrow> bool" where
  "choice_has_output c \<longleftrightarrow> nonempty_str c ''text''
     \<or> (case json_get c ''delta'' of
          None \<Rightarrow> False
        | Some d \<Rightarrow> list_ex (nonempty_str d) [''content'', ''reasoning_content'']
            \<or> (case json_field as_array d ''tool_calls'' of None \<Rightarrow> False | Some a \<Rightarrow> a \<noteq> []))"

definition has_output :: "json \<Rightarrow> bool" where
  "has_output v \<longleftrightarrow>
     (value_type v \<in> set [''response.output_text.delta'', ''response.function_call_arguments.delta'',
                           ''response.reasoning_text.delta''] \<and> nonempty_str v ''delta'')
     \<or> (case json_field as_array v ''choices'' of None \<Rightarrow> False | Some cs \<Rightarrow> list_ex choice_has_output cs)
     \<or> (value_type v = ''content_block_delta''
        \<and> (case json_get v ''delta'' of
             None \<Rightarrow> False | Some d \<Rightarrow> list_ex (nonempty_str d) [''text'', ''thinking'', ''partial_json'']))"

definition observe_json :: "json \<Rightarrow> usage_accumulator \<Rightarrow> usage_accumulator \<times> bool" where
  "observe_json v a =
     (let a1 = a\<lparr> ua_failed := ua_failed a \<or> value_failed v,
                  ua_terminal := ua_terminal a \<or> value_terminal v,
                  ua_finish_reason := finish_reason_of v (ua_finish_reason a) \<rparr>
      in (case usage_object (ua_protocol a) v of None \<Rightarrow> a1 | Some u \<Rightarrow> observe_usage u a1, has_output v))"

section \<open>Server-sent events\<close>

definition MAX_EVENT_BYTES :: nat where
  "MAX_EVENT_BYTES = 16 * 1024 * 1024"

text \<open>\<open>object.entry("type").or_insert(event)\<close>\<close>

fun add_event_type :: "string \<Rightarrow> json \<Rightarrow> json" where
  "add_event_type ev (JObject kvs) =
     (if ev \<noteq> [] \<and> hm_get kvs ''type'' = None then JObject (hm_insert ''type'' (JString ev) kvs) else JObject kvs)"
| "add_event_type ev v = v"

definition flush_event :: "(string \<Rightarrow> json option) \<Rightarrow> usage_accumulator \<Rightarrow> usage_accumulator \<times> bool" where
  "flush_event parse a =
     (let data = ua_data a; ev = ua_event a; a1 = a\<lparr> ua_data := [], ua_event := [] \<rparr>
      in if trim data = ''[DONE]'' then (a1\<lparr>ua_terminal := True\<rparr>, False)
         else if data = [] then (a1, False)
         else (case parse data of
                 None \<Rightarrow> (a1\<lparr>ua_malformed := True\<rparr>, False)
               | Some v \<Rightarrow> observe_json (add_event_type ev v) a1))"

definition sse_line :: "(string \<Rightarrow> json option) \<Rightarrow> string \<Rightarrow> usage_accumulator \<Rightarrow> usage_accumulator \<times> bool" where
  "sse_line parse row a =
     (if row = [] then flush_event parse a
      else (let a1 = (case strip_prefix ''event:'' row of
                        None \<Rightarrow> a | Some ev \<Rightarrow> a\<lparr>ua_event := take_chars 80 (trim ev)\<rparr>)
            in case strip_prefix ''data:'' row of
                 None \<Rightarrow> (a1, False)
               | Some data \<Rightarrow>
                   if MAX_EVENT_BYTES < length (ua_data a1) + length data
                   then (a1\<lparr> ua_malformed := True, ua_data := [] \<rparr>, False)
                   else (a1\<lparr> ua_data := ua_data a1 @ (if ua_data a1 = [] then [] else [byte 10])
                               @ (case strip_prefix '' '' data of None \<Rightarrow> data | Some d \<Rightarrow> d) \<rparr>, False)))"

text \<open>A whole stream: the lines in order, as the response forwarder feeds them.\<close>

definition sse_run :: "(string \<Rightarrow> json option) \<Rightarrow> string list \<Rightarrow> usage_accumulator \<Rightarrow> usage_accumulator" where
  "sse_run parse rows a = fold (\<lambda>row s. fst (sse_line parse row s)) rows a"

section \<open>Well-formed accounts\<close>

text \<open>What holds of an accumulator whatever the upstream sends.\<close>

definition bounded_by :: "nat \<Rightarrow> nat option \<Rightarrow> bool" where
  "bounded_by b x = (case x of None \<Rightarrow> True | Some n \<Rightarrow> n \<le> b)"

definition tokens_ok :: "usage_protocol \<Rightarrow> token_usage \<Rightarrow> bool" where
  "tokens_ok p t \<longleftrightarrow> \<not> exceeds (tk_cached t) (tk_input t) \<and> \<not> exceeds (tk_reasoning t) (tk_output t)
     \<and> bounded_by (3 * MAX_COUNT) (tk_input t) \<and> bounded_by MAX_COUNT (tk_output t)
     \<and> bounded_by MAX_COUNT (tk_cached t) \<and> bounded_by MAX_COUNT (tk_cache_write t)
     \<and> bounded_by MAX_COUNT (tk_reasoning t)
     \<and> (p = PEmbedding \<or> p = PRerank \<longrightarrow> tk_input t \<noteq> None \<longrightarrow> tk_output t = Some 0)
     \<and> (p = PCount \<longrightarrow> t = token_usage_default)"

definition short :: "string option \<Rightarrow> bool" where
  "short r = (case r of None \<Rightarrow> True | Some s \<Rightarrow> char_count s \<le> 64)"

definition usage_ok :: "usage_accumulator \<Rightarrow> bool" where
  "usage_ok a \<longleftrightarrow> tokens_ok (ua_protocol a) (ua_tokens a)
     \<and> bounded_by MAX_COUNT (ua_anthropic_input a) \<and> bounded_by MAX_COUNT (ua_anthropic_read a)
     \<and> bounded_by MAX_COUNT (ua_anthropic_write a)
     \<and> (ua_source a = ''none'' \<longrightarrow> ua_tokens a = token_usage_default)
     \<and> short (ua_finish_reason a)
     \<and> char_count (ua_event a) \<le> 80 \<and> length (ua_data a) \<le> MAX_EVENT_BYTES + 1"

lemma short_simps [simp]: "short None" "short (Some s) \<longleftrightarrow> char_count s \<le> 64"
  by (simp_all add: short_def)

lemma bounded_by_simps [simp]:
  "bounded_by b None" "bounded_by b (Some n) \<longleftrightarrow> n \<le> b"
  "bounded_by b (or_keep x y) \<longleftrightarrow> (if x = None then bounded_by b y else bounded_by b x)"
  by (auto simp: bounded_by_def or_keep_def split: option.splits)

lemma count_field_bounded [simp]: "bounded_by MAX_COUNT (count_field v k)"
  by (auto simp: count_field_def split: option.splits)

lemma bounded_by_mono: "bounded_by b x \<Longrightarrow> b \<le> c \<Longrightarrow> bounded_by c x"
  by (auto simp: bounded_by_def split: option.splits)

lemma or_zero_bounded: "bounded_by b x \<Longrightarrow> or_zero x \<le> b"
  by (auto simp: bounded_by_def or_zero_def split: option.splits)

lemma exceeds_None [simp]: "\<not> exceeds None x" "\<not> exceeds x None"
  by (simp_all add: exceeds_def split: option.splits)

text \<open>Which fields each step leaves alone.\<close>

lemma usage_frames [simp]:
  "ua_protocol (observe_anthropic_input u a) = ua_protocol a" "ua_protocol (observe_input u a) = ua_protocol a"
  "ua_protocol (observe_output u a) = ua_protocol a" "ua_protocol (check_cached a) = ua_protocol a"
  "ua_protocol (check_reasoning a) = ua_protocol a" "ua_protocol (observe_usage u a) = ua_protocol a"
  "ua_data (observe_usage u a) = ua_data a" "ua_event (observe_usage u a) = ua_event a"
  "ua_finish_reason (observe_usage u a) = ua_finish_reason a"
  by (simp_all add: observe_anthropic_input_def observe_input_def observe_output_def check_cached_def
      check_reasoning_def observe_usage_def Let_def)

text \<open>The bounds after the two reading steps, before the plausibility checks.\<close>

definition bounds_ok :: "usage_accumulator \<Rightarrow> bool" where
  "bounds_ok a \<longleftrightarrow> bounded_by (3 * MAX_COUNT) (tk_input (ua_tokens a)) \<and> bounded_by MAX_COUNT (tk_output (ua_tokens a))
     \<and> bounded_by MAX_COUNT (tk_cached (ua_tokens a)) \<and> bounded_by MAX_COUNT (tk_cache_write (ua_tokens a))
     \<and> bounded_by MAX_COUNT (tk_reasoning (ua_tokens a))
     \<and> bounded_by MAX_COUNT (ua_anthropic_input a) \<and> bounded_by MAX_COUNT (ua_anthropic_read a)
     \<and> bounded_by MAX_COUNT (ua_anthropic_write a)"

lemma observe_anthropic_bounds:
  assumes "bounds_ok a"
  shows "bounds_ok (observe_anthropic_input u a)"
proof -
  define inp where "inp = or_keep (count_field u ''input_tokens'') (ua_anthropic_input a)"
  define rd where "rd = or_keep (count_field u ''cache_read_input_tokens'') (ua_anthropic_read a)"
  define wr where "wr = or_keep (count_field u ''cache_creation_input_tokens'') (ua_anthropic_write a)"
  have b: "bounded_by MAX_COUNT inp" "bounded_by MAX_COUNT rd" "bounded_by MAX_COUNT wr"
    using assms by (auto simp: inp_def rd_def wr_def bounds_ok_def)
  have "bounded_by (3 * MAX_COUNT) (map_option (\<lambda>n. n + or_zero rd + or_zero wr) inp)"
    using b(1) or_zero_bounded [OF b(2)] or_zero_bounded [OF b(3)] by (cases inp) auto
  moreover have "bounded_by MAX_COUNT (map_option (\<lambda>_. or_zero rd) inp)"
    using or_zero_bounded [OF b(2)] by (cases inp) auto
  ultimately show ?thesis
    using assms b by (simp add: observe_anthropic_input_def bounds_ok_def Let_def flip: inp_def rd_def wr_def)
qed

lemma observe_input_bounds: "bounds_ok a \<Longrightarrow> bounds_ok (observe_input u a)"
  using bounded_by_mono [OF count_field_bounded, of "3 * MAX_COUNT"]
  by (auto simp: observe_input_def bounds_ok_def Let_def split: option.splits)

lemma observe_output_bounds: "bounds_ok a \<Longrightarrow> bounds_ok (observe_output u a)"
  by (auto simp: observe_output_def bounds_ok_def Let_def split: option.splits)

lemma checks_bounds: "bounds_ok a \<Longrightarrow> bounds_ok (check_reasoning (check_cached a))"
  by (simp add: check_reasoning_def check_cached_def bounds_ok_def)

lemma checks_plausible:
  "\<not> exceeds (tk_cached (ua_tokens (check_reasoning (check_cached a)))) (tk_input (ua_tokens (check_reasoning (check_cached a))))
   \<and> \<not> exceeds (tk_reasoning (ua_tokens (check_reasoning (check_cached a)))) (tk_output (ua_tokens (check_reasoning (check_cached a))))"
  by (simp add: check_reasoning_def check_cached_def)

lemma checks_frame [simp]:
  "tk_input (ua_tokens (check_reasoning (check_cached a))) = tk_input (ua_tokens a)"
  "tk_output (ua_tokens (check_reasoning (check_cached a))) = tk_output (ua_tokens a)"
  "ua_source (check_reasoning (check_cached a)) = ua_source a"
  by (simp_all add: check_reasoning_def check_cached_def)

lemma observe_output_zero:
  "ua_protocol a = PEmbedding \<or> ua_protocol a = PRerank \<Longrightarrow> tk_input (ua_tokens (observe_output u a)) \<noteq> None \<Longrightarrow>
   tk_output (ua_tokens (observe_output u a)) = Some 0"
  by (auto simp: observe_output_def Let_def split: option.splits if_splits)

lemma source_frames [simp]:
  "ua_source (observe_output u a) = ua_source a" "ua_source (observe_input u a) = ua_source a"
  "ua_source (observe_anthropic_input u a) = ua_source a"
  by (simp_all add: observe_output_def observe_input_def observe_anthropic_input_def Let_def)

lemma usage_ok_bounds: "usage_ok a \<Longrightarrow> bounds_ok a"
  by (auto simp: usage_ok_def tokens_ok_def bounds_ok_def)

lemma observe_usage_ok:
  assumes "usage_ok a"
  shows "usage_ok (observe_usage u a)"
proof (cases "ua_protocol a = PCount")
  case True
  then show ?thesis using assms by (simp add: observe_usage_def)
next
  case False
  define a1 where "a1 = a\<lparr> ua_source := ''upstream_usage'',
    ua_malformed := ua_malformed a \<or> has_malformed_count (ua_protocol a) u \<rparr>"
  define a2 where "a2 = (if ua_protocol a = PAnthropic then observe_anthropic_input u a1 else observe_input u a1)"
  define a3 where "a3 = observe_output u a2"
  have r: "observe_usage u a = check_reasoning (check_cached a3)"
    using False by (simp add: observe_usage_def a1_def a2_def a3_def)
  have "bounds_ok a1" using usage_ok_bounds [OF assms] by (simp add: a1_def bounds_ok_def)
  then have "bounds_ok a3"
    by (simp add: a3_def a2_def observe_output_bounds observe_anthropic_bounds observe_input_bounds)
  then have b: "bounds_ok (observe_usage u a)" unfolding r by (rule checks_bounds)
  have p: "ua_protocol a2 = ua_protocol a" by (simp add: a2_def a1_def)
  have z: "ua_protocol a = PEmbedding \<or> ua_protocol a = PRerank \<longrightarrow> tk_input (ua_tokens (observe_usage u a)) \<noteq> None
      \<longrightarrow> tk_output (ua_tokens (observe_usage u a)) = Some 0"
    using observe_output_zero [of a2 u] p unfolding r a3_def by simp
  have s: "ua_source (observe_usage u a) = ''upstream_usage''"
    unfolding r by (simp add: a3_def a2_def a1_def)
  show ?thesis
    using b z s checks_plausible [of a3] False assms
    by (simp add: usage_ok_def tokens_ok_def bounds_ok_def r [symmetric])
qed

lemma finish_fold_short:
  "short r \<Longrightarrow> short (fold (\<lambda>choice r. case str_field choice ''finish_reason'' of
     None \<Rightarrow> r | Some s \<Rightarrow> Some (take_chars 64 s)) cs r)"
  by (induction cs arbitrary: r) (simp_all add: char_count_take_chars split: option.split)

lemma finish_reason_bounded: "short old \<Longrightarrow> short (finish_reason_of v old)"
proof -
  assume o: "short old"
  have "char_count ''incomplete'' \<le> 64" by (simp add: char_count_def is_continuation_def)
  then show ?thesis
    using o unfolding finish_reason_of_def Let_def
    by (auto simp: char_count_take_chars split: option.split intro!: finish_fold_short)
qed

lemma observe_json_ok: "usage_ok a \<Longrightarrow> usage_ok (fst (observe_json v a))"
proof -
  assume ok: "usage_ok a"
  have "usage_ok (a\<lparr> ua_failed := f, ua_terminal := t, ua_finish_reason := finish_reason_of v (ua_finish_reason a) \<rparr>)" for f t
    using ok finish_reason_bounded [of "ua_finish_reason a" v] by (simp add: usage_ok_def)
  then show ?thesis by (simp add: observe_json_def Let_def observe_usage_ok split: option.splits)
qed

lemma flush_event_ok: "usage_ok a \<Longrightarrow> usage_ok (fst (flush_event parse a))"
proof -
  assume ok: "usage_ok a"
  then have "usage_ok (a\<lparr> ua_data := [], ua_event := [] \<rparr>)" by (simp add: usage_ok_def char_count_def)
  then show ?thesis
    by (auto simp: flush_event_def Let_def usage_ok_def [of "_\<lparr>ua_terminal := _\<rparr>"] usage_ok_def [of "_\<lparr>ua_malformed := _\<rparr>"]
        intro!: observe_json_ok split: option.splits) (simp_all add: usage_ok_def)
qed

lemma sse_line_ok: "usage_ok a \<Longrightarrow> usage_ok (fst (sse_line parse row a))"
proof -
  assume ok: "usage_ok a"
  define a1 where "a1 = (case strip_prefix ''event:'' row of
      None \<Rightarrow> a | Some ev \<Rightarrow> a\<lparr>ua_event := take_chars 80 (trim ev)\<rparr>)"
  have "usage_ok a1" using ok char_count_take_chars by (auto simp: a1_def usage_ok_def split: option.splits)
  moreover have "strip_prefix '' '' data = Some d \<Longrightarrow> length d \<le> length data" for data d
    by (auto simp: strip_prefix_Some)
  ultimately show ?thesis
    using flush_event_ok [OF ok]
    by (auto simp: sse_line_def Let_def a1_def [symmetric] usage_ok_def split: option.splits)
       (fastforce dest: le_trans)+
qed

lemma usage_ok_new: "usage_ok (usage_new p)"
  by (simp add: usage_ok_def usage_new_def tokens_ok_def token_usage_default_def char_count_def)

text \<open>
  C18. Whatever an upstream sends, the account of a response stays well formed: cached tokens are part
  of the input and reasoning tokens part of the output, every count fits the ledger's range
  without overflow, vector requests have no output, counting requests consume nothing, and the
  buffers for events and reasons stay bounded.
\<close>

theorem usage_wellformed:
  "usage_ok (sse_run parse rows (usage_new p)) \<and> usage_ok (fst (observe_json v (usage_new p)))
   \<and> 3 * MAX_COUNT \<le> i64_max"
proof -
  note n = usage_ok_new [of p]
  have "usage_ok a \<Longrightarrow> usage_ok (sse_run parse rows a)" for a
    by (induction rows arbitrary: a) (auto simp: sse_run_def sse_line_ok)
  with n show ?thesis by (simp add: observe_json_ok MAX_COUNT_def)
qed

section \<open>Totals of a stream\<close>

text \<open>The last valid value of a counter in a sequence of usage objects.\<close>

definition last_count :: "string \<Rightarrow> json list \<Rightarrow> nat option" where
  "last_count name us = fold (\<lambda>u r. or_keep (count_field u name) r) us None"

lemma last_count_snoc [simp]: "last_count name (us @ [u]) = or_keep (count_field u name) (last_count name us)"
  by (simp add: last_count_def)

lemma last_count_Nil [simp]: "last_count name [] = None"
  by (simp add: last_count_def)

lemma map_filter_snoc:
  "List.map_filter f (xs @ [x]) = List.map_filter f xs @ (case f x of None \<Rightarrow> [] | Some y \<Rightarrow> [y])"
  by (simp add: List.map_filter_def split: option.split)

definition observe_all :: "json list \<Rightarrow> usage_accumulator \<Rightarrow> usage_accumulator" where
  "observe_all vs a = fold (\<lambda>v s. fst (observe_json v s)) vs a"

text \<open>The counters one usage object changes.\<close>

lemma output_frame [simp]:
  "tk_input (ua_tokens (observe_output u a)) = tk_input (ua_tokens a)"
  "ua_anthropic_input (observe_output u a) = ua_anthropic_input a"
  "ua_anthropic_read (observe_output u a) = ua_anthropic_read a"
  "ua_anthropic_write (observe_output u a) = ua_anthropic_write a"
  by (simp_all add: observe_output_def Let_def split: option.split)

lemma checks_anthropic_frame [simp]:
  "ua_anthropic_input (check_reasoning (check_cached a)) = ua_anthropic_input a"
  "ua_anthropic_read (check_reasoning (check_cached a)) = ua_anthropic_read a"
  "ua_anthropic_write (check_reasoning (check_cached a)) = ua_anthropic_write a"
  by (simp_all add: check_reasoning_def check_cached_def)

lemma observe_usage_anthropic:
  assumes "ua_protocol a = PAnthropic"
  shows "ua_anthropic_input (observe_usage u a) = or_keep (count_field u ''input_tokens'') (ua_anthropic_input a)"
    "ua_anthropic_read (observe_usage u a) = or_keep (count_field u ''cache_read_input_tokens'') (ua_anthropic_read a)"
    "ua_anthropic_write (observe_usage u a) = or_keep (count_field u ''cache_creation_input_tokens'') (ua_anthropic_write a)"
    "tk_input (ua_tokens (observe_usage u a))
       = map_option (\<lambda>n. n + or_zero (ua_anthropic_read (observe_usage u a)) + or_zero (ua_anthropic_write (observe_usage u a)))
           (ua_anthropic_input (observe_usage u a))"
  using assms by (simp_all add: observe_usage_def Let_def observe_anthropic_input_def)

lemma input_of_observe_input [simp]:
  "tk_input (ua_tokens (observe_input u a)) = or_keep (count_field u (input_key (ua_protocol a))) (tk_input (ua_tokens a))"
  "tk_output (ua_tokens (observe_input u a)) = tk_output (ua_tokens a)"
  "tk_output (ua_tokens (observe_anthropic_input u a)) = tk_output (ua_tokens a)"
  by (simp_all add: observe_input_def observe_anthropic_input_def Let_def split: option.split)

lemma output_of_observe_output:
  "ua_protocol a \<noteq> PEmbedding \<Longrightarrow> ua_protocol a \<noteq> PRerank \<Longrightarrow>
   tk_output (ua_tokens (observe_output u a)) = or_keep (count_field u (output_key (ua_protocol a))) (tk_output (ua_tokens a))"
  by (simp add: observe_output_def Let_def split: option.split)

lemma observe_usage_input:
  "ua_protocol a \<noteq> PCount \<Longrightarrow> ua_protocol a \<noteq> PAnthropic \<Longrightarrow>
   tk_input (ua_tokens (observe_usage u a)) = or_keep (count_field u (input_key (ua_protocol a))) (tk_input (ua_tokens a))"
  by (simp add: observe_usage_def Let_def)

lemma observe_usage_output:
  "ua_protocol a \<notin> {PCount, PEmbedding, PRerank} \<Longrightarrow>
   tk_output (ua_tokens (observe_usage u a)) = or_keep (count_field u (output_key (ua_protocol a))) (tk_output (ua_tokens a))"
  by (simp add: observe_usage_def Let_def output_of_observe_output)

lemma observe_json_usage:
  "ua_protocol (fst (observe_json v a)) = ua_protocol a"
  "usage_object (ua_protocol a) v = None \<Longrightarrow> ua_tokens (fst (observe_json v a)) = ua_tokens a
     \<and> ua_anthropic_input (fst (observe_json v a)) = ua_anthropic_input a
     \<and> ua_anthropic_read (fst (observe_json v a)) = ua_anthropic_read a
     \<and> ua_anthropic_write (fst (observe_json v a)) = ua_anthropic_write a"
  by (simp_all add: observe_json_def Let_def split: option.split)

lemma observe_json_Some:
  assumes "usage_object (ua_protocol a) v = Some u"
  obtains b where "fst (observe_json v a) = observe_usage u b" "ua_protocol b = ua_protocol a"
    "ua_tokens b = ua_tokens a" "ua_anthropic_input b = ua_anthropic_input a"
    "ua_anthropic_read b = ua_anthropic_read a" "ua_anthropic_write b = ua_anthropic_write a"
  using assms that by (simp add: observe_json_def Let_def)

lemma observe_all_protocol [simp]: "ua_protocol (observe_all vs a) = ua_protocol a"
  by (induction vs arbitrary: a) (simp_all add: observe_all_def observe_json_usage)

lemma observe_all_snoc: "observe_all (vs @ [v]) a = fst (observe_json v (observe_all vs a))"
  by (simp add: observe_all_def)

lemma anthropic_totals:
  fixes vs :: "json list"
  defines "us \<equiv> List.map_filter (usage_object PAnthropic) vs"
  shows "ua_anthropic_input (observe_all vs (usage_new PAnthropic)) = last_count ''input_tokens'' us
   \<and> ua_anthropic_read (observe_all vs (usage_new PAnthropic)) = last_count ''cache_read_input_tokens'' us
   \<and> ua_anthropic_write (observe_all vs (usage_new PAnthropic)) = last_count ''cache_creation_input_tokens'' us
   \<and> tk_input (ua_tokens (observe_all vs (usage_new PAnthropic)))
     = map_option (\<lambda>n. n + or_zero (last_count ''cache_read_input_tokens'' us)
          + or_zero (last_count ''cache_creation_input_tokens'' us)) (last_count ''input_tokens'' us)"
  unfolding us_def
proof (induction vs rule: rev_induct)
  case Nil
  then show ?case by (simp add: observe_all_def usage_new_def token_usage_default_def List.map_filter_def)
next
  case (snoc v vs)
  let ?a = "observe_all vs (usage_new PAnthropic)"
  have p: "ua_protocol ?a = PAnthropic" by (simp add: usage_new_def)
  show ?case
  proof (cases "usage_object PAnthropic v")
    case None
    then show ?thesis using snoc observe_json_usage(2) [of ?a v] p by (simp add: observe_all_snoc map_filter_snoc)
  next
    case (Some u)
    obtain b where b: "fst (observe_json v ?a) = observe_usage u b" "ua_protocol b = PAnthropic"
      "ua_anthropic_input b = ua_anthropic_input ?a" "ua_anthropic_read b = ua_anthropic_read ?a"
      "ua_anthropic_write b = ua_anthropic_write ?a"
      using observe_json_Some [of ?a v u] Some p by metis
    show ?thesis using snoc b Some observe_usage_anthropic [OF b(2), of u] by (simp add: observe_all_snoc map_filter_snoc)
  qed
qed

lemma plain_totals:
  fixes vs :: "json list" and p :: usage_protocol
  defines "us \<equiv> List.map_filter (usage_object p) vs"
  assumes "p \<noteq> PCount"
  shows "(p \<noteq> PAnthropic \<longrightarrow> tk_input (ua_tokens (observe_all vs (usage_new p))) = last_count (input_key p) us)
    \<and> (p \<noteq> PEmbedding \<and> p \<noteq> PRerank \<longrightarrow>
          tk_output (ua_tokens (observe_all vs (usage_new p))) = last_count (output_key p) us)"
  unfolding us_def
proof (induction vs rule: rev_induct)
  case Nil
  then show ?case by (simp add: observe_all_def usage_new_def token_usage_default_def List.map_filter_def)
next
  case (snoc v vs)
  let ?a = "observe_all vs (usage_new p)"
  have p: "ua_protocol ?a = p" by (simp add: usage_new_def)
  show ?case
  proof (cases "usage_object p v")
    case None
    then show ?thesis using snoc observe_json_usage(2) [of ?a v] p by (simp add: observe_all_snoc map_filter_snoc)
  next
    case (Some u)
    obtain b where b: "fst (observe_json v ?a) = observe_usage u b" "ua_protocol b = p" "ua_tokens b = ua_tokens ?a"
      using observe_json_Some [of ?a v u] Some p by metis
    show ?thesis
      using snoc b Some assms(2) observe_usage_input [of b u] observe_usage_output [of b u]
      by (simp add: observe_all_snoc map_filter_snoc)
  qed
qed

text \<open>
  Usage reports of a stream are cumulative, never added up: after any sequence of values the
  input and output counts are the last valid ones reported, for the Anthropic protocol with
  the disjoint cache counters added to the input.
\<close>

theorem stream_totals:
  fixes vs :: "json list" and p :: usage_protocol
  defines "us \<equiv> List.map_filter (usage_object p) vs" and "t \<equiv> ua_tokens (observe_all vs (usage_new p))"
  assumes "p \<noteq> PCount"
  shows "tk_input t = (if p = PAnthropic
      then map_option (\<lambda>n. n + or_zero (last_count ''cache_read_input_tokens'' us)
             + or_zero (last_count ''cache_creation_input_tokens'' us)) (last_count ''input_tokens'' us)
      else last_count (input_key p) us)
    \<and> (if p = PEmbedding \<or> p = PRerank then tk_input t \<noteq> None \<longrightarrow> tk_output t = Some 0
        else tk_output t = last_count (output_key p) us)"
proof -
  have "usage_ok a \<Longrightarrow> usage_ok (observe_all vs a)" for a
    by (induction vs arbitrary: a) (simp_all add: observe_all_def observe_json_ok)
  then have "usage_ok (observe_all vs (usage_new p))" using usage_ok_new by blast
  then have "p = PEmbedding \<or> p = PRerank \<longrightarrow> tk_input t \<noteq> None \<longrightarrow> tk_output t = Some 0"
    by (auto simp: usage_ok_def tokens_ok_def t_def usage_new_def)
  then show ?thesis
    using anthropic_totals [of vs] plain_totals [OF assms(3), of vs] by (auto simp: us_def t_def)
qed

theorem stream_totals_witness:
  "tk_input (ua_tokens (observe_all
      [JObject [(''usage'', JObject [(''prompt_tokens'', JNumber (PosInt 7)), (''completion_tokens'', JNumber (PosInt 1))])],
       JObject [(''usage'', JObject [(''completion_tokens'', JNumber (PosInt 5))])]] (usage_new PChat))) = Some 7"
  using stream_totals [of PChat "[JObject [(''usage'', JObject [(''prompt_tokens'', JNumber (PosInt 7)), (''completion_tokens'', JNumber (PosInt 1))])],
       JObject [(''usage'', JObject [(''completion_tokens'', JNumber (PosInt 5))])]]"]
  by (simp add: List.map_filter_def usage_object_def last_count_def or_keep_def count_field_def json_field_def input_key_def
      MAX_COUNT_def)

section \<open>Framing of events\<close>

fun join_lines :: "string list \<Rightarrow> string" where
  "join_lines [] = []"
| "join_lines [d] = d"
| "join_lines (d # ds) = d @ [byte 10] @ join_lines ds"

lemma join_lines_snoc: "ds \<noteq> [] \<Longrightarrow> join_lines (ds @ [d]) = join_lines ds @ [byte 10] @ d"
  by (induction ds rule: join_lines.induct) simp_all

lemma join_lines_ne: "ds \<noteq> [] \<Longrightarrow> hd ds \<noteq> [] \<Longrightarrow> join_lines ds \<noteq> []"
  by (cases ds rule: join_lines.cases) auto

lemma sse_line_data:
  assumes "length (ua_data a) + length d + 1 \<le> MAX_EVENT_BYTES"
  shows "fst (sse_line parse (''data: '' @ d) a)
    = a\<lparr> ua_data := ua_data a @ (if ua_data a = [] then [] else [byte 10]) @ d \<rparr>"
  using assms by (simp add: sse_line_def strip_prefix_def starts_with_def Let_def)

lemma sse_run_data:
  "ds \<noteq> [] \<Longrightarrow> hd ds \<noteq> [] \<Longrightarrow> ua_data a = [] \<Longrightarrow> length (join_lines ds) + 1 \<le> MAX_EVENT_BYTES \<Longrightarrow>
   sse_run parse (map (\<lambda>d. ''data: '' @ d) ds) a = a\<lparr> ua_data := join_lines ds \<rparr>"
proof (induction ds rule: rev_induct)
  case (snoc d ds)
  show ?case
  proof (cases "ds = []")
    case True
    then show ?thesis using snoc.prems sse_line_data [of a d parse] by (simp add: sse_run_def)
  next
    case False
    note j = join_lines_snoc [OF False, of d]
    have "sse_run parse (map (\<lambda>d. ''data: '' @ d) ds) a = a\<lparr> ua_data := join_lines ds \<rparr>"
      by (rule snoc.IH) (use False snoc.prems j in auto)
    then show ?thesis
      using snoc.prems j join_lines_ne [OF False] False sse_line_data [of "a\<lparr> ua_data := join_lines ds \<rparr>" d parse]
      by (simp add: sse_run_def)
  qed
qed simp

text \<open>
  An event of a stream is accounted exactly like the JSON value it carries: its data lines are
  joined by line feeds, parsed once at the blank line, and the event name stands in for a
  missing type.
\<close>

theorem sse_framing:
  assumes "ds \<noteq> []" "hd ds \<noteq> []" "length (join_lines ds) + 1 \<le> MAX_EVENT_BYTES"
    and "trim ev = ev" "char_count ev \<le> 80" "ua_data a = []" "ua_event a = []"
    and "trim (join_lines ds) \<noteq> ''[DONE]''" "parse (join_lines ds) = Some v"
  shows "sse_run parse ((''event: '' @ ev) # map (\<lambda>d. ''data: '' @ d) ds @ [[]]) a
    = fst (observe_json (add_event_type ev v) a)"
proof -
  have cleared: "a\<lparr> ua_data := [], ua_event := [] \<rparr> = a" using assms(6,7) by simp
  have "fst (sse_line parse (''event: '' @ ev) a) = a\<lparr> ua_event := ev \<rparr>"
    using assms(4,5) by (simp add: sse_line_def strip_prefix_def starts_with_def Let_def trim_space take_chars_all)
  moreover have "sse_run parse (map (\<lambda>d. ''data: '' @ d) ds) (a\<lparr> ua_event := ev \<rparr>) = a\<lparr> ua_event := ev, ua_data := join_lines ds \<rparr>"
    using sse_run_data [of ds "a\<lparr> ua_event := ev \<rparr>" parse] assms by simp
  moreover have "fst (sse_line parse [] (a\<lparr> ua_event := ev, ua_data := join_lines ds \<rparr>)) = fst (observe_json (add_event_type ev v) a)"
    using assms join_lines_ne [OF assms(1,2)] by (simp add: sse_line_def flush_event_def Let_def cleared)
  ultimately show ?thesis by (simp add: sse_run_def)
qed

theorem sse_framing_witness:
  "sse_run (\<lambda>s. Some (JObject [])) [''event: message_stop'', ''data: {'', ''data: }'', []] (usage_new PAnthropic)
     = fst (observe_json (JObject [(''type'', JString ''message_stop'')]) (usage_new PAnthropic))"
proof -
  have t: "trim ''message_stop'' = ''message_stop''"
    by (rule trim_graphic) (auto simp: graphic_def)
  have "CHR ''D'' \<notin> set (''{'' @ [byte 10] @ ''}'')" by (simp add: byte_def eq_char_of_iff)
  then have "CHR ''D'' \<notin> set (trim (''{'' @ [byte 10] @ ''}''))" using set_trim by blast
  then have "trim (''{'' @ [byte 10] @ ''}'') \<noteq> ''[DONE]''" by auto
  then show ?thesis
    using sse_framing [of "[''{'', ''}'']" "''message_stop''" "usage_new PAnthropic" "\<lambda>s. Some (JObject [])" "JObject []"] t
    by (simp add: MAX_EVENT_BYTES_def usage_new_def byte_def char_count_def is_continuation_def)
qed

end
