(* ===== verification/Proxy_Protocol.thy ===== *)
theory Proxy_Protocol
  imports Request_Body Usage_Protocol
begin

text \<open>
  Error envelopes and response rewriting of the two API formats
  (\<open>src-tauri/src/commands/proxy_protocol.rs\<close>), with the diagnostic categories of
  \<open>usage_diagnostics.rs\<close>.  A response has a status, headers and a JSON body; its failure
  category is the extension the usage ledger reads.  Parameters stand for code outside the
  repository: \<open>parse\<close> and \<open>print\<close> for \<open>serde_json\<close>, \<open>header_ok\<close> for the values that
  \<open>HeaderValue::from_str\<close> accepts, \<open>reason\<close> for \<open>StatusCode::canonical_reason\<close>, and
  \<open>rid\<close> for the request identifier drawn at random.  \<open>String::from_utf8_lossy\<close> of the
  standard library is modelled here.
\<close>

section \<open>Formats\<close>

datatype api_format = OpenAi | Anthropic

definition format_from_path :: "string \<Rightarrow> api_format" where
  "format_from_path path =
     (if path = ''/v1/messages'' \<or> path = ''/v1/messages/count_tokens'' then Anthropic else OpenAi)"

fun format_as_str :: "api_format \<Rightarrow> string" where
  "format_as_str OpenAi = ''openai''"
| "format_as_str Anthropic = ''anthropic''"

definition is_anthropic :: "api_format \<Rightarrow> bool" where
  "is_anthropic f \<longleftrightarrow> f = Anthropic"

definition request_format :: "string \<Rightarrow> bool \<Rightarrow> api_format" where
  "request_format path has_anthropic_version =
     (if is_anthropic (format_from_path path) \<or> (has_anthropic_version \<and> usage_from_path path = None)
      then Anthropic else OpenAi)"

definition anthropic_error_type :: "nat \<Rightarrow> string" where
  "anthropic_error_type status =
     (if status = 400 \<or> status = 405 then ''invalid_request_error''
      else if status = 413 then ''request_too_large''
      else if status = 401 then ''authentication_error''
      else if status = 403 then ''permission_error''
      else if status = 404 then ''not_found_error''
      else if status = 429 then ''rate_limit_error''
      else if status = 529 then ''overloaded_error''
      else ''api_error'')"

definition openai_error_type :: "nat \<Rightarrow> string" where
  "openai_error_type status =
     (if status = 401 then ''authentication_error''
      else if status = 403 then ''permission_error''
      else if status = 429 then ''rate_limit_error''
      else if 400 \<le> status \<and> status < 500 then ''invalid_request_error''
      else ''server_error'')"

section \<open>Failure categories\<close>

record usage_failure =
  uf_stage :: string
  uf_code :: string
  uf_reason :: string

definition failure_reasons :: "(string \<times> string) list" where
  "failure_reasons =
    [(''token_quota_exceeded'', ''The API key token quota cannot cover this request and existing reservations.''),
     (''token_quota_unavailable'', ''The quota ledger is unavailable; the request was not forwarded.''),
     (''token_quota_unmetered'', ''A reliable token reservation is unavailable; the request was not forwarded.''),
     (''token_quota_invalid_limit'', ''An output limit has an invalid type or value; missing or unbounded limits are filled automatically.''),
     (''token_quota_multiple_generations'', ''Hard quotas require one generation per request; split multiple generations into separate requests.''),
     (''token_quota_unsupported_batch'', ''Hard quotas require one completion prompt per request; split the prompt batch.''),
     (''context_length_exceeded'', ''Input and requested output exceed the route context window.''),
     (''authentication_failed'', ''The router could not authenticate this request.''),
     (''permission_denied'', ''The request is not permitted by the router access policy.''),
     (''rate_limited'', ''The API key request rate limit was reached.''),
     (''queue_timeout'', ''No router concurrency slot became available before the queue deadline.''),
     (''route_unavailable'', ''No matching route is ready to accept this request.''),
     (''route_capacity'', ''All ready matching routes are at capacity; use bounded retries.''),
     (''model_required'', ''Supply a model or configure an unambiguous default target.''),
     (''model_not_found'', ''No public route matches the requested model.''),
     (''model_endpoint_mismatch'', ''The selected model does not support this endpoint workload.''),
     (''endpoint_not_found'', ''The router does not expose this endpoint.''),
     (''method_not_allowed'', ''The HTTP method is not supported by this endpoint.''),
     (''body_capacity'', ''The router request body memory budget was reached.''),
     (''upstream_timeout'', ''The upstream response deadline was exceeded.''),
     (''upstream_connection_failed'', ''The router could not complete the upstream connection.''),
     (''upstream_error'', ''The upstream returned an error; inspect the instance using the correlated request ID.''),
     (''stream_timeout'', ''The upstream stream exceeded the idle deadline.''),
     (''stream_interrupted'', ''The stream ended without a complete protocol response.''),
     (''client_cancelled'', ''The request was dropped before response delivery completed.''),
     (''response_error'', ''The upstream response could not be read within the router limits.''),
     (''invalid_request'', ''The request did not satisfy the endpoint contract.''),
     (''invalid_tool_history'', ''Chat tool calls and results are missing, duplicated or incorrectly paired; generation was not forwarded.'')]"

definition failure_new :: "string \<Rightarrow> string \<Rightarrow> usage_failure" where
  "failure_new stage code = \<lparr> uf_stage = stage, uf_code = code,
     uf_reason = (case map_of failure_reasons code of
                    Some r \<Rightarrow> r | None \<Rightarrow> ''The router could not complete this request.'') \<rparr>"

definition failure_local :: "nat \<Rightarrow> string \<Rightarrow> usage_failure" where
  "failure_local status message =
     (if message = ''router concurrency limit exceeded'' then failure_new ''queue'' ''queue_timeout''
      else if message = ''router in-flight request body budget exceeded'' then failure_new ''admission'' ''body_capacity''
      else if message = ''all matching routes are unavailable or at capacity''
              \<or> message = ''all matching targets are at capacity'' then failure_new ''routing'' ''route_capacity''
      else if message = ''no public route matches the requested model'' then failure_new ''routing'' ''route_unavailable''
      else if status = 401 then failure_new ''authentication'' ''authentication_failed''
      else if status = 403 then failure_new ''authentication'' ''permission_denied''
      else if status = 429 then failure_new ''admission'' ''rate_limited''
      else if status \<in> set [400, 404, 405, 413, 422] then failure_new ''validation'' ''invalid_request''
      else failure_new ''routing'' ''internal_error'')"

record context_budget =
  cb_input_tokens :: "nat option"
  cb_requested_output_tokens :: nat
  cb_context_window :: nat
  cb_excess_tokens :: "nat option"
  cb_input_source :: string

definition context_budget_new :: "nat option \<Rightarrow> nat \<Rightarrow> nat \<Rightarrow> string \<Rightarrow> context_budget" where
  "context_budget_new inp out window source = \<lparr> cb_input_tokens = inp, cb_requested_output_tokens = out,
     cb_context_window = window,
     cb_excess_tokens = (case inp of
        Some n \<Rightarrow> Some (sat_add u64_max n out - window)
      | None \<Rightarrow> if window < out then Some (out - window) else None),
     cb_input_source = source \<rparr>"

definition correlation_id :: "string \<Rightarrow> string option" where
  "correlation_id s =
     (if s \<noteq> [] \<and> length s \<le> 128 \<and> list_all (\<lambda>b. is_ascii_alphanumeric b \<or> b \<in> set ''_-.:/'') s
      then Some s else None)"

section \<open>Responses\<close>

text \<open>
  A \<open>HeaderMap\<close> is the list of its entries with lower-case names; a name may have several
  values.  \<open>insert\<close> replaces all of them, \<open>append\<close> adds one, \<open>get\<close> gives the first.
\<close>

type_synonym headers = "(string \<times> string) list"

definition hdr_insert :: "string \<Rightarrow> string \<Rightarrow> headers \<Rightarrow> headers" where
  "hdr_insert name v hs = hm_remove name hs @ [(name, v)]"

definition hdr_append :: "string \<Rightarrow> string \<Rightarrow> headers \<Rightarrow> headers" where
  "hdr_append name v hs = hs @ [(name, v)]"

lemma hdr_get_insert [simp]: "hm_get (hdr_insert name v hs) k = (if name = k then Some v else hm_get hs k)"
  by (simp add: hdr_insert_def map_add_def split: option.split)

record response =
  rs_status :: nat
  rs_headers :: headers
  rs_body :: json
  rs_failure :: "usage_failure option"

definition add_header :: "string \<Rightarrow> string \<Rightarrow> response \<Rightarrow> response" where
  "add_header name v r = r\<lparr> rs_headers := hdr_insert name v (rs_headers r) \<rparr>"

text \<open>\<open>if let Ok(value) = HeaderValue::from_str(v)\<close>\<close>

definition try_header :: "(string \<Rightarrow> bool) \<Rightarrow> string \<Rightarrow> string \<Rightarrow> response \<Rightarrow> response" where
  "try_header header_ok name v r = (if header_ok v then add_header name v r else r)"

definition request_id_name :: "api_format \<Rightarrow> string" where
  "request_id_name format = (if is_anthropic format then ''request-id'' else ''x-request-id'')"

definition ANTHROPIC_FORMAT_HEADER :: string where
  "ANTHROPIC_FORMAT_HEADER = ''x-llama-server-manager-api-format''"

definition add_format_header :: "api_format \<Rightarrow> response \<Rightarrow> response" where
  "add_format_header format r =
     (if is_anthropic format then add_header ANTHROPIC_FORMAT_HEADER ''anthropic'' r else r)"

definition ensure_request_id_header :: "(string \<Rightarrow> bool) \<Rightarrow> string \<Rightarrow> api_format \<Rightarrow> response \<Rightarrow> response" where
  "ensure_request_id_header header_ok rid format r =
     (if hm_get (rs_headers r) (request_id_name format) \<noteq> None then r
      else try_header header_ok (request_id_name format) rid r)"

definition json_response :: "nat \<Rightarrow> json \<Rightarrow> usage_failure \<Rightarrow> response" where
  "json_response status v f = \<lparr> rs_status = status, rs_headers = [(''content-type'', ''application/json'')],
     rs_body = v, rs_failure = Some f \<rparr>"

definition proxy_request_id :: "string \<Rightarrow> string" where
  "proxy_request_id uuid = ''req_'' @ uuid"

definition json_opt_str :: "string option \<Rightarrow> json" where
  "json_opt_str x = (case x of None \<Rightarrow> JNull | Some s \<Rightarrow> JString s)"

definition json_nat :: "nat \<Rightarrow> json" where
  "json_nat n = JNumber (PosInt n)"

definition json_opt_nat :: "nat option \<Rightarrow> json" where
  "json_opt_nat x = (case x of None \<Rightarrow> JNull | Some n \<Rightarrow> json_nat n)"

definition anthropic_error_value :: "nat \<Rightarrow> string \<Rightarrow> string \<Rightarrow> (string \<times> json) list \<Rightarrow> json" where
  "anthropic_error_value status message rid extra =
     JObject [(''type'', JString ''error''),
       (''error'', JObject ([(''type'', JString (anthropic_error_type status)), (''message'', JString message)] @ extra)),
       (''request_id'', JString rid)]"

definition openai_error_value :: "string \<Rightarrow> string \<Rightarrow> json \<Rightarrow> json \<Rightarrow> (string \<times> json) list \<Rightarrow> json" where
  "openai_error_value message ty param code extra =
     JObject [(''error'', JObject ([(''message'', JString message), (''type'', JString ty),
       (''param'', param), (''code'', code)] @ extra))]"

definition error_response :: "(string \<Rightarrow> bool) \<Rightarrow> string \<Rightarrow> api_format \<Rightarrow> nat \<Rightarrow> string \<Rightarrow> response" where
  "error_response header_ok rid format status message =
     add_format_header format
      (try_header header_ok (request_id_name format) rid
        (json_response status
          (case format of
             OpenAi \<Rightarrow> openai_error_value message (openai_error_type status) JNull JNull []
           | Anthropic \<Rightarrow> anthropic_error_value status message rid [])
          (failure_local status message)))"

text \<open>
  \<open>rid2\<close> is the identifier that \<open>ensure_request_id_header\<close> draws if the first one was no
  valid header value.
\<close>

definition coded_error_response ::
  "(string \<Rightarrow> bool) \<Rightarrow> string \<Rightarrow> string \<Rightarrow> api_format \<Rightarrow> nat \<Rightarrow> string \<Rightarrow> string \<Rightarrow> string \<Rightarrow> string option \<Rightarrow> response" where
  "coded_error_response header_ok rid rid2 format status stage code message param =
     add_format_header format
      (ensure_request_id_header header_ok rid2 format
        (try_header header_ok (request_id_name format) rid
          (json_response status
            (if is_anthropic format
             then anthropic_error_value status message rid [(''code'', JString code), (''param'', json_opt_str param)]
             else openai_error_value message (openai_error_type status) (json_opt_str param) (JString code) [])
            (failure_new stage code))))"

definition quota_error_response ::
  "(string \<Rightarrow> bool) \<Rightarrow> string \<Rightarrow> string \<Rightarrow> api_format \<Rightarrow> nat \<Rightarrow> string \<Rightarrow> string \<Rightarrow> string option \<Rightarrow> response" where
  "quota_error_response header_ok rid rid2 format status code message param =
     coded_error_response header_ok rid rid2 format status ''quota'' code message param"

definition checkpoint_unavailable_response :: "(string \<Rightarrow> bool) \<Rightarrow> string \<Rightarrow> api_format \<Rightarrow> string \<Rightarrow> response" where
  "checkpoint_unavailable_response header_ok rid format phase =
     (let message = ''matching route is temporarily unavailable while checkpoint state is resolving'';
          checkpoint = JObject [(''phase'', JString phase), (''retryable'', JBool True)];
          v = (case format of
                 OpenAi \<Rightarrow> openai_error_value message (openai_error_type 503) JNull
                            (JString ''checkpoint_not_ready'') [(''checkpoint'', checkpoint)]
               | Anthropic \<Rightarrow> anthropic_error_value 503 message rid
                            [(''code'', JString ''checkpoint_not_ready''), (''checkpoint'', checkpoint)])
      in add_format_header format
          (try_header header_ok (request_id_name format) rid
            (try_header header_ok ''x-llama-server-manager-checkpoint-phase'' phase
              (add_header ''retry-after'' ''1''
                (json_response 503 v (failure_new ''routing'' ''route_unavailable''))))))"

definition context_message :: "nat option \<Rightarrow> nat \<Rightarrow> nat \<Rightarrow> string" where
  "context_message inp out window =
     (case inp of
        Some n \<Rightarrow> ''This request requires at least '' @ show_nat (sat_add u64_max n out) @ '' tokens (''
          @ show_nat n @ '' input + '' @ show_nat out @ '' output), but the selected route supports a ''
          @ show_nat window @ '' token context window. Reduce the input or output token limit.''
      | None \<Rightarrow> ''The requested output limit of '' @ show_nat out @ '' tokens exceeds the selected route''
          @ [byte 39] @ ''s '' @ show_nat window @ '' token context window. Reduce the output token limit.'')"

definition context_limit_error_response ::
  "(string \<Rightarrow> bool) \<Rightarrow> string \<Rightarrow> api_format \<Rightarrow> string \<Rightarrow> nat option \<Rightarrow> nat \<Rightarrow> nat \<Rightarrow> response" where
  "context_limit_error_response header_ok rid format param inp out window =
     (let message = context_message inp out window;
          details = JObject [(''input_tokens'', json_opt_nat inp), (''requested_output_tokens'', json_nat out),
                             (''context_window'', json_nat window)];
          v = (case format of
                 OpenAi \<Rightarrow> openai_error_value message ''invalid_request_error'' (JString param)
                            (JString ''context_length_exceeded'') [(''details'', details)]
               | Anthropic \<Rightarrow> anthropic_error_value 400 message rid [(''details'', details)]);
          r = try_header header_ok ''x-llama-server-manager-requested-output-tokens'' (show_nat out)
               (try_header header_ok ''x-llama-server-manager-context-window'' (show_nat window)
                 (try_header header_ok (request_id_name format) rid
                   (json_response 400 v (failure_new ''preflight'' ''context_length_exceeded''))))
      in add_format_header format
          (case inp of
             None \<Rightarrow> r
           | Some n \<Rightarrow> try_header header_ok ''x-llama-server-manager-input-tokens'' (show_nat n) r))"

section \<open>Rewriting upstream responses\<close>

text \<open>
  \<open>from_utf8_lossy\<close>: a well-formed sequence is kept, the longest well-formed start of a broken one
  becomes the replacement character.  \<open>follow\<close> gives the ranges of the bytes after the first.
\<close>

definition follow :: "nat \<Rightarrow> (nat \<times> nat) list option" where
  "follow b =
     (if b < 128 then Some []
      else if 194 \<le> b \<and> b \<le> 223 then Some [(128, 191)]
      else if b = 224 then Some [(160, 191), (128, 191)]
      else if b = 237 then Some [(128, 159), (128, 191)]
      else if 225 \<le> b \<and> b \<le> 239 then Some [(128, 191), (128, 191)]
      else if b = 240 then Some [(144, 191), (128, 191), (128, 191)]
      else if 241 \<le> b \<and> b \<le> 243 then Some [(128, 191), (128, 191), (128, 191)]
      else if b = 244 then Some [(128, 143), (128, 191), (128, 191)]
      else None)"

fun matched :: "(nat \<times> nat) list \<Rightarrow> bytes \<Rightarrow> nat" where
  "matched ((lo, hi) # rs) (c # cs) = (if lo \<le> of_char c \<and> of_char c \<le> hi then Suc (matched rs cs) else 0)"
| "matched _ _ = 0"

definition replacement :: string where
  "replacement = map byte [239, 191, 189]"

function utf8_lossy :: "bytes \<Rightarrow> string" where
  "utf8_lossy [] = []"
| "utf8_lossy (c # cs) =
     (case follow (of_char c) of
        None \<Rightarrow> replacement @ utf8_lossy cs
      | Some rs \<Rightarrow>
          (let m = matched rs cs
           in (if m = length rs then c # take m cs else replacement) @ utf8_lossy (drop m cs)))"
  by pat_completeness auto
termination by (relation "measure length") auto

definition upstream_error_message :: "json \<Rightarrow> string option" where
  "upstream_error_message v =
     (case Option.bind (json_get v ''error'') (\<lambda>e. case e of
             JString m \<Rightarrow> Some m | JObject kvs \<Rightarrow> Option.bind (map_of kvs ''message'') as_str | _ \<Rightarrow> None) of
        Some m \<Rightarrow> Some m
      | None \<Rightarrow> json_field as_str v ''message'')"

definition is_anthropic_error :: "json \<Rightarrow> bool" where
  "is_anthropic_error v \<longleftrightarrow> json_field as_str v ''type'' = Some ''error''
     \<and> (case json_field as_object v ''error'' of
          None \<Rightarrow> False
        | Some e \<Rightarrow> Option.bind (map_of e ''type'') as_str \<noteq> None \<and> Option.bind (map_of e ''message'') as_str \<noteq> None)"

definition set_model :: "string \<Rightarrow> (string \<times> json) list \<Rightarrow> (string \<times> json) list" where
  "set_model m kvs = (if hm_get kvs ''model'' \<noteq> None then hm_insert ''model'' (JString m) kvs else kvs)"

definition nested_key :: "api_format \<Rightarrow> string" where
  "nested_key format = (if is_anthropic format then ''message'' else ''response'')"

fun rewrite_known_model_fields :: "string \<Rightarrow> api_format \<Rightarrow> json \<Rightarrow> json" where
  "rewrite_known_model_fields m format (JObject kvs) =
     (let o1 = set_model m kvs
      in case hm_get o1 (nested_key format) of
           Some (JObject inner) \<Rightarrow>
             JObject (if hm_get inner ''model'' \<noteq> None
                      then hm_insert (nested_key format) (JObject (set_model m inner)) o1 else o1)
         | _ \<Rightarrow> JObject o1)"
| "rewrite_known_model_fields m format v = v"

definition or_insert :: "string \<Rightarrow> json \<Rightarrow> (string \<times> json) list \<Rightarrow> (string \<times> json) list" where
  "or_insert k v kvs = (if hm_get kvs k = None then hm_insert k v kvs else kvs)"

definition is_success :: "nat \<Rightarrow> bool" where
  "is_success status \<longleftrightarrow> 200 \<le> status \<and> status < 300"

definition failure_message :: "(nat \<Rightarrow> string option) \<Rightarrow> nat \<Rightarrow> bytes \<Rightarrow> json option \<Rightarrow> string" where
  "failure_message reason status body parsed =
     (case Option.bind parsed upstream_error_message of
        Some m \<Rightarrow> m
      | None \<Rightarrow>
          (let m = trim (utf8_lossy body)
           in if m \<noteq> [] then m
              else case reason status of Some s \<Rightarrow> s | None \<Rightarrow> ''upstream request failed''))"

definition has_message :: "json \<Rightarrow> bool" where
  "has_message v =
     (case json_field as_object v ''error'' of
        None \<Rightarrow> False | Some e \<Rightarrow> Option.bind (map_of e ''message'') as_str \<noteq> None)"

definition complete_openai_error :: "nat \<Rightarrow> json \<Rightarrow> json" where
  "complete_openai_error status v =
     (case json_field as_object v ''error'' of
        Some e \<Rightarrow>
          if Option.bind (map_of e ''message'') as_str \<noteq> None
          then json_set v ''error'' (JObject (or_insert ''code'' JNull (or_insert ''param'' JNull
                 (or_insert ''type'' (JString (openai_error_type status)) e))))
          else v
      | None \<Rightarrow> v)"

definition print_or :: "printer \<Rightarrow> bytes \<Rightarrow> json \<Rightarrow> bytes" where
  "print_or print body v = (case print v of Some b \<Rightarrow> b | None \<Rightarrow> body)"

definition rewrite_anthropic_failure ::
  "printer \<Rightarrow> (nat \<Rightarrow> string option) \<Rightarrow> string \<Rightarrow> bytes \<Rightarrow> json option \<Rightarrow> string \<Rightarrow> nat \<Rightarrow> bytes" where
  "rewrite_anthropic_failure print reason rid body parsed m status =
     (case (case parsed of Some v \<Rightarrow> if is_anthropic_error v then Some v else None | None \<Rightarrow> None) of
        Some v \<Rightarrow>
          (let w = rewrite_known_model_fields m Anthropic v
           in print_or print body
                (if json_field as_str w ''request_id'' = None then json_set w ''request_id'' (JString rid) else w))
      | None \<Rightarrow> print_or print body (anthropic_error_value status (failure_message reason status body parsed) rid []))"

definition rewrite_openai_failure ::
  "printer \<Rightarrow> (nat \<Rightarrow> string option) \<Rightarrow> bytes \<Rightarrow> json option \<Rightarrow> string \<Rightarrow> nat \<Rightarrow> bytes" where
  "rewrite_openai_failure print reason body parsed m status =
     (case (case parsed of Some v \<Rightarrow> let w = complete_openai_error status v in if has_message w then Some w else None
                         | None \<Rightarrow> None) of
        Some w \<Rightarrow> print_or print body (rewrite_known_model_fields m OpenAi w)
      | None \<Rightarrow> print_or print body
          (openai_error_value (failure_message reason status body parsed) (openai_error_type status) JNull JNull []))"

definition rewrite_json_response ::
  "parser \<Rightarrow> printer \<Rightarrow> (nat \<Rightarrow> string option) \<Rightarrow> string \<Rightarrow> bytes \<Rightarrow> string \<Rightarrow> api_format \<Rightarrow> nat \<Rightarrow> bytes" where
  "rewrite_json_response parse print reason rid body m format status =
     (if is_anthropic format \<and> \<not> is_success status
      then rewrite_anthropic_failure print reason rid body (parse body) m status
      else if \<not> is_success status then rewrite_openai_failure print reason body (parse body) m status
      else case parse body of
             None \<Rightarrow> body
           | Some v \<Rightarrow> print_or print body (rewrite_known_model_fields m format v))"

definition rewrite_sse_line :: "parser \<Rightarrow> printer \<Rightarrow> string \<Rightarrow> string \<Rightarrow> api_format \<Rightarrow> string" where
  "rewrite_sse_line parse print row m format =
     (case strip_prefix ''data:'' row of
        None \<Rightarrow> row
      | Some p \<Rightarrow>
          (let payload = trim_start p
           in if payload = [] \<or> payload = ''[DONE]'' then row
              else case parse payload of
                     None \<Rightarrow> row
                   | Some v \<Rightarrow>
                       (case print (rewrite_known_model_fields m format v) of
                          None \<Rightarrow> row | Some s \<Rightarrow> ''data: '' @ s)))"

definition response_request_id :: "parser \<Rightarrow> bytes \<Rightarrow> string option" where
  "response_request_id parse body = Option.bind (parse body) (\<lambda>v. json_field as_str v ''request_id'')"

section \<open>Envelopes\<close>

text \<open>What the client libraries of the two formats expect of an error body.\<close>

definition openai_envelope :: "json \<Rightarrow> bool" where
  "openai_envelope v \<longleftrightarrow>
     (case json_field as_object v ''error'' of
        None \<Rightarrow> False
      | Some e \<Rightarrow> Option.bind (map_of e ''message'') as_str \<noteq> None \<and> map_of e ''type'' \<noteq> None
          \<and> map_of e ''param'' \<noteq> None \<and> map_of e ''code'' \<noteq> None)"

definition anthropic_envelope :: "json \<Rightarrow> bool" where
  "anthropic_envelope v \<longleftrightarrow> is_anthropic_error v \<and> json_field as_str v ''request_id'' \<noteq> None"

definition envelope_ok :: "api_format \<Rightarrow> json \<Rightarrow> bool" where
  "envelope_ok format v \<longleftrightarrow> (case format of OpenAi \<Rightarrow> openai_envelope v | Anthropic \<Rightarrow> anthropic_envelope v)"

text \<open>A response that carries its envelope, its request id, its format and a failure category.\<close>

definition error_ok :: "(string \<Rightarrow> bool) \<Rightarrow> string \<Rightarrow> api_format \<Rightarrow> response \<Rightarrow> bool" where
  "error_ok header_ok rid format r \<longleftrightarrow> envelope_ok format (rs_body r) \<and> rs_failure r \<noteq> None
     \<and> (header_ok rid \<longrightarrow> hm_get (rs_headers r) (request_id_name format) = Some rid)
     \<and> (hm_get (rs_headers r) ANTHROPIC_FORMAT_HEADER = Some ''anthropic'' \<longleftrightarrow> format = Anthropic)"

lemma openai_value_envelope [simp]: "openai_envelope (openai_error_value message ty param code extra)"
  by (simp add: openai_envelope_def openai_error_value_def json_field_def)

lemma anthropic_value_envelope [simp]: "anthropic_envelope (anthropic_error_value status message rid extra)"
  by (simp add: anthropic_envelope_def is_anthropic_error_def anthropic_error_value_def json_field_def)

lemma header_simps [simp]:
  "rs_body (add_header n v r) = rs_body r" "rs_failure (add_header n v r) = rs_failure r"
  "rs_status (add_header n v r) = rs_status r"
  "hm_get (rs_headers (add_header n v r)) k = (if n = k then Some v else hm_get (rs_headers r) k)"
  "rs_body (try_header ok n v r) = rs_body r" "rs_failure (try_header ok n v r) = rs_failure r"
  "rs_status (try_header ok n v r) = rs_status r"
  "hm_get (rs_headers (try_header ok n v r)) k = (if n = k \<and> ok v then Some v else hm_get (rs_headers r) k)"
  "rs_body (add_format_header f r) = rs_body r" "rs_failure (add_format_header f r) = rs_failure r"
  "rs_status (add_format_header f r) = rs_status r"
  "hm_get (rs_headers (add_format_header f r)) k
     = (if f = Anthropic \<and> k = ANTHROPIC_FORMAT_HEADER then Some ''anthropic'' else hm_get (rs_headers r) k)"
  "rs_body (json_response s b x) = b" "rs_failure (json_response s b x) = Some x" "rs_status (json_response s b x) = s"
  "hm_get (rs_headers (json_response s b x)) k = (if k = ''content-type'' then Some ''application/json'' else None)"
  by (auto simp: add_header_def try_header_def add_format_header_def json_response_def is_anthropic_def)

lemma ensure_simps [simp]:
  "rs_body (ensure_request_id_header ok rid f r) = rs_body r"
  "rs_failure (ensure_request_id_header ok rid f r) = rs_failure r"
  "rs_status (ensure_request_id_header ok rid f r) = rs_status r"
  "k \<noteq> request_id_name f \<Longrightarrow> hm_get (rs_headers (ensure_request_id_header ok rid f r)) k = hm_get (rs_headers r) k"
  "hm_get (rs_headers r) (request_id_name f) = Some x \<Longrightarrow>
     hm_get (rs_headers (ensure_request_id_header ok rid f r)) (request_id_name f) = Some x"
  by (auto simp: ensure_request_id_header_def)

lemma header_names [simp]:
  "request_id_name f \<noteq> ANTHROPIC_FORMAT_HEADER" "ANTHROPIC_FORMAT_HEADER \<noteq> request_id_name f"
  "request_id_name f \<noteq> ''content-type''" "ANTHROPIC_FORMAT_HEADER \<noteq> ''content-type''"
  "''retry-after'' \<noteq> request_id_name f" "''retry-after'' \<noteq> ANTHROPIC_FORMAT_HEADER"
  "''x-llama-server-manager-checkpoint-phase'' \<noteq> request_id_name f"
  "''x-llama-server-manager-checkpoint-phase'' \<noteq> ANTHROPIC_FORMAT_HEADER"
  "''x-llama-server-manager-requested-output-tokens'' \<noteq> request_id_name f"
  "''x-llama-server-manager-requested-output-tokens'' \<noteq> ANTHROPIC_FORMAT_HEADER"
  "''x-llama-server-manager-context-window'' \<noteq> request_id_name f"
  "''x-llama-server-manager-context-window'' \<noteq> ANTHROPIC_FORMAT_HEADER"
  "''x-llama-server-manager-input-tokens'' \<noteq> request_id_name f"
  "''x-llama-server-manager-input-tokens'' \<noteq> ANTHROPIC_FORMAT_HEADER"
  by (simp_all add: request_id_name_def ANTHROPIC_FORMAT_HEADER_def)

lemma error_response_ok: "error_ok ok rid f (error_response ok rid f status message)"
  by (cases f) (simp_all add: error_ok_def error_response_def envelope_ok_def)

lemma coded_error_response_ok: "error_ok ok rid f (coded_error_response ok rid rid2 f status stage code message param)"
  by (cases f) (simp_all add: error_ok_def coded_error_response_def envelope_ok_def is_anthropic_def)

lemma checkpoint_response_ok: "error_ok ok rid f (checkpoint_unavailable_response ok rid f phase)"
  by (cases f) (simp_all add: error_ok_def checkpoint_unavailable_response_def envelope_ok_def Let_def)

lemma context_response_ok: "error_ok ok rid f (context_limit_error_response ok rid f param inp out window)"
  by (cases f; cases inp) (simp_all add: error_ok_def context_limit_error_response_def envelope_ok_def Let_def)

section \<open>Rewritten bodies\<close>

lemma set_model_get [simp]:
  "hm_get (set_model m kvs) k = (if k = ''model'' \<and> hm_get kvs k \<noteq> None then Some (JString m) else hm_get kvs k)"
  by (auto simp: set_model_def)

lemma nested_key_simps [simp]: "nested_key f \<noteq> ''model''" "''model'' \<noteq> nested_key f"
  by (simp_all add: nested_key_def)

text \<open>The field the rewriting writes to; every other one is untouched.\<close>

lemma rewrite_get:
  "json_get (rewrite_known_model_fields m f v) k =
     (case json_get v k of
        None \<Rightarrow> None
      | Some x \<Rightarrow> Some (if k = ''model'' then JString m
                       else if k = nested_key f then (case x of JObject inner \<Rightarrow> JObject (set_model m inner) | _ \<Rightarrow> x)
                       else x))"
  by (cases v) (auto simp: Let_def set_model_def split: option.splits json.splits)

lemma rewrite_get_other:
  "k \<noteq> ''model'' \<Longrightarrow> k \<noteq> nested_key f \<Longrightarrow> json_get (rewrite_known_model_fields m f v) k = json_get v k"
  by (simp add: rewrite_get split: option.split)

lemma rewrite_object: "as_object (rewrite_known_model_fields m f v) = None \<longleftrightarrow> as_object v = None"
  by (cases v) (auto simp: Let_def split: option.splits json.splits)

lemma set_model_fixed: "hm_get kvs ''model'' = None \<or> hm_get kvs ''model'' = Some (JString m) \<Longrightarrow> set_model m kvs = kvs"
  by (auto simp: set_model_def hm_insert_same)

lemma rewrite_fixed:
  assumes "json_get v ''model'' = None \<or> json_get v ''model'' = Some (JString m)"
    and "\<And>inner. json_get v (nested_key f) = Some (JObject inner) \<Longrightarrow> set_model m inner = inner"
  shows "rewrite_known_model_fields m f v = v"
proof (cases v)
  case (JObject kvs)
  have s: "set_model m kvs = kvs" using assms(1) JObject by (intro set_model_fixed) simp
  show ?thesis using assms(2) JObject by (auto simp: Let_def s hm_insert_same split: option.split json.split)
qed simp_all

lemma set_model_idem [simp]: "set_model m (set_model m kvs) = set_model m kvs"
  by (rule set_model_fixed) auto

lemma rewrite_idem:
  "rewrite_known_model_fields m f (rewrite_known_model_fields m f v) = rewrite_known_model_fields m f v"
  by (rule rewrite_fixed) (auto simp: rewrite_get split: option.splits json.splits)

interpretation rewrite: idempotent_norm "rewrite_known_model_fields m f" for m f
  by unfold_locales (rule rewrite_idem)

lemma rewrite_keeps_anthropic: "is_anthropic_error (rewrite_known_model_fields m Anthropic v) = is_anthropic_error v"
  by (simp add: is_anthropic_error_def json_field_def rewrite_get_other nested_key_def is_anthropic_def)

lemma anthropic_error_object: "is_anthropic_error v \<Longrightarrow> \<exists>kvs. v = JObject kvs"
  by (cases v) (simp_all add: is_anthropic_error_def json_field_def)

lemma anthropic_failure_envelope:
  "\<exists>w. rewrite_anthropic_failure print reason rid body parsed m status = print_or print body w \<and> anthropic_envelope w"
proof (cases "case parsed of Some v \<Rightarrow> if is_anthropic_error v then Some v else None | None \<Rightarrow> None")
  case None
  then show ?thesis by (auto simp: rewrite_anthropic_failure_def intro!: exI)
next
  case (Some v)
  then have v: "is_anthropic_error v" by (auto split: option.splits if_splits)
  define w where "w = rewrite_known_model_fields m Anthropic v"
  have w: "is_anthropic_error w" using v by (simp add: w_def rewrite_keeps_anthropic)
  then obtain kvs where k: "w = JObject kvs" using anthropic_error_object by blast
  let ?w = "if json_field as_str w ''request_id'' = None then json_set w ''request_id'' (JString rid) else w"
  have "anthropic_envelope ?w"
    using w k by (auto simp: anthropic_envelope_def is_anthropic_error_def json_field_def)
  then show ?thesis using Some by (auto simp: rewrite_anthropic_failure_def w_def Let_def)
qed

lemma or_insert_get [simp]:
  "hm_get (or_insert k v kvs) k' = (if k = k' \<and> hm_get kvs k = None then Some v else hm_get kvs k')"
  by (auto simp: or_insert_def)

lemma complete_openai_envelope: "has_message (complete_openai_error status v) \<Longrightarrow> openai_envelope (complete_openai_error status v)"
proof (cases v)
  case (JObject kvs)
  assume h: "has_message (complete_openai_error status v)"
  show ?thesis
  proof (cases "json_field as_object v ''error''")
    case None
    then show ?thesis using h by (simp add: has_message_def complete_openai_error_def)
  next
    case (Some e)
    then show ?thesis
      using h JObject by (auto simp: has_message_def complete_openai_error_def openai_envelope_def json_field_def split: if_splits)
  qed
qed (simp_all add: has_message_def complete_openai_error_def json_field_def)

lemma rewrite_keeps_openai: "openai_envelope (rewrite_known_model_fields m OpenAi v) = openai_envelope v"
  by (simp add: openai_envelope_def json_field_def rewrite_get_other nested_key_def is_anthropic_def)

lemma openai_failure_envelope:
  "\<exists>w. rewrite_openai_failure print reason body parsed m status = print_or print body w \<and> openai_envelope w"
proof (cases parsed)
  case None
  then show ?thesis by (auto simp: rewrite_openai_failure_def intro!: exI)
next
  case (Some v)
  show ?thesis
  proof (cases "has_message (complete_openai_error status v)")
    case True
    then have "openai_envelope (rewrite_known_model_fields m OpenAi (complete_openai_error status v))"
      by (simp add: rewrite_keeps_openai complete_openai_envelope)
    then show ?thesis using True Some by (auto simp: rewrite_openai_failure_def Let_def)
  next
    case False
    then show ?thesis using Some by (auto simp: rewrite_openai_failure_def Let_def intro!: exI)
  qed
qed

text \<open>
  The local error responses carry the envelope of the client's API format, the request identifier,
  the format marker and a diagnostic category, and \<open>rewrite_json_response\<close> replaces or completes
  the body of a failed upstream answer to such an envelope.  Which answers are rewritten at all is
  stated by \<open>Proxy_Upstream.failures_enveloped\<close>.
\<close>

theorem error_envelopes:
  assumes "\<not> is_success status"
  shows "list_all (error_ok header_ok rid format)
      [error_response header_ok rid format s message,
       coded_error_response header_ok rid rid2 format s stage code message param,
       quota_error_response header_ok rid rid2 format s code message param,
       checkpoint_unavailable_response header_ok rid format phase,
       context_limit_error_response header_ok rid format p inp out window]
    \<and> (\<exists>w. rewrite_json_response parse print reason rid body m format status = print_or print body w
           \<and> envelope_ok format w)"
  using assms anthropic_failure_envelope openai_failure_envelope
  by (cases format) (simp_all add: error_response_ok coded_error_response_ok checkpoint_response_ok context_response_ok
      quota_error_response_def rewrite_json_response_def is_anthropic_def envelope_ok_def)

theorem error_envelopes_witness:
  "\<exists>w. rewrite_json_response (\<lambda>_. None) (\<lambda>_. Some ''json'') (\<lambda>_. None) ''req_1'' ''failed'' ''public'' Anthropic 502
        = print_or (\<lambda>_. Some ''json'') ''failed'' w \<and> envelope_ok Anthropic w"
  using error_envelopes [of 502 "\<lambda>_. True" "''req_1''" Anthropic 502 "[]" "[]" "[]" "[]" None "[]" "[]" None 0 0
      "\<lambda>_. None" "\<lambda>_. Some ''json''" "\<lambda>_. None" "''failed''" "''public''"] by (simp add: is_success_def)

text \<open>
  The internal model name never leaves through a rewritten body: the model field and the model of
  the nested message or response are the public name, every other field of the body is
  unchanged, and rewriting is stable.
\<close>

theorem rewrite_model_fields:
  "json_get (rewrite_known_model_fields m format v) ''model'' = map_option (\<lambda>_. JString m) (json_get v ''model'')
   \<and> json_pointer2 (rewrite_known_model_fields m format v) (nested_key format) ''model''
       = map_option (\<lambda>_. JString m) (json_pointer2 v (nested_key format) ''model'')
   \<and> (\<forall>k. k = ''model'' \<or> k = nested_key format
        \<or> json_get (rewrite_known_model_fields m format v) k = json_get v k)
   \<and> rewrite_known_model_fields m format (rewrite_known_model_fields m format v) = rewrite_known_model_fields m format v"
proof (intro conjI allI)
  show "json_get (rewrite_known_model_fields m format v) ''model'' = map_option (\<lambda>_. JString m) (json_get v ''model'')"
    by (simp add: rewrite_get split: option.split)
  show "json_pointer2 (rewrite_known_model_fields m format v) (nested_key format) ''model''
       = map_option (\<lambda>_. JString m) (json_pointer2 v (nested_key format) ''model'')"
    by (auto simp: json_pointer2_def rewrite_get split: option.split json.split)
  show "k = ''model'' \<or> k = nested_key format
        \<or> json_get (rewrite_known_model_fields m format v) k = json_get v k" for k
    using rewrite_get_other by blast
  show "rewrite_known_model_fields m format (rewrite_known_model_fields m format v) = rewrite_known_model_fields m format v"
    by (rule rewrite.norm_idem)
qed

end
