(* ===== verification/Proxy_Routing.thy ===== *)
theory Proxy_Routing
  imports Proxy_Config Router_Runtime Proxy_Protocol "HOL-Library.Product_Lexorder"
begin

text \<open>
  How a request finds its targets (\<open>src-tauri/src/commands/proxy.rs\<close>, \<open>proxy_errors.rs\<close>): the
  workload of an endpoint, the candidates of a model name with their order and limits, the
  failure that is reported when there are none, the public name of a response and the models
  that discovery lists.  \<open>read_file\<close> stands for \<open>std::fs::read_to_string\<close> of the key file that
  \<open>effective_api_key\<close> of \<open>server.rs\<close> reads; it is the only file the resolution touches.
\<close>

section \<open>Workloads\<close>

record vector_request_metadata =
  vm_workload :: model_workload
  vm_endpoint :: string
  vm_item_count :: nat

definition classify_vector_endpoint :: "string \<Rightarrow> model_workload option" where
  "classify_vector_endpoint path =
     (if path \<in> set [''/embedding'', ''/embeddings'', ''/v1/embeddings''] then Some Embedding
      else if path \<in> set [''/rerank'', ''/reranking'', ''/v1/rerank'', ''/v1/reranking''] then Some Reranker
      else None)"

definition embedding_item_count :: "json \<Rightarrow> nat" where
  "embedding_item_count v =
     (case v of
        JString _ \<Rightarrow> 1
      | JArray items \<Rightarrow> if items = [] then 0 else if list_all is_number items then 1 else length items
      | _ \<Rightarrow> 0)"

definition vector_request_metadata_of :: "parser \<Rightarrow> string \<Rightarrow> bytes \<Rightarrow> vector_request_metadata option" where
  "vector_request_metadata_of parse path body =
     map_option (\<lambda>workload.
       \<lparr> vm_workload = workload, vm_endpoint = path,
         vm_item_count =
           (case workload of
              Embedding \<Rightarrow> (case Option.bind (parse body) (\<lambda>v. json_get_or v ''input'' ''content'') of
                              Some x \<Rightarrow> embedding_item_count x | None \<Rightarrow> 0)
            | Reranker \<Rightarrow> (case Option.bind (parse body) (\<lambda>v. json_field as_array v ''documents'') of
                             Some ds \<Rightarrow> length ds | None \<Rightarrow> 0)
            | Inference \<Rightarrow> 0) \<rparr>)
       (classify_vector_endpoint path)"

definition vector_endpoint_matches_target :: "model_workload option \<Rightarrow> model_workload \<Rightarrow> bool" where
  "vector_endpoint_matches_target endpoint target =
     (case endpoint of Some w \<Rightarrow> w = target | None \<Rightarrow> True)"

definition instance_workload :: "instance_config \<Rightarrow> model_workload" where
  "instance_workload config =
     (if ic_reranking config then Reranker else if ic_embedding config then Embedding else Inference)"

definition stored_instance_workload :: "instance_config \<Rightarrow> string \<Rightarrow> model_workload" where
  "stored_instance_workload config stored =
     (if trim stored = [] then instance_workload config else workload_from_storage stored)"

definition stored_target_matches_endpoint :: "instance_config \<Rightarrow> string \<Rightarrow> model_workload option \<Rightarrow> bool" where
  "stored_target_matches_endpoint config stored endpoint =
     vector_endpoint_matches_target endpoint (stored_instance_workload config stored)"

section \<open>The key and scheme of an instance\<close>

definition strip_cr :: "string \<Rightarrow> string" where
  "strip_cr s = (case strip_suffix [byte 13] s of Some t \<Rightarrow> t | None \<Rightarrow> s)"

text \<open>\<open>str::lines\<close>: a carriage return is dropped only before a line feed, and a final line feed
  opens no further line.\<close>

definition str_lines :: "string \<Rightarrow> string list" where
  "str_lines s =
     (let pieces = split_on (byte 10) s
      in map strip_cr (butlast pieces) @ (if last pieces = [] then [] else [last pieces]))"

definition byte_order_mark :: string where
  "byte_order_mark = map byte [239, 187, 191]"

definition key_of_line :: "string \<Rightarrow> string option" where
  "key_of_line s =
     (let key = strip_leading [byte_order_mark] (trim s)
      in if key = [] \<or> starts_with ''#'' key then None else Some key)"

definition effective_api_key :: "(string \<Rightarrow> string option) \<Rightarrow> instance_config \<Rightarrow> string" where
  "effective_api_key read_file config =
     (let inline = trim (ic_api_key config)
      in if inline \<noteq> [] then
           (case find (\<lambda>k. k \<noteq> []) (map trim (split_on (CHR '','') inline)) of Some k \<Rightarrow> k | None \<Rightarrow> [])
         else if trim (ic_api_key_file config) = [] then []
         else (case read_file (trim (ic_api_key_file config)) of
                 None \<Rightarrow> []
               | Some content \<Rightarrow>
                   (case find (\<lambda>k. k \<noteq> None) (map key_of_line (str_lines content)) of
                      Some (Some k) \<Rightarrow> k | _ \<Rightarrow> [])))"

definition effective_server_scheme :: "instance_config \<Rightarrow> string" where
  "effective_server_scheme config =
     (if trim (ic_ssl_key_file config) \<noteq> [] \<and> trim (ic_ssl_cert_file config) \<noteq> [] then ''https'' else ''http'')"

section \<open>Targets\<close>

record resolved_target =
  rv_public :: proxy_target
  rv_engine_kind :: engine_kind
  rv_upstream_model_id :: string
  rv_api_key :: string
  rv_api_prefix :: string
  rv_scheme :: string
  rv_configured_context_length :: "nat option"
  rv_telemetry_session_id :: "string option"
  rv_workload :: model_workload
  rv_route_priority :: int
  rv_route_weight :: nat
  rv_route_max_concurrent_requests :: nat

abbreviation rv_id :: "resolved_target \<Rightarrow> string" where
  "rv_id t \<equiv> pt_instance_id (rv_public t)"

type_synonym instances = "(string, instance_config) hmap"
type_synonym running = "(string, running_instance) hmap"

definition route_is_configured :: "proxy_route \<Rightarrow> bool" where
  "route_is_configured r \<longleftrightarrow> rt_enabled r \<and> trim (rt_model_alias r) \<noteq> [] \<and> trim (rt_target_instance_id r) \<noteq> []"

definition preferred_public_route :: "proxy_config \<Rightarrow> string \<Rightarrow> proxy_route option" where
  "preferred_public_route config target =
     first_min (\<lambda>r. of_int (rt_priority r))
       (filter (\<lambda>r. route_is_configured r \<and> trim (rt_target_instance_id r) = trim target) (pc_routes config))"

definition normalize_host :: "string \<Rightarrow> string" where
  "normalize_host host = (if host = ''0.0.0.0'' then ''127.0.0.1'' else host)"

definition proxy_target_from_instance :: "string \<Rightarrow> instance_config \<Rightarrow> bool \<Rightarrow> proxy_target" where
  "proxy_target_from_instance i config run =
     \<lparr> pt_instance_id = i, pt_name = ic_name config, pt_alias = public_model_id config,
       pt_host = normalize_host (ic_host config), pt_port = ic_port config, pt_running = run \<rparr>"

text \<open>The configuration an instance was launched with, or else the stored one.\<close>

definition current_config :: "running_instance option \<Rightarrow> instance_config \<Rightarrow> instance_config" where
  "current_config info stored =
     (case Option.bind info ri_launch_config of Some c \<Rightarrow> c | None \<Rightarrow> stored)"

definition list_proxy_targets_from :: "instances \<Rightarrow> running \<Rightarrow> proxy_target list" where
  "list_proxy_targets_from instances running =
     map (\<lambda>(i, stored). proxy_target_from_instance i (current_config (hm_get running i) stored) (hm_get running i \<noteq> None))
       instances"

definition resolved_target_for_id ::
  "(string \<Rightarrow> string option) \<Rightarrow> instances \<Rightarrow> running \<Rightarrow> string \<Rightarrow> model_workload option \<Rightarrow> int \<Rightarrow> nat \<Rightarrow> nat
    \<Rightarrow> resolved_target option" where
  "resolved_target_for_id read_file instances running i endpoint priority weight limit =
     (case (hm_get instances i, hm_get running i) of
        (Some stored, Some info) \<Rightarrow>
          (let config = current_config (Some info) stored
           in if \<not> stored_target_matches_endpoint config (ri_workload info) endpoint then None
              else Some \<lparr>
                rv_public = \<lparr> pt_instance_id = i, pt_name = ic_name config, pt_alias = public_model_id config,
                  pt_host = normalize_host (ri_host info), pt_port = ri_port info, pt_running = True \<rparr>,
                rv_engine_kind = ic_engine_kind config,
                rv_upstream_model_id =
                  (if trim (ic_alias config) = [] then trim (ic_model_path config) else trim (ic_alias config)),
                rv_api_key = effective_api_key read_file config,
                rv_api_prefix = ic_api_prefix config,
                rv_scheme = effective_server_scheme config,
                rv_configured_context_length =
                  (if \<not> ic_ctx_size_auto config \<and> 0 < ic_ctx_size config then Some (ic_ctx_size config) else None),
                rv_telemetry_session_id = ri_telemetry_session_id info,
                rv_workload = stored_instance_workload config (ri_workload info),
                rv_route_priority = priority,
                rv_route_weight = max weight 1,
                rv_route_max_concurrent_requests = limit \<rparr>)
      | _ \<Rightarrow> None)"

section \<open>Candidates of a request\<close>

definition selector :: "string option \<Rightarrow> string option" where
  "selector requested =
     (case requested of None \<Rightarrow> None | Some m \<Rightarrow> if trim m = [] then None else Some (trim m))"

definition routed_ids :: "proxy_config \<Rightarrow> string list" where
  "routed_ids config = map (\<lambda>r. trim (rt_target_instance_id r)) (filter route_is_configured (pc_routes config))"

definition has_explicit_routes :: "proxy_config \<Rightarrow> bool" where
  "has_explicit_routes config = list_ex route_is_configured (pc_routes config)"

definition matching_routes :: "proxy_config \<Rightarrow> string \<Rightarrow> (nat \<times> proxy_route) list" where
  "matching_routes config model =
     filter (\<lambda>(_, r). route_is_configured r \<and> trim (rt_model_alias r) = model) (enumerate 0 (pc_routes config))"

definition route_candidates ::
  "(string \<Rightarrow> string option) \<Rightarrow> instances \<Rightarrow> running \<Rightarrow> model_workload option \<Rightarrow> (nat \<times> proxy_route) list
    \<Rightarrow> resolved_target list" where
  "route_candidates read_file instances running endpoint routes =
     map (\<lambda>(_, _, t). t)
       (sort_key (\<lambda>(priority, index, _). (priority, index))
         (List.map_filter (\<lambda>(index, r).
            map_option (\<lambda>t. (rt_priority r, index, t))
              (resolved_target_for_id read_file instances running (trim (rt_target_instance_id r)) endpoint
                 (rt_priority r) (rt_weight r) (rt_max_concurrent_requests r))) routes))"

text \<open>Whether an instance answers to a name without a route; legacy names only when not strict.\<close>

definition names_instance :: "proxy_config \<Rightarrow> running \<Rightarrow> string \<Rightarrow> string \<times> instance_config \<Rightarrow> bool" where
  "names_instance config running model e =
     (case e of (i, stored) \<Rightarrow>
       (let c = current_config (hm_get running i) stored
        in public_model_id c = model \<or> (\<not> pc_strict_model_routing config \<and> (trim (ic_name c) = model \<or> i = model))))"

definition implicit_target ::
  "(string \<Rightarrow> string option) \<Rightarrow> instances \<Rightarrow> running \<Rightarrow> model_workload option \<Rightarrow> string \<Rightarrow> resolved_target option" where
  "implicit_target read_file instances running endpoint i =
     resolved_target_for_id read_file instances running i endpoint 0 1 0"

definition default_target ::
  "(string \<Rightarrow> string option) \<Rightarrow> proxy_config \<Rightarrow> instances \<Rightarrow> running \<Rightarrow> model_workload option \<Rightarrow> resolved_target option" where
  "default_target read_file config instances running endpoint =
     (let i = trim (pc_default_instance_id config)
      in if i = [] then None else implicit_target read_file instances running endpoint i)"

definition resolve_proxy_candidates_unbounded ::
  "(string \<Rightarrow> string option) \<Rightarrow> proxy_config \<Rightarrow> instances \<Rightarrow> running \<Rightarrow> string option \<Rightarrow> model_workload option
    \<Rightarrow> resolved_target list" where
  "resolve_proxy_candidates_unbounded read_file config instances running requested endpoint =
     (case selector requested of
        Some model \<Rightarrow>
          (if matching_routes config model \<noteq> [] then
             route_candidates read_file instances running endpoint (matching_routes config model)
           else if pc_strict_model_routing config \<and> has_explicit_routes config then []
           else
             (let candidates = List.map_filter (\<lambda>i.
                    case hm_get instances i of
                      None \<Rightarrow> None
                    | Some stored \<Rightarrow>
                        if names_instance config running model (i, stored) \<and> i \<notin> set (routed_ids config)
                        then implicit_target read_file instances running endpoint i else None)
                    (sort (hm_keys instances))
              in if candidates = [] \<and> \<not> pc_strict_model_routing config
                 then (case default_target read_file config instances running endpoint of
                         Some t \<Rightarrow> [t] | None \<Rightarrow> [])
                 else candidates))
      | None \<Rightarrow>
          (case default_target read_file config instances running endpoint of
             Some t \<Rightarrow> [t]
           | None \<Rightarrow>
               (let candidates = List.map_filter (implicit_target read_file instances running endpoint)
                      (filter (\<lambda>i. i \<notin> set (routed_ids config)) (sort (hm_keys running)))
                in if pc_strict_model_routing config \<and> length candidates \<noteq> 1 then [] else candidates)))"

definition instance_limits :: "proxy_config \<Rightarrow> string \<Rightarrow> nat list" where
  "instance_limits config i =
     map rt_max_concurrent_requests
       (filter (\<lambda>r. route_is_configured r \<and> trim (rt_target_instance_id r) = i \<and> 0 < rt_max_concurrent_requests r)
         (pc_routes config))"

definition min_or_zero :: "nat list \<Rightarrow> nat" where
  "min_or_zero xs = (if xs = [] then 0 else Min (set xs))"

definition resolve_proxy_candidates_from ::
  "(string \<Rightarrow> string option) \<Rightarrow> proxy_config \<Rightarrow> instances \<Rightarrow> running \<Rightarrow> string option \<Rightarrow> model_workload option
    \<Rightarrow> resolved_target list" where
  "resolve_proxy_candidates_from read_file config instances running requested endpoint =
     map (\<lambda>t. t\<lparr> rv_route_max_concurrent_requests := min_or_zero (instance_limits config (rv_id t)) \<rparr>)
       (resolve_proxy_candidates_unbounded read_file config instances running requested endpoint)"

definition resolve_proxy_target_from ::
  "(string \<Rightarrow> string option) \<Rightarrow> proxy_config \<Rightarrow> instances \<Rightarrow> running \<Rightarrow> string option \<Rightarrow> model_workload option
    \<Rightarrow> resolved_target option" where
  "resolve_proxy_target_from read_file config instances running requested endpoint =
     (case resolve_proxy_candidates_from read_file config instances running requested endpoint of
        [] \<Rightarrow> None | t # _ \<Rightarrow> Some t)"

record proxy_snapshot =
  sn_config :: proxy_config
  sn_instances :: instances
  sn_running :: running
  sn_bound_addr :: string
  sn_last_error :: "string option"

definition all_resolved_targets :: "(string \<Rightarrow> string option) \<Rightarrow> proxy_snapshot \<Rightarrow> resolved_target list" where
  "all_resolved_targets read_file snapshot =
     List.map_filter (\<lambda>i. resolved_target_for_id read_file (sn_instances snapshot) (sn_running snapshot) i None 0 1 0)
       (sort (hm_keys (sn_running snapshot)))"

section \<open>Failures\<close>

datatype routing_failure = ModelRequired | ModelNotFound | EndpointMismatch | RouteUnavailable | RouteCapacity

fun failure_status :: "routing_failure \<Rightarrow> nat" where
  "failure_status ModelRequired = 400"
| "failure_status ModelNotFound = 404"
| "failure_status EndpointMismatch = 400"
| "failure_status RouteUnavailable = 503"
| "failure_status RouteCapacity = 503"

fun failure_code :: "routing_failure \<Rightarrow> string" where
  "failure_code ModelRequired = ''model_required''"
| "failure_code ModelNotFound = ''model_not_found''"
| "failure_code EndpointMismatch = ''model_endpoint_mismatch''"
| "failure_code RouteUnavailable = ''route_unavailable''"
| "failure_code RouteCapacity = ''route_capacity''"

fun failure_text :: "routing_failure \<Rightarrow> string" where
  "failure_text ModelRequired = ''model is required when no default or unambiguous implicit target is available''"
| "failure_text ModelNotFound = ''no public route matches the requested model''"
| "failure_text EndpointMismatch = ''the requested model does not support this endpoint workload''"
| "failure_text RouteUnavailable = ''matching routes are stopped, loading or unhealthy''"
| "failure_text RouteCapacity = ''all ready matching routes are at capacity; retry with bounded backoff''"

definition failure_param :: "routing_failure \<Rightarrow> string option" where
  "failure_param f = (if f \<in> {ModelRequired, ModelNotFound, EndpointMismatch} then Some ''model'' else None)"

definition failure_response :: "(string \<Rightarrow> bool) \<Rightarrow> string \<Rightarrow> string \<Rightarrow> routing_failure \<Rightarrow> api_format \<Rightarrow> response" where
  "failure_response header_ok rid rid2 f format =
     (let r = coded_error_response header_ok rid rid2 format (failure_status f) ''routing'' (failure_code f)
                (failure_text f) (failure_param f)
      in if f = RouteCapacity \<or> f = RouteUnavailable then add_header ''retry-after'' ''1'' r else r)"

definition unresolved_model_failure ::
  "(string \<Rightarrow> string option) \<Rightarrow> proxy_config \<Rightarrow> instances \<Rightarrow> running \<Rightarrow> string option \<Rightarrow> model_workload option
    \<Rightarrow> routing_failure" where
  "unresolved_model_failure read_file config instances running requested workload =
     (if workload \<noteq> None \<and> resolve_proxy_candidates_from read_file config instances running requested None \<noteq> []
      then EndpointMismatch
      else (case selector requested of
        None \<Rightarrow> if trim (pc_default_instance_id config) = [] then ModelRequired else RouteUnavailable
      | Some model \<Rightarrow>
          (let routes = filter route_is_configured (pc_routes config)
           in if list_ex (\<lambda>r. trim (rt_model_alias r) = model) routes then RouteUnavailable
              else if pc_strict_model_routing config \<and> routes \<noteq> [] then ModelNotFound
              else if list_ex (\<lambda>e. \<not> list_ex (\<lambda>r. trim (rt_target_instance_id r) = fst e) routes
                                 \<and> names_instance config running model e) instances
                      \<or> (\<not> pc_strict_model_routing config \<and> trim (pc_default_instance_id config) \<noteq> [])
                   then RouteUnavailable
              else ModelNotFound)))"

datatype checkpoint_phase =
  CP_Disabled | CP_Ineligible | CP_Starting | CP_EngineHealthy | CP_Restoring | CP_RestartRequired
| CP_Ready | CP_ReadyCold | CP_Draining | CP_Saving | CP_Stopping | CP_Stopped

fun phase_as_str :: "checkpoint_phase \<Rightarrow> string" where
  "phase_as_str CP_Disabled = ''disabled''"
| "phase_as_str CP_Ineligible = ''ineligible''"
| "phase_as_str CP_Starting = ''starting''"
| "phase_as_str CP_EngineHealthy = ''engine_healthy''"
| "phase_as_str CP_Restoring = ''restoring''"
| "phase_as_str CP_RestartRequired = ''restart_required''"
| "phase_as_str CP_Ready = ''ready''"
| "phase_as_str CP_ReadyCold = ''ready_cold''"
| "phase_as_str CP_Draining = ''draining''"
| "phase_as_str CP_Saving = ''saving''"
| "phase_as_str CP_Stopping = ''stopping''"
| "phase_as_str CP_Stopped = ''stopped''"

record request_resolution =
  rq_config :: proxy_config
  rq_candidates :: "resolved_target list"
  rq_checkpoint_phase :: "checkpoint_phase option"
  rq_empty_failure :: routing_failure

definition proxy_request_resolution_from ::
  "(string \<Rightarrow> string option) \<Rightarrow> proxy_config \<Rightarrow> instances \<Rightarrow> running \<Rightarrow> string option \<Rightarrow> model_workload option
    \<Rightarrow> request_resolution" where
  "proxy_request_resolution_from read_file config instances running requested endpoint =
     (let candidates = resolve_proxy_candidates_from read_file config instances running requested endpoint
      in \<lparr> rq_config = config, rq_candidates = candidates, rq_checkpoint_phase = None,
           rq_empty_failure = (if candidates = []
             then unresolved_model_failure read_file config instances running requested endpoint
             else RouteUnavailable) \<rparr>)"

text \<open>The gate says of an instance whether it may be routed to, and its checkpoint phase.\<close>

definition apply_checkpoint_gate ::
  "(string \<Rightarrow> bool \<times> checkpoint_phase option) \<Rightarrow> request_resolution \<Rightarrow> request_resolution" where
  "apply_checkpoint_gate gate r =
     r\<lparr> rq_candidates := filter (\<lambda>t. fst (gate (rv_id t))) (rq_candidates r),
        rq_checkpoint_phase :=
          fold (\<lambda>t phase. if \<not> fst (gate (rv_id t)) \<and> phase = None then snd (gate (rv_id t)) else phase)
            (rq_candidates r) None \<rparr>"

section \<open>Public names\<close>

definition public_response_model :: "proxy_config \<Rightarrow> proxy_target \<Rightarrow> string option \<Rightarrow> string" where
  "public_response_model config target requested =
     (let preferred = map_option (\<lambda>r. trim (rt_model_alias r)) (preferred_public_route config (pt_instance_id target));
          fallback = (case preferred of
                        Some a \<Rightarrow> a
                      | None \<Rightarrow> if trim (pt_alias target) = [] then ''model'' else trim (pt_alias target))
      in case selector requested of
           None \<Rightarrow> fallback
         | Some req \<Rightarrow>
             if list_ex (\<lambda>r. rt_enabled r \<and> trim (rt_target_instance_id r) = trim (pt_instance_id target)
                             \<and> trim (rt_model_alias r) = req) (pc_routes config) then req
             else if preferred \<noteq> None then the preferred
             else if req = trim (pt_alias target) then req
             else if req = trim (pt_name target) \<and> \<not> list_ex is_separator req then req
             else fallback)"

definition listed_proxy_model_ids :: "proxy_config \<Rightarrow> proxy_target list \<Rightarrow> string list" where
  "listed_proxy_model_ids config targets =
     (let running_ids = map pt_instance_id (filter pt_running targets);
          routed = map (\<lambda>r. trim (rt_model_alias r))
            (filter (\<lambda>r. rt_enabled r \<and> trim (rt_model_alias r) \<noteq> []
                         \<and> trim (rt_target_instance_id r) \<in> set running_ids) (pc_routes config));
          unrouted = map (\<lambda>t. trim (pt_alias t))
            (filter (\<lambda>t. pt_running t \<and> trim (pt_alias t) \<noteq> [] \<and> pt_instance_id t \<notin> set (routed_ids config)) targets)
      in remdups_adj (sort (routed @ unrouted)))"

section \<open>Selection\<close>

definition routing_candidate_of :: "resolved_target \<Rightarrow> routing_candidate" where
  "routing_candidate_of t =
     \<lparr> rc_instance_id = rv_id t, rc_priority = rv_route_priority t, rc_weight = rv_route_weight t,
       rc_max_concurrent_requests = rv_route_max_concurrent_requests t \<rparr>"

definition routing_group_key :: "string option \<Rightarrow> model_workload option \<Rightarrow> string" where
  "routing_group_key requested endpoint =
     workload_as_str (case endpoint of None \<Rightarrow> Inference | Some w \<Rightarrow> w) @ '':''
     @ (case requested of None \<Rightarrow> ''__default__'' | Some m \<Rightarrow> m)"

definition select_resolved_target ::
  "(string \<Rightarrow> string option) \<Rightarrow> nat \<Rightarrow> proxy_snapshot \<Rightarrow> string option \<Rightarrow> model_workload option \<Rightarrow> rr
    \<Rightarrow> rr \<times> (proxy_config \<times> resolved_target) option" where
  "select_resolved_target read_file now snapshot requested endpoint r =
     (let candidates = resolve_proxy_candidates_from read_file (sn_config snapshot) (sn_instances snapshot)
            (sn_running snapshot) requested endpoint
      in case select_target now (map routing_candidate_of candidates) (pc_routing_strategy (sn_config snapshot))
                (routing_group_key requested endpoint) r of
           (r', None) \<Rightarrow> (r', None)
         | (r', Some c) \<Rightarrow>
             (r', map_option (\<lambda>t. (sn_config snapshot, t)) (find (\<lambda>t. rv_id t = rc_instance_id c) candidates)))"

section \<open>Resolution of one instance\<close>

lemma map_filter_Some: "y \<in> set (List.map_filter f xs) \<longleftrightarrow> (\<exists>x \<in> set xs. f x = Some y)"
  by (induction xs) (auto simp: List.map_filter_def split: option.splits)

lemma map_filter_Nil_iff: "List.map_filter f xs = [] \<longleftrightarrow> (\<forall>x \<in> set xs. f x = None)"
  by (induction xs) (auto simp: List.map_filter_def split: option.splits)

lemma resolved_Some:
  assumes "resolved_target_for_id rf inst run i ep p w l = Some t"
  obtains stored info where "hm_get inst i = Some stored" "hm_get run i = Some info"
    "rv_id t = i" "pt_running (rv_public t)" "vector_endpoint_matches_target ep (rv_workload t)"
    "pt_alias (rv_public t) = public_model_id (current_config (Some info) stored)"
    "rv_route_priority t = p" "rv_route_weight t = max w 1" "rv_route_max_concurrent_requests t = l"
  using assms that
  by (auto simp: resolved_target_for_id_def Let_def stored_target_matches_endpoint_def split: option.splits if_splits)

lemma resolved_ex_iff:
  "resolved_target_for_id rf inst run i None p w l \<noteq> None \<longleftrightarrow> hm_get inst i \<noteq> None \<and> hm_get run i \<noteq> None"
  by (auto simp: resolved_target_for_id_def Let_def stored_target_matches_endpoint_def
      vector_endpoint_matches_target_def split: option.split)

text \<open>What holds of every target the resolution returns.\<close>

definition target_ok :: "instances \<Rightarrow> running \<Rightarrow> model_workload option \<Rightarrow> resolved_target \<Rightarrow> bool" where
  "target_ok inst run ep t \<longleftrightarrow> hm_get inst (rv_id t) \<noteq> None \<and> hm_get run (rv_id t) \<noteq> None \<and> pt_running (rv_public t)
     \<and> vector_endpoint_matches_target ep (rv_workload t) \<and> 1 \<le> rv_route_weight t"

lemma resolved_target_ok: "resolved_target_for_id rf inst run i ep p w l = Some t \<Longrightarrow> target_ok inst run ep t \<and> rv_id t = i"
  by (erule resolved_Some) (simp add: target_ok_def)

lemma matching_routes_iff:
  "matching_routes config m = [] \<longleftrightarrow> \<not> list_ex (\<lambda>r. route_is_configured r \<and> trim (rt_model_alias r) = m) (pc_routes config)"
proof -
  have "set (pc_routes config) = snd ` set (enumerate 0 (pc_routes config))"
    by (metis list.set_map map_snd_enumerate)
  then show ?thesis by (auto simp: matching_routes_def filter_empty_conv list_ex_iff)
qed

lemma route_candidates_set:
  "t \<in> set (route_candidates rf inst run ep (matching_routes config m)) \<Longrightarrow>
   \<exists>r \<in> set (pc_routes config). route_is_configured r \<and> trim (rt_model_alias r) = m
      \<and> resolved_target_for_id rf inst run (trim (rt_target_instance_id r)) ep (rt_priority r) (rt_weight r)
           (rt_max_concurrent_requests r) = Some t"
  by (fastforce simp: route_candidates_def map_filter_Some matching_routes_def in_set_enumerate_eq)

section \<open>Order of the candidates\<close>

lemma insort_tiebreak:
  fixes p :: "'a \<Rightarrow> 'b :: linorder" and i :: "'a \<Rightarrow> 'c :: linorder"
  assumes "\<And>y. y \<in> set ys \<Longrightarrow> i x \<le> i y"
  shows "insort_key (\<lambda>x. (p x, i x)) x ys = insort_key p x ys"
  using assms by (induction ys) (auto simp: less_eq_prod_def)

lemma sort_tiebreak:
  fixes p :: "'a \<Rightarrow> 'b :: linorder" and i :: "'a \<Rightarrow> 'c :: linorder"
  assumes "sorted (map i xs)"
  shows "sort_key (\<lambda>x. (p x, i x)) xs = sort_key p xs"
  using assms
proof (induction xs)
  case (Cons x xs)
  have "insort_key (\<lambda>x. (p x, i x)) x (sort_key p xs) = insort_key p x (sort_key p xs)"
    by (rule insort_tiebreak) (use Cons.prems in auto)
  then show ?case using Cons by simp
qed simp

lemma sort_key_eq: "(\<And>x. x \<in> set xs \<Longrightarrow> f x = g x) \<Longrightarrow> sort_key f xs = sort_key g xs"
proof (induction xs)
  case (Cons x xs)
  have "set ys \<subseteq> set xs \<Longrightarrow> insort_key f x ys = insort_key g x ys" for ys
    using Cons.prems by (induction ys) simp_all
  from this [of "sort_key g xs"] show ?case using Cons by simp
qed simp

lemma sort_key_Nil_iff [simp]: "sort_key f xs = [] \<longleftrightarrow> xs = []"
  by (metis length_0_conv length_sort)

lemma map_insort: "map g (insort_key (\<lambda>x. f (g x)) x xs) = insort_key f (g x) (map g xs)"
  by (induction xs) simp_all

lemma map_sort: "map g (sort_key (\<lambda>x. f (g x)) xs) = sort_key f (map g xs)"
  by (induction xs) (simp_all add: map_insort)

lemma sorted_map_filter_index:
  "sorted (map fst xs) \<Longrightarrow>
   sorted (map (\<lambda>(_, index, _). index) (List.map_filter (\<lambda>(index, r). map_option (\<lambda>t. (f r, index, t)) (g r)) xs))"
proof (induction xs)
  case (Cons x xs)
  then show ?case
    by (cases x) (fastforce simp: List.map_filter_def split: option.splits)
qed (simp add: List.map_filter_def)

lemma sorted_enumerate_filter: "sorted (map fst (filter P (enumerate n xs)))"
  by (rule sorted_filter) (simp add: map_fst_enumerate)

lemma map_filter_enumerate:
  "List.map_filter (\<lambda>(_, r). g r) (filter (\<lambda>(_, r). P r) (enumerate n xs)) = List.map_filter g (filter P xs)"
  by (induction xs arbitrary: n) (auto simp: List.map_filter_def)

lemma map_filter_third:
  "map (\<lambda>x. snd (snd x)) (List.map_filter (\<lambda>(i, r). map_option (\<lambda>t. (f r, i, t)) (g r)) xs)
   = List.map_filter (\<lambda>(_, r). g r) xs"
proof (induction xs)
  case (Cons x xs)
  then show ?case by (cases x; cases "g (snd x)") (simp_all add: List.map_filter_def)
qed (simp add: List.map_filter_def)

definition route_target ::
  "(string \<Rightarrow> string option) \<Rightarrow> instances \<Rightarrow> running \<Rightarrow> model_workload option \<Rightarrow> proxy_route \<Rightarrow> resolved_target option" where
  "route_target rf inst run ep r =
     resolved_target_for_id rf inst run (trim (rt_target_instance_id r)) ep (rt_priority r) (rt_weight r)
       (rt_max_concurrent_requests r)"

lemma route_candidates_sort:
  "route_candidates rf inst run ep (matching_routes config m)
   = sort_key rv_route_priority
       (List.map_filter (route_target rf inst run ep)
         (filter (\<lambda>r. route_is_configured r \<and> trim (rt_model_alias r) = m) (pc_routes config)))"
proof -
  let ?trip = "List.map_filter (\<lambda>(index, r). map_option (\<lambda>t. (rt_priority r, index, t)) (route_target rf inst run ep r))
      (matching_routes config m)"
  have key: "sort_key (\<lambda>(priority, index, _). (priority, index)) ?trip = sort_key fst ?trip"
  proof -
    have "sorted (map (\<lambda>(_, index, _). index) ?trip)"
      by (rule sorted_map_filter_index) (simp add: matching_routes_def sorted_enumerate_filter)
    from sort_tiebreak [OF this, of fst] show ?thesis by (simp add: case_prod_unfold)
  qed
  have pr: "fst x = rv_route_priority (snd (snd x))" if "x \<in> set ?trip" for x
    using that by (auto simp: map_filter_Some route_target_def elim!: resolved_Some)
  have "sort_key fst ?trip = sort_key (\<lambda>x. rv_route_priority (snd (snd x))) ?trip"
    by (rule sort_key_eq) (simp add: pr)
  then have "route_candidates rf inst run ep (matching_routes config m)
      = map (\<lambda>x. snd (snd x)) (sort_key (\<lambda>x. rv_route_priority (snd (snd x))) ?trip)"
    using key by (simp add: route_candidates_def route_target_def case_prod_unfold)
  also have "\<dots> = sort_key rv_route_priority (map (\<lambda>x. snd (snd x)) ?trip)" by (rule map_sort)
  also have "map (\<lambda>x. snd (snd x)) ?trip
      = List.map_filter (\<lambda>(_, r). route_target rf inst run ep r) (matching_routes config m)"
    by (rule map_filter_third)
  also have "\<dots> = List.map_filter (route_target rf inst run ep)
      (filter (\<lambda>r. route_is_configured r \<and> trim (rt_model_alias r) = m) (pc_routes config))"
    unfolding matching_routes_def by (rule map_filter_enumerate)
  finally show ?thesis .
qed

section \<open>Where candidates come from\<close>

text \<open>A name reaches an instance through a route with that alias.\<close>

definition routed_as :: "proxy_config \<Rightarrow> string \<Rightarrow> string \<Rightarrow> bool" where
  "routed_as config m i \<longleftrightarrow>
     list_ex (\<lambda>r. route_is_configured r \<and> trim (rt_model_alias r) = m \<and> trim (rt_target_instance_id r) = i) (pc_routes config)"

definition is_route_alias :: "proxy_config \<Rightarrow> string \<Rightarrow> bool" where
  "is_route_alias config m \<longleftrightarrow> list_ex (\<lambda>r. route_is_configured r \<and> trim (rt_model_alias r) = m) (pc_routes config)"

lemma default_target_Some:
  "default_target rf config inst run ep = Some t \<Longrightarrow>
   target_ok inst run ep t \<and> rv_id t = trim (pc_default_instance_id config) \<and> rv_id t \<noteq> []"
  by (auto simp: default_target_def implicit_target_def Let_def split: if_splits dest: resolved_target_ok)

lemma implicit_target_public:
  assumes "implicit_target rf inst run ep i = Some t" "hm_get inst i = Some stored"
  shows "rv_id t = i \<and> pt_alias (rv_public t) = public_model_id (current_config (hm_get run i) stored)"
  using assms by (auto simp: implicit_target_def elim!: resolved_Some)

lemma unbounded_unrouted:
  assumes "t \<in> set (resolve_proxy_candidates_unbounded rf config inst run requested ep)"
    and "selector requested = Some m" "matching_routes config m = []"
  shows "\<not> (pc_strict_model_routing config \<and> has_explicit_routes config)
    \<and> ((\<exists>i stored. hm_get inst i = Some stored \<and> names_instance config run m (i, stored)
            \<and> i \<notin> set (routed_ids config) \<and> implicit_target rf inst run ep i = Some t)
        \<or> (\<not> pc_strict_model_routing config \<and> default_target rf config inst run ep = Some t))"
proof -
  note m = assms(1) [unfolded resolve_proxy_candidates_unbounded_def assms(2) option.case]
  have strict: "\<not> (pc_strict_model_routing config \<and> has_explicit_routes config)" using m assms(3) by (auto split: if_splits)
  then show ?thesis using m assms(3) by (auto simp: Let_def map_filter_Some split: if_splits option.splits)
qed

lemma unbounded_sound:
  assumes "t \<in> set (resolve_proxy_candidates_unbounded rf config inst run requested ep)"
  shows "target_ok inst run ep t
    \<and> (case selector requested of
         Some m \<Rightarrow> if is_route_alias config m then routed_as config m (rv_id t)
                  else if pc_strict_model_routing config
                  then \<not> has_explicit_routes config \<and> pt_alias (rv_public t) = m
                  else rv_id t \<notin> set (routed_ids config) \<or> rv_id t = trim (pc_default_instance_id config)
       | None \<Rightarrow> rv_id t \<notin> set (routed_ids config) \<or> rv_id t = trim (pc_default_instance_id config))"
proof (cases "selector requested")
  case None
  then show ?thesis
    using assms default_target_Some resolved_target_ok
    by (auto simp: resolve_proxy_candidates_unbounded_def Let_def map_filter_Some implicit_target_def
        split: option.splits if_splits)
next
  case (Some m)
  show ?thesis
  proof (cases "matching_routes config m = []")
    case False
    then have "t \<in> set (route_candidates rf inst run ep (matching_routes config m))"
      using assms Some by (simp add: resolve_proxy_candidates_unbounded_def)
    from route_candidates_set [OF this] show ?thesis
      using False Some resolved_target_ok
      by (auto simp: matching_routes_iff is_route_alias_def routed_as_def list_ex_iff)
  next
    case True
    have na: "\<not> is_route_alias config m" using True by (simp add: matching_routes_iff is_route_alias_def)
    note u = unbounded_unrouted [OF assms Some True]
    note strict = conjunct1 [OF u]
    from conjunct2 [OF u] have "(\<exists>i stored. hm_get inst i = Some stored \<and> names_instance config run m (i, stored)
            \<and> i \<notin> set (routed_ids config) \<and> implicit_target rf inst run ep i = Some t)
        \<or> (\<not> pc_strict_model_routing config \<and> default_target rf config inst run ep = Some t)" .
    then show ?thesis
    proof
      assume "\<not> pc_strict_model_routing config \<and> default_target rf config inst run ep = Some t"
      then show ?thesis using default_target_Some [of rf config inst run ep t] na Some by simp
    next
      assume "\<exists>i stored. hm_get inst i = Some stored \<and> names_instance config run m (i, stored)
            \<and> i \<notin> set (routed_ids config) \<and> implicit_target rf inst run ep i = Some t"
      then obtain i stored where i: "hm_get inst i = Some stored" "names_instance config run m (i, stored)"
        "i \<notin> set (routed_ids config)" "implicit_target rf inst run ep i = Some t" by blast
      note p = implicit_target_public [OF i(4,1)] resolved_target_ok [OF i(4) [unfolded implicit_target_def]]
      show ?thesis using p i strict na Some by (auto simp: names_instance_def Let_def)
    qed
  qed
qed

lemma unbounded_resolved:
  assumes "t \<in> set (resolve_proxy_candidates_unbounded rf config inst run requested ep)"
  shows "\<exists>i p w l. resolved_target_for_id rf inst run i ep p w l = Some t"
proof -
  have d: "default_target rf config inst run ep = Some t \<Longrightarrow> ?thesis"
    by (auto simp: default_target_def implicit_target_def Let_def split: if_splits)
  have r: "t \<in> set (route_candidates rf inst run ep (matching_routes config m)) \<Longrightarrow> ?thesis" for m
    using route_candidates_set by blast
  show ?thesis
  proof (cases "selector requested")
    case None
    then show ?thesis
      using assms d
      by (auto simp: resolve_proxy_candidates_unbounded_def Let_def map_filter_Some implicit_target_def
          split: option.splits if_splits)
  next
    case (Some m)
    show ?thesis
    proof (cases "matching_routes config m = []")
      case True
      then show ?thesis using unbounded_unrouted [OF assms Some True] d by (auto simp: implicit_target_def)
    next
      case False
      then show ?thesis using assms Some r by (simp add: resolve_proxy_candidates_unbounded_def)
    qed
  qed
qed

text \<open>The configured context of a candidate depends on its instance alone.\<close>

lemma candidates_same_context:
  assumes "t \<in> set (resolve_proxy_candidates_from rf config inst run requested ep)"
    and "u \<in> set (resolve_proxy_candidates_from rf config inst run requested ep)" and "rv_id t = rv_id u"
  shows "rv_configured_context_length t = rv_configured_context_length u"
proof -
  have c: "\<exists>p w l s. resolved_target_for_id rf inst run (rv_id v) ep p w l = Some s
      \<and> rv_configured_context_length v = rv_configured_context_length s"
    if v: "v \<in> set (resolve_proxy_candidates_from rf config inst run requested ep)" for v
  proof -
    obtain s where s: "s \<in> set (resolve_proxy_candidates_unbounded rf config inst run requested ep)"
      "v = s\<lparr> rv_route_max_concurrent_requests := min_or_zero (instance_limits config (rv_id s)) \<rparr>"
      using v by (auto simp: resolve_proxy_candidates_from_def)
    then show ?thesis using unbounded_resolved [OF s(1)] resolved_target_ok by fastforce
  qed
  have "rv_configured_context_length s = rv_configured_context_length s'"
    if "resolved_target_for_id rf inst run i ep p w l = Some s" "resolved_target_for_id rf inst run i ep p' w' l' = Some s'"
    for i p w l s p' w' l' s'
    using that by (auto simp: resolved_target_for_id_def Let_def split: option.splits if_splits)
  then show ?thesis using c [OF assms(1)] c [OF assms(2)] assms(3) by metis
qed

lemma target_ok_limit [simp]: "target_ok inst run ep (t\<lparr> rv_route_max_concurrent_requests := l \<rparr>) = target_ok inst run ep t"
  by (simp add: target_ok_def)

text \<open>
  C20. A request is only ever offered targets it may use: each candidate is a running instance whose
  workload fits the endpoint, its limit is the least positive limit of all routes to that
  instance, a name that is a route alias reaches exactly the instances routed under it, and
  under strict routing any other name reaches nothing when there are explicit routes and only
  instances with that public name when there are none.
\<close>

theorem candidates_sound:
  assumes "t \<in> set (resolve_proxy_candidates_from rf config inst run requested ep)"
  shows "target_ok inst run ep t
    \<and> rv_route_max_concurrent_requests t = min_or_zero (instance_limits config (rv_id t))
    \<and> (case selector requested of
         Some m \<Rightarrow> if is_route_alias config m then routed_as config m (rv_id t)
                  else if pc_strict_model_routing config
                  then \<not> has_explicit_routes config \<and> pt_alias (rv_public t) = m
                  else rv_id t \<notin> set (routed_ids config) \<or> rv_id t = trim (pc_default_instance_id config)
       | None \<Rightarrow> rv_id t \<notin> set (routed_ids config) \<or> rv_id t = trim (pc_default_instance_id config))"
proof -
  obtain u where u: "u \<in> set (resolve_proxy_candidates_unbounded rf config inst run requested ep)"
    "t = u\<lparr> rv_route_max_concurrent_requests := min_or_zero (instance_limits config (rv_id u)) \<rparr>"
    using assms by (auto simp: resolve_proxy_candidates_from_def)
  show ?thesis unfolding u(2) using unbounded_sound [OF u(1)] by (cases "selector requested") (auto split: if_splits)
qed

text \<open>
  The candidates of a route alias are exactly its resolvable routes, in stable order of priority:
  the order by priority and position in the configuration that the code sorts by is the
  stable order by priority alone.
\<close>

theorem candidates_ordered:
  assumes "selector requested = Some m" and "is_route_alias config m"
  shows "resolve_proxy_candidates_from rf config inst run requested ep
    = map (\<lambda>t. t\<lparr> rv_route_max_concurrent_requests := min_or_zero (instance_limits config (rv_id t)) \<rparr>)
        (sort_key rv_route_priority (List.map_filter (route_target rf inst run ep)
          (filter (\<lambda>r. route_is_configured r \<and> trim (rt_model_alias r) = m) (pc_routes config))))
    \<and> sorted (map rv_route_priority (resolve_proxy_candidates_from rf config inst run requested ep))"
proof -
  have "matching_routes config m \<noteq> []" using assms(2) by (simp add: matching_routes_iff is_route_alias_def)
  then have "resolve_proxy_candidates_unbounded rf config inst run requested ep
      = route_candidates rf inst run ep (matching_routes config m)"
    using assms(1) by (simp add: resolve_proxy_candidates_unbounded_def)
  then show ?thesis
    by (simp add: resolve_proxy_candidates_from_def route_candidates_sort comp_def sorted_sort_key)
qed

section \<open>Failures\<close>

lemma strict_unrouted_empty:
  assumes "selector requested = Some m" "\<not> is_route_alias config m"
    and "pc_strict_model_routing config" "has_explicit_routes config"
  shows "resolve_proxy_candidates_from rf config inst run requested ep = []"
  using assms by (simp add: resolve_proxy_candidates_from_def resolve_proxy_candidates_unbounded_def
      matching_routes_iff is_route_alias_def)

lemma strict_unrouted_failure:
  assumes "selector requested = Some m" "\<not> is_route_alias config m"
    and "pc_strict_model_routing config" "has_explicit_routes config"
  shows "unresolved_model_failure rf config inst run requested ep = ModelNotFound"
proof -
  have "filter route_is_configured (pc_routes config) \<noteq> []"
    using assms(4) by (auto simp: has_explicit_routes_def list_ex_iff filter_empty_conv)
  moreover have "\<not> list_ex (\<lambda>r. trim (rt_model_alias r) = m) (filter route_is_configured (pc_routes config))"
    using assms(2) by (auto simp: is_route_alias_def list_ex_iff)
  ultimately show ?thesis
    using assms strict_unrouted_empty [OF assms] by (simp add: unresolved_model_failure_def Let_def)
qed

text \<open>
  A name the router admits to knowing: the alias of a configured route, whether or not its
  instance runs; and, unless strict routing has explicit routes to go by, the public id of an
  unrouted instance or, when routing is not strict, its name, its id, and any name at all once
  there is a default instance.
\<close>

definition known_name :: "proxy_config \<Rightarrow> instances \<Rightarrow> running \<Rightarrow> string \<Rightarrow> bool" where
  "known_name config inst run m \<longleftrightarrow>
     is_route_alias config m
     \<or> \<not> (pc_strict_model_routing config \<and> has_explicit_routes config)
       \<and> ((\<exists>(i, stored) \<in> set inst. i \<notin> set (routed_ids config)
             \<and> (public_model_id (current_config (hm_get run i) stored) = m
                \<or> \<not> pc_strict_model_routing config
                   \<and> (i = m \<or> trim (ic_name (current_config (hm_get run i) stored)) = m)))
          \<or> \<not> pc_strict_model_routing config \<and> trim (pc_default_instance_id config) \<noteq> [])"

lemma unresolved_known:
  assumes "selector requested = Some m"
    and "\<not> (ep \<noteq> None \<and> resolve_proxy_candidates_from rf config inst run requested None \<noteq> [])"
  shows "unresolved_model_failure rf config inst run requested ep
    = (if known_name config inst run m then RouteUnavailable else ModelNotFound)"
proof -
  have routes: "list_ex (\<lambda>r. trim (rt_target_instance_id r) = i) (filter route_is_configured (pc_routes config))
      \<longleftrightarrow> i \<in> set (routed_ids config)" for i
    by (auto simp: routed_ids_def list_ex_iff)
  have aliased: "list_ex (\<lambda>r. trim (rt_model_alias r) = m) (filter route_is_configured (pc_routes config))
      \<longleftrightarrow> is_route_alias config m"
    by (auto simp: is_route_alias_def list_ex_iff)
  have none: "filter route_is_configured (pc_routes config) \<noteq> [] \<longleftrightarrow> has_explicit_routes config"
    by (auto simp: has_explicit_routes_def list_ex_iff filter_empty_conv)
  have named: "list_ex (\<lambda>e. fst e \<notin> set (routed_ids config) \<and> names_instance config run m e) inst
      \<longleftrightarrow> (\<exists>(i, stored) \<in> set inst. i \<notin> set (routed_ids config)
             \<and> (public_model_id (current_config (hm_get run i) stored) = m
                \<or> \<not> pc_strict_model_routing config
                   \<and> (i = m \<or> trim (ic_name (current_config (hm_get run i) stored)) = m)))"
    by (auto simp: list_ex_iff names_instance_def Let_def split_beta)
  have "unresolved_model_failure rf config inst run requested ep =
     (let routes = filter route_is_configured (pc_routes config)
      in if list_ex (\<lambda>r. trim (rt_model_alias r) = m) routes then RouteUnavailable
         else if pc_strict_model_routing config \<and> routes \<noteq> [] then ModelNotFound
         else if list_ex (\<lambda>e. \<not> list_ex (\<lambda>r. trim (rt_target_instance_id r) = fst e) routes
                            \<and> names_instance config run m e) inst
                 \<or> (\<not> pc_strict_model_routing config \<and> trim (pc_default_instance_id config) \<noteq> [])
              then RouteUnavailable
         else ModelNotFound)"
    unfolding unresolved_model_failure_def if_not_P [OF assms(2)] assms(1) option.case ..
  then show ?thesis
    unfolding Let_def routes aliased none named known_name_def by auto
qed

text \<open>
  C21. A request without a target is classified exactly: an endpoint mismatch when dropping the
  workload gives a target; else a missing model when no model and no default is named; else
  unavailable when the name is known (in particular the alias of a route whose instance is
  stopped) or, without a name, when there is a default; else not found.  No other failure is
  given.  Under strict routing with explicit routes the whole resolution of a name that is no
  route alias is not found and the same whatever instances exist or run.
\<close>

theorem failure_classified:
  defines "f rf config inst run requested ep \<equiv> rq_empty_failure (proxy_request_resolution_from rf config inst run requested ep)"
    and "mismatch rf config inst run requested ep \<equiv>
      ep \<noteq> None \<and> resolve_proxy_candidates_from rf config inst run requested None \<noteq> []"
  assumes "resolve_proxy_candidates_from rf config inst run requested ep = []"
  shows "(f rf config inst run requested ep = EndpointMismatch \<longleftrightarrow> mismatch rf config inst run requested ep)
    \<and> (f rf config inst run requested ep = ModelRequired \<longleftrightarrow> \<not> mismatch rf config inst run requested ep
          \<and> selector requested = None \<and> trim (pc_default_instance_id config) = [])
    \<and> (f rf config inst run requested ep = ModelNotFound \<longleftrightarrow> \<not> mismatch rf config inst run requested ep
          \<and> (\<exists>m. selector requested = Some m \<and> \<not> known_name config inst run m))
    \<and> (f rf config inst run requested ep = RouteUnavailable \<longleftrightarrow> \<not> mismatch rf config inst run requested ep
          \<and> (case selector requested of
               None \<Rightarrow> trim (pc_default_instance_id config) \<noteq> []
             | Some m \<Rightarrow> known_name config inst run m))
    \<and> f rf config inst run requested ep \<noteq> RouteCapacity
    \<and> (\<forall>m. selector requested = Some m \<longrightarrow> \<not> is_route_alias config m \<longrightarrow> pc_strict_model_routing config
          \<longrightarrow> has_explicit_routes config
          \<longrightarrow> f rf config inst run requested ep = ModelNotFound
            \<and> (\<forall>rf' inst' run'. proxy_request_resolution_from rf' config inst' run' requested ep
                 = proxy_request_resolution_from rf config inst run requested ep))"
proof -
  let ?f = "unresolved_model_failure rf config inst run requested ep"
  have f: "f rf config inst run requested ep = ?f"
    using assms(3) by (simp add: f_def proxy_request_resolution_from_def Let_def)
  have val: "?f = (if mismatch rf config inst run requested ep then EndpointMismatch
      else case selector requested of
        None \<Rightarrow> if trim (pc_default_instance_id config) = [] then ModelRequired else RouteUnavailable
      | Some m \<Rightarrow> if known_name config inst run m then RouteUnavailable else ModelNotFound)"
    using unresolved_known [of requested _ ep rf config inst run]
    by (cases "selector requested") (auto simp: mismatch_def unresolved_model_failure_def)
  have leak: "proxy_request_resolution_from rf' config inst' run' requested ep
      = proxy_request_resolution_from rf config inst run requested ep"
    if "selector requested = Some m" "\<not> is_route_alias config m" "pc_strict_model_routing config" "has_explicit_routes config"
    for m rf' inst' run'
    using strict_unrouted_empty [OF that] strict_unrouted_failure [OF that]
    by (simp add: proxy_request_resolution_from_def Let_def)
  have strict: "?f = ModelNotFound"
    if "selector requested = Some m" "\<not> is_route_alias config m" "pc_strict_model_routing config" "has_explicit_routes config"
    for m using strict_unrouted_failure [OF that] .
  show ?thesis unfolding f
  proof (intro conjI)
    show "\<forall>m. selector requested = Some m \<longrightarrow> \<not> is_route_alias config m \<longrightarrow> pc_strict_model_routing config
          \<longrightarrow> has_explicit_routes config
          \<longrightarrow> ?f = ModelNotFound
            \<and> (\<forall>rf' inst' run'. proxy_request_resolution_from rf' config inst' run' requested ep
                 = proxy_request_resolution_from rf config inst run requested ep)"
      using strict leak by blast
  qed (auto simp: val split: option.splits)
qed

section \<open>Discovery\<close>

lemma model_id_trim [simp]: "trim (public_model_id c) = public_model_id c"
proof -
  have "trim ''model'' = ''model''" by (rule trim_graphic) (auto simp: graphic_def)
  then show ?thesis
    by (auto simp: public_model_id_def Let_def dest: model_file_stem_no_separator split: option.split)
qed

lemma distinct_remdups_adj_sorted: "sorted xs \<Longrightarrow> distinct (remdups_adj xs)" for xs :: "'a :: linorder list"
  by (induction xs rule: remdups_adj.induct) (auto simp: order_antisym)

lemma listed_cases:
  assumes "m \<in> set (listed_proxy_model_ids config (list_proxy_targets_from inst run))" "hm_ok inst"
  obtains (route) r where "r \<in> set (pc_routes config)" "rt_enabled r" "trim (rt_model_alias r) = m" "m \<noteq> []"
      "hm_get inst (trim (rt_target_instance_id r)) \<noteq> None" "hm_get run (trim (rt_target_instance_id r)) \<noteq> None"
    | (unrouted) i stored where "hm_get inst i = Some stored" "hm_get run i \<noteq> None" "i \<notin> set (routed_ids config)"
      "m = public_model_id (current_config (hm_get run i) stored)"
proof -
  let ?ts = "list_proxy_targets_from inst run"
  have ts: "\<exists>stored. hm_get inst (pt_instance_id u) = Some stored
      \<and> u = proxy_target_from_instance (pt_instance_id u) (current_config (hm_get run (pt_instance_id u)) stored)
              (hm_get run (pt_instance_id u) \<noteq> None)" if "u \<in> set ?ts" for u
    using that assms(2) by (auto simp: list_proxy_targets_from_def proxy_target_from_instance_def)
  have run: "hm_get run (pt_instance_id u) \<noteq> None" if "u \<in> set ?ts" "pt_running u" for u
    using ts [OF that(1)] that(2) by (metis proxy_target_from_instance_def proxy_target.select_convs(6))
  have "(\<exists>r \<in> set (pc_routes config). rt_enabled r \<and> trim (rt_model_alias r) = m \<and> m \<noteq> []
          \<and> (\<exists>u \<in> set ?ts. pt_running u \<and> pt_instance_id u = trim (rt_target_instance_id r)))
      \<or> (\<exists>u \<in> set ?ts. pt_running u \<and> pt_instance_id u \<notin> set (routed_ids config) \<and> m = trim (pt_alias u))"
    using assms(1) by (auto simp: listed_proxy_model_ids_def Let_def) metis
  then show thesis
  proof
    assume "\<exists>r \<in> set (pc_routes config). rt_enabled r \<and> trim (rt_model_alias r) = m \<and> m \<noteq> []
          \<and> (\<exists>u \<in> set ?ts. pt_running u \<and> pt_instance_id u = trim (rt_target_instance_id r))"
    then obtain r u where r: "r \<in> set (pc_routes config)" "rt_enabled r" "trim (rt_model_alias r) = m" "m \<noteq> []"
      and u: "u \<in> set ?ts" "pt_running u" "pt_instance_id u = trim (rt_target_instance_id r)" by blast
    show thesis by (rule route [OF r]) (use ts [OF u(1)] run [OF u(1,2)] u(3) in auto)
  next
    assume "\<exists>u \<in> set ?ts. pt_running u \<and> pt_instance_id u \<notin> set (routed_ids config) \<and> m = trim (pt_alias u)"
    then obtain u where u: "u \<in> set ?ts" "pt_running u" "pt_instance_id u \<notin> set (routed_ids config)" "m = trim (pt_alias u)"
      by blast
    obtain stored where s: "hm_get inst (pt_instance_id u) = Some stored"
      "u = proxy_target_from_instance (pt_instance_id u) (current_config (hm_get run (pt_instance_id u)) stored)
              (hm_get run (pt_instance_id u) \<noteq> None)" using ts [OF u(1)] by blast
    have "pt_alias u = public_model_id (current_config (hm_get run (pt_instance_id u)) stored)"
      by (subst s(2)) (simp add: proxy_target_from_instance_def)
    then show thesis by (intro unrouted [OF s(1) run [OF u(1,2)] u(3)]) (simp add: u(4))
  qed
qed

lemma routed_resolves:
  assumes "r \<in> set (pc_routes config)" "route_is_configured r" "trim (rt_model_alias r) = m"
    and "hm_get inst (trim (rt_target_instance_id r)) \<noteq> None" "hm_get run (trim (rt_target_instance_id r)) \<noteq> None"
  shows "resolve_proxy_candidates_from rf config inst run (Some m) None \<noteq> []"
proof -
  have m: "selector (Some m) = Some m"
    using assms(2,3) by (auto simp: selector_def route_is_configured_def)
  have mr: "matching_routes config m \<noteq> []" using assms(1-3) by (auto simp: matching_routes_iff list_ex_iff)
  have "route_target rf inst run None r \<noteq> None"
    unfolding route_target_def resolved_ex_iff using assms(4,5) by blast
  then have "List.map_filter (route_target rf inst run None)
      (filter (\<lambda>r. route_is_configured r \<and> trim (rt_model_alias r) = m) (pc_routes config)) \<noteq> []"
    unfolding map_filter_Nil_iff using assms(1-3) by auto
  then show ?thesis
    by (simp add: resolve_proxy_candidates_from_def resolve_proxy_candidates_unbounded_def m mr route_candidates_sort)
qed

lemma public_name_resolves:
  assumes "hm_get inst i = Some stored" "hm_get run i \<noteq> None" "i \<notin> set (routed_ids config)"
    and m: "m = public_model_id (current_config (hm_get run i) stored)"
    and "\<not> is_route_alias config m" "\<not> (pc_strict_model_routing config \<and> has_explicit_routes config)"
  shows "resolve_proxy_candidates_from rf config inst run (Some m) None \<noteq> []"
proof -
  have sel: "selector (Some m) = Some m" using public_model_id_props by (simp add: selector_def m)
  define g where "g = (\<lambda>i. case hm_get inst i of
        None \<Rightarrow> None
      | Some stored \<Rightarrow>
          if names_instance config run m (i, stored) \<and> i \<notin> set (routed_ids config)
          then implicit_target rf inst run None i else None)"
  have "implicit_target rf inst run None i \<noteq> None"
    unfolding implicit_target_def resolved_ex_iff using assms(1,2) by simp
  moreover have "names_instance config run m (i, stored)" by (simp add: names_instance_def m Let_def)
  ultimately have "g i \<noteq> None" using assms(1,3) by (simp add: g_def)
  moreover have "i \<in> set (sort (hm_keys inst))" using assms(1) by (metis hm_get_None_iff option.distinct(1) set_sort)
  ultimately have ne: "List.map_filter g (sort (hm_keys inst)) \<noteq> []"
    unfolding map_filter_Nil_iff by (metis)
  have "matching_routes config m = []" using assms(5) by (simp add: matching_routes_iff is_route_alias_def)
  then show ?thesis
    using assms(6) ne
    unfolding resolve_proxy_candidates_from_def resolve_proxy_candidates_unbounded_def sel option.case Let_def g_def
    by simp
qed

text \<open>
  What discovery lists can be requested: the list is sorted without duplicates, and every listed
  name has a candidate, unless it is only the public name of an unrouted instance while explicit
  routes exist and routing is strict or a route with that alias has no running target.
\<close>

theorem discovery_resolves:
  assumes "hm_ok inst" and "hm_get inst [] = None"
    and "m \<in> set (listed_proxy_model_ids config (list_proxy_targets_from inst run))"
  shows "sorted (listed_proxy_model_ids config (list_proxy_targets_from inst run))
    \<and> distinct (listed_proxy_model_ids config (list_proxy_targets_from inst run))
    \<and> (resolve_proxy_candidates_from rf config inst run (Some m) None \<noteq> []
       \<or> has_explicit_routes config \<and> (pc_strict_model_routing config \<or> is_route_alias config m)
          \<and> (\<exists>i stored. hm_get inst i = Some stored \<and> hm_get run i \<noteq> None \<and> i \<notin> set (routed_ids config)
               \<and> m = public_model_id (current_config (hm_get run i) stored)))"
proof (intro conjI)
  show "sorted (listed_proxy_model_ids config (list_proxy_targets_from inst run))"
    "distinct (listed_proxy_model_ids config (list_proxy_targets_from inst run))"
    by (simp_all add: listed_proxy_model_ids_def Let_def sorted_remdups_adj distinct_remdups_adj_sorted)
  have expl: "is_route_alias config m \<Longrightarrow> has_explicit_routes config"
    by (auto simp: is_route_alias_def has_explicit_routes_def list_ex_iff)
  from assms(3,1) show "resolve_proxy_candidates_from rf config inst run (Some m) None \<noteq> []
       \<or> has_explicit_routes config \<and> (pc_strict_model_routing config \<or> is_route_alias config m)
          \<and> (\<exists>i stored. hm_get inst i = Some stored \<and> hm_get run i \<noteq> None \<and> i \<notin> set (routed_ids config)
               \<and> m = public_model_id (current_config (hm_get run i) stored))"
  proof (cases rule: listed_cases)
    case (route r)
    have "route_is_configured r" using route assms(2) by (auto simp: route_is_configured_def)
    then show ?thesis using routed_resolves [of r config m inst run rf] route by blast
  next
    case (unrouted i stored)
    then show ?thesis using public_name_resolves [of inst i stored run config m rf] expl by blast
  qed
qed

section \<open>Selecting a candidate\<close>

text \<open>The chosen scheduling candidate always belongs to a resolved target.\<close>

lemma select_resolved_cases:
  assumes "select_resolved_target rf now sn requested ep r = (r', res)"
  shows "rr_targets r' = rr_targets r
    \<and> (case res of
         Some (config, t) \<Rightarrow> config = sn_config sn
           \<and> t \<in> set (resolve_proxy_candidates_from rf (sn_config sn) (sn_instances sn) (sn_running sn) requested ep)
       | None \<Rightarrow> \<not> list_ex (\<lambda>t. eligible now (rr_targets r) (routing_candidate_of t))
             (resolve_proxy_candidates_from rf (sn_config sn) (sn_instances sn) (sn_running sn) requested ep))"
proof -
  let ?cs = "resolve_proxy_candidates_from rf (sn_config sn) (sn_instances sn) (sn_running sn) requested ep"
  obtain r1 res1 where s: "select_target now (map routing_candidate_of ?cs) (pc_routing_strategy (sn_config sn))
      (routing_group_key requested ep) r = (r1, res1)" by fastforce
  note c = select_target_cases [OF s]
  show ?thesis
  proof (cases res1)
    case None
    then have "best_tier now (rr_targets r) (map routing_candidate_of ?cs) = []" using c by simp
    then show ?thesis using assms s None c by (auto simp: select_resolved_target_def best_tier_Nil list_ex_iff)
  next
    case (Some x)
    then have "x \<in> set (best_tier now (rr_targets r) (map routing_candidate_of ?cs))" using c by simp
    then have "x \<in> set (map routing_candidate_of ?cs)" by (rule best_tier_props)
    then obtain u where u: "u \<in> set ?cs" "rv_id u = rc_instance_id x" by (auto simp: routing_candidate_of_def)
    then obtain t where t: "find (\<lambda>t. rv_id t = rc_instance_id x) ?cs = Some t"
      by (cases "find (\<lambda>t. rv_id t = rc_instance_id x) ?cs") (auto simp: find_None_all)
    show ?thesis using assms s Some t c find_SomeD [OF t] by (auto simp: select_resolved_target_def)
  qed
qed

section \<open>A concrete router\<close>

text \<open>Two running instances, of which one is routed as \<open>pub\<close>; routing is strict by default.\<close>

definition demo_instance :: "string \<Rightarrow> instance_config" where
  "demo_instance a = \<lparr> ic_engine_kind = LlamaCpp, ic_launch_mode = [], ic_explicit_overrides = None, ic_name = [],
     ic_model_path = [], ic_alias = a, ic_ctx_size = 4096, ic_ctx_size_auto = False, ic_host = ''127.0.0.1'',
     ic_port = 8080, ic_api_key = [], ic_api_key_file = [], ic_ssl_key_file = [], ic_ssl_cert_file = [],
     ic_api_prefix = [], ic_embedding = False, ic_reranking = False \<rparr>"

definition demo_running :: "string \<Rightarrow> running_instance" where
  "demo_running i = \<lparr> ri_instance_id = i, ri_port = 8080, ri_host = ''127.0.0.1'', ri_telemetry_session_id = None,
     ri_workload = [], ri_launch_config = None \<rparr>"

definition demo_instances :: instances where
  "demo_instances = [(''i'', demo_instance ''first''), (''j'', demo_instance ''second'')]"

definition demo_all_running :: running where
  "demo_all_running = [(''i'', demo_running ''i''), (''j'', demo_running ''j'')]"

definition demo_route :: proxy_route where
  "demo_route = (proxy_route_default ''r'')\<lparr> rt_model_alias := ''pub'', rt_target_instance_id := ''i'' \<rparr>"

definition demo_router :: proxy_config where
  "demo_router = proxy_config_default\<lparr> pc_routes := [demo_route] \<rparr>"

lemma demo_trims [simp]:
  "trim ''i'' = ''i''" "trim ''j'' = ''j''" "trim ''pub'' = ''pub''" "trim ''first'' = ''first''"
  "trim ''second'' = ''second''"
  by (rule trim_graphic, auto simp: graphic_def)+

lemma demo_route_simps [simp]:
  "route_is_configured demo_route" "rt_enabled demo_route" "rt_model_alias demo_route = ''pub''"
  "rt_target_instance_id demo_route = ''i''" "rt_max_concurrent_requests demo_route = 0"
  "pc_routes demo_router = [demo_route]" "pc_strict_model_routing demo_router"
  by (simp_all add: demo_route_def route_is_configured_def proxy_route_default_def demo_router_def proxy_config_default_def)

lemma demo_targets:
  "hm_ok demo_instances" "hm_get demo_instances [] = None"
  "map pt_instance_id (list_proxy_targets_from demo_instances demo_all_running) = [''i'', ''j'']"
  "map pt_alias (list_proxy_targets_from demo_instances demo_all_running) = [''first'', ''second'']"
  "map pt_running (list_proxy_targets_from demo_instances demo_all_running) = [True, True]"
  by (simp_all add: demo_instances_def demo_all_running_def list_proxy_targets_from_def proxy_target_from_instance_def
      current_config_def demo_running_def public_model_id_def demo_instance_def)

lemma demo_candidate:
  "\<exists>t. resolve_proxy_candidates_from (\<lambda>_. None) demo_router demo_instances demo_all_running (Some ''pub'') None = [t]
     \<and> rv_id t = ''i''"
  by (simp add: resolve_proxy_candidates_from_def resolve_proxy_candidates_unbounded_def selector_def matching_routes_def
      route_candidates_def List.map_filter_def resolved_target_for_id_def demo_instances_def demo_all_running_def
      stored_target_matches_endpoint_def vector_endpoint_matches_target_def Let_def)

lemma demo_alias: "is_route_alias demo_router ''pub''" "\<not> is_route_alias demo_router ''second''" "has_explicit_routes demo_router"
  "selector (Some ''pub'') = Some ''pub''" "selector (Some ''second'') = Some ''second''"
  by (simp_all add: is_route_alias_def has_explicit_routes_def selector_def)

lemma demo_listed: "set (listed_proxy_model_ids demo_router (list_proxy_targets_from demo_instances demo_all_running))
   = {''pub'', ''second''}"
proof -
  obtain u v where ts: "list_proxy_targets_from demo_instances demo_all_running = [u, v]"
    by (simp add: list_proxy_targets_from_def demo_instances_def)
  show ?thesis
    using demo_targets(3-5) unfolding ts
    by (simp add: listed_proxy_model_ids_def routed_ids_def Let_def insert_commute)
qed

theorem candidates_sound_witness:
  "\<exists>t. rv_id t = ''i'' \<and> target_ok demo_instances demo_all_running None t \<and> routed_as demo_router ''pub'' ''i''"
proof -
  obtain t where t: "resolve_proxy_candidates_from (\<lambda>_. None) demo_router demo_instances demo_all_running (Some ''pub'') None = [t]"
    "rv_id t = ''i''" using demo_candidate by blast
  show ?thesis
    using candidates_sound [of t "\<lambda>_. None" demo_router demo_instances demo_all_running "Some ''pub''" None] t demo_alias
    by auto
qed

theorem candidates_ordered_witness:
  "sorted (map rv_route_priority
     (resolve_proxy_candidates_from (\<lambda>_. None) demo_router demo_instances demo_all_running (Some ''pub'') None))"
  using candidates_ordered [OF demo_alias(4,1)] by blast

theorem failure_classified_witness:
  "rq_empty_failure (proxy_request_resolution_from (\<lambda>_. None) demo_router demo_instances demo_all_running
     (Some ''second'') None) = ModelNotFound"
  using failure_classified [OF strict_unrouted_empty [OF demo_alias(5,2) demo_route_simps(7) demo_alias(3)],
      THEN conjunct2, THEN conjunct2, THEN conjunct2, THEN conjunct2, THEN conjunct2, THEN spec, THEN mp,
      OF demo_alias(5), THEN mp, OF demo_alias(2), THEN mp, OF demo_route_simps(7), THEN mp,
      OF demo_alias(3), THEN conjunct1] .

theorem discovery_resolves_witness:
  "distinct (listed_proxy_model_ids demo_router (list_proxy_targets_from demo_instances demo_all_running))"
  using discovery_resolves [OF demo_targets(1,2), of "''pub''" demo_router demo_all_running] demo_listed by blast

text \<open>The exception is real: an unrouted instance is listed, and asking for it gives not found.\<close>

theorem unrouted_listed_not_found:
  "''second'' \<in> set (listed_proxy_model_ids demo_router (list_proxy_targets_from demo_instances demo_all_running))
   \<and> rq_candidates (proxy_request_resolution_from rf demo_router demo_instances demo_all_running (Some ''second'') ep) = []
   \<and> rq_empty_failure (proxy_request_resolution_from rf demo_router demo_instances demo_all_running (Some ''second'') ep)
       = ModelNotFound"
  using demo_listed strict_unrouted_empty [OF demo_alias(5,2) demo_route_simps(7) demo_alias(3)]
    strict_unrouted_failure [OF demo_alias(5,2) demo_route_simps(7) demo_alias(3)]
  by (simp add: proxy_request_resolution_from_def Let_def)

end
