(* ===== verification/Proxy_Auth.thy ===== *)
theory Proxy_Auth
  imports Proxy_Routing
begin

text \<open>
  Who may use the router and what passes it (\<open>src-tauri/src/commands/proxy.rs\<close>): key
  authentication and scopes, CORS policy, request body limits, the security middleware that all
  requests go through, and the headers and the URL of the forwarded request.  The record \<open>web\<close>
  bundles the parameters for code outside the repository: \<open>HeaderValue::to_str\<close> and
  \<open>HeaderValue::from_str\<close> of the HTTP library and the key digest.
\<close>

record web =
  wb_to_str :: "bytes \<Rightarrow> string option"
  wb_header_ok :: "string \<Rightarrow> bool"
  wb_digest :: "string \<Rightarrow> string"

definition header_str :: "web \<Rightarrow> headers \<Rightarrow> string \<Rightarrow> string option" where
  "header_str w hs name = Option.bind (hm_get hs name) (wb_to_str w)"

section \<open>Authentication\<close>

text \<open>\<open>find(char::is_whitespace)\<close>: the byte position of the first white-space character.\<close>

definition find_whitespace :: "string \<Rightarrow> nat option" where
  "find_whitespace s = find (\<lambda>i. leading white_space (drop i s) \<noteq> None) [0..<length s]"

text \<open>The credential in an \<open>Authorization\<close> header: what follows the word bearer, or all of it.\<close>

definition bearer_value :: "string \<Rightarrow> string" where
  "bearer_value v =
     (case find_whitespace v of
        None \<Rightarrow> v
      | Some i \<Rightarrow> if eq_ignore_ascii_case (take i v) ''bearer'' then trim_start (drop i v) else v)"

definition is_proxy_authorized :: "web \<Rightarrow> string \<Rightarrow> headers \<Rightarrow> bool" where
  "is_proxy_authorized w api_key hs =
     (if trim api_key = [] then True
      else (let expected = trim api_key;
                auth_ok = (case header_str w hs ''authorization'' of
                             None \<Rightarrow> False
                           | Some v \<Rightarrow> proxy_api_key_matches (wb_digest w) expected (bearer_value (trim v)));
                api_key_ok = (case header_str w hs ''x-api-key'' of
                                None \<Rightarrow> False | Some v \<Rightarrow> proxy_api_key_matches (wb_digest w) expected v)
            in auth_ok \<or> api_key_ok))"

record auth_context =
  au_client_id :: string
  au_requests_per_minute :: nat
  au_scopes :: "string list"
  au_policy :: "proxy_api_key option"

definition request_scope :: "string \<Rightarrow> string" where
  "request_scope path =
     (if path = ''/'' \<or> path \<in> set [''/health'', ''/live'', ''/ready'', ''/metrics'', ''/props'', ''/slots'']
         \<or> path = ''/v1/models'' \<or> starts_with ''/v1/models/'' path
      then ''discovery'' else ''inference'')"

definition still_authorized :: "auth_context \<Rightarrow> proxy_config \<Rightarrow> string \<Rightarrow> bool" where
  "still_authorized a config path =
     (case au_policy a of
        None \<Rightarrow> pc_api_keys config = []
      | Some original \<Rightarrow>
          list_ex (\<lambda>key. ak_id key = ak_id original \<and> ak_enabled key
                     \<and> constant_time_eq (ak_key key) (ak_key original)
                     \<and> list_ex (\<lambda>scope. scope = request_scope path) (ak_scopes key)) (pc_api_keys config))"

definition key_context :: "proxy_config \<Rightarrow> proxy_api_key \<Rightarrow> auth_context" where
  "key_context config k =
     \<lparr> au_client_id = ak_id k,
       au_requests_per_minute =
         (if ak_requests_per_minute k = 0 then pc_requests_per_minute config else ak_requests_per_minute k),
       au_scopes = ak_scopes k, au_policy = Some k \<rparr>"

definition anonymous_context :: "proxy_config \<Rightarrow> auth_context" where
  "anonymous_context config =
     \<lparr> au_client_id = ''anonymous'', au_requests_per_minute = pc_requests_per_minute config,
       au_scopes = [''inference'', ''discovery''], au_policy = None \<rparr>"

definition authenticate_proxy_request :: "web \<Rightarrow> proxy_config \<Rightarrow> headers \<Rightarrow> auth_context option" where
  "authenticate_proxy_request w config hs =
     (if pc_api_keys config = [] then Some (anonymous_context config)
      else map_option (key_context config)
             (find (\<lambda>k. is_proxy_authorized w (ak_key k) hs)
               (filter (\<lambda>k. ak_enabled k \<and> trim (ak_key k) \<noteq> []) (pc_api_keys config))))"

section \<open>CORS and rate headers\<close>

definition cors_origin :: "web \<Rightarrow> proxy_config \<Rightarrow> headers \<Rightarrow> string + string option" where
  "cors_origin w config hs =
     (case header_str w hs ''origin'' of
        None \<Rightarrow> Inr None
      | Some origin \<Rightarrow>
          (let normalized = trim_end_matches (CHR ''/'') (trim origin)
           in if list_ex (\<lambda>allowed. eq_ignore_ascii_case allowed normalized) (pc_cors_allowed_origins config)
              then Inr (Some normalized)
              else Inl ''origin is not allowed by the router CORS policy''))"

definition cors_names :: "string list" where
  "cors_names = [''access-control-allow-origin'', ''access-control-allow-credentials'', ''access-control-allow-methods'',
     ''access-control-allow-headers'', ''access-control-expose-headers'', ''access-control-max-age'',
     ''access-control-allow-private-network'']"

definition apply_cors_headers :: "web \<Rightarrow> string option \<Rightarrow> response \<Rightarrow> response" where
  "apply_cors_headers w origin r =
     (let r1 = r\<lparr> rs_headers := hdr_append ''vary'' ''Origin'' (fold hm_remove cors_names (rs_headers r)) \<rparr>
      in case origin of
           None \<Rightarrow> r1
         | Some o' \<Rightarrow>
             add_header ''access-control-max-age'' ''600''
              (add_header ''access-control-expose-headers''
                ''request-id, x-request-id, x-lsm-request-id, retry-after, x-ratelimit-limit-requests, x-ratelimit-remaining-requests, anthropic-ratelimit-requests-limit, anthropic-ratelimit-requests-remaining''
               (add_header ''access-control-allow-headers''
                 ''authorization, content-type, x-api-key, anthropic-version, anthropic-beta, x-request-id, openai-organization, openai-project''
                (add_header ''access-control-allow-methods'' ''GET, POST, OPTIONS''
                 (try_header (wb_header_ok w) ''access-control-allow-origin'' o' r1)))))"

definition apply_rate_headers :: "web \<Rightarrow> api_format \<Rightarrow> nat \<Rightarrow> nat \<Rightarrow> response \<Rightarrow> response" where
  "apply_rate_headers w format limit remaining r =
     (if limit = 0 then r
      else (let (limit_name, remaining_name) =
                  (if is_anthropic format
                   then (''anthropic-ratelimit-requests-limit'', ''anthropic-ratelimit-requests-remaining'')
                   else (''x-ratelimit-limit-requests'', ''x-ratelimit-remaining-requests''))
            in try_header (wb_header_ok w) remaining_name (show_nat remaining)
                 (try_header (wb_header_ok w) limit_name (show_nat limit) r)))"

section \<open>Request checks\<close>

definition SUPPORTED_ANTHROPIC_VERSION :: string where
  "SUPPORTED_ANTHROPIC_VERSION = ''2023-06-01''"

text \<open>\<open>{version:?}\<close> of a header text, which is visible ASCII, blanks and tabs.\<close>

definition debug_str :: "string \<Rightarrow> string" where
  "debug_str s = quote @ concat (map (\<lambda>c. if c = byte 34 then [byte 92, byte 34]
     else if c = byte 92 then [byte 92, byte 92] else if c = byte 9 then [byte 92, CHR ''t''] else [c]) s) @ quote"

definition is_messages_path :: "string \<Rightarrow> bool" where
  "is_messages_path path \<longleftrightarrow> path = ''/v1/messages'' \<or> path = ''/v1/messages/count_tokens''"

definition validate_anthropic_version :: "web \<Rightarrow> string \<Rightarrow> headers \<Rightarrow> string + unit" where
  "validate_anthropic_version w path hs =
     (if \<not> is_messages_path path then Inr ()
      else case hm_get hs ''anthropic-version'' of
        None \<Rightarrow> Inl (''anthropic-version header is required; supported version is '' @ SUPPORTED_ANTHROPIC_VERSION)
      | Some raw \<Rightarrow>
          (case wb_to_str w raw of
             None \<Rightarrow> Inl ''anthropic-version header must be valid ASCII''
           | Some s \<Rightarrow>
               (let version = trim s
                in if version \<noteq> SUPPORTED_ANTHROPIC_VERSION
                   then Inl (''unsupported anthropic-version '' @ debug_str version @ ''; supported version is ''
                             @ SUPPORTED_ANTHROPIC_VERSION)
                   else Inr ())))"

definition MAX_ANTHROPIC_REQUEST_BODY_BYTES :: nat where "MAX_ANTHROPIC_REQUEST_BODY_BYTES = 32 * 1024 * 1024"
definition MAX_PROXY_REQUEST_BODY_BYTES :: nat where "MAX_PROXY_REQUEST_BODY_BYTES = 64 * 1024 * 1024"
definition MAX_PROXY_IN_FLIGHT_BODY_BYTES :: nat where "MAX_PROXY_IN_FLIGHT_BODY_BYTES = 256 * 1024 * 1024"

definition request_body_limit :: "string \<Rightarrow> nat" where
  "request_body_limit path =
     (if is_messages_path path then MAX_ANTHROPIC_REQUEST_BODY_BYTES else MAX_PROXY_REQUEST_BODY_BYTES)"

definition request_body_reservation :: "web \<Rightarrow> string \<Rightarrow> headers \<Rightarrow> string + nat" where
  "request_body_reservation w path hs =
     (let limit = request_body_limit path
      in case hm_get hs ''content-length'' of
           None \<Rightarrow> Inr limit
         | Some raw \<Rightarrow>
             (case wb_to_str w raw of
                None \<Rightarrow> Inl ''content-length header must be valid ASCII''
              | Some s \<Rightarrow>
                  (case parse_nat u64_max (trim s) of
                     None \<Rightarrow> Inl ''content-length header must be a non-negative integer''
                   | Some declared \<Rightarrow>
                       if limit < declared
                       then Inl (''request body exceeds the '' @ show_nat limit @ '' byte limit'')
                       else Inr declared)))"

section \<open>The security middleware\<close>

record request =
  rq_method :: string
  rq_path :: string
  rq_headers :: headers
  rq_body :: "body_event list"
  rq_upload_after :: "nat option"
  rq_has_usage :: bool

text \<open>
  What the middleware draws from its surroundings: the request identifiers, the clock of the rate
  limiter, and what becomes of a queued request: \<open>wait i r\<close> is the state and the permit, if
  any, when its wait ends.
\<close>

record mw_env =
  me_rid :: string
  me_rid2 :: string
  me_t0 :: rat
  me_t1 :: rat
  me_t2 :: rat
  me_wait :: "u64 \<Rightarrow> rr \<Rightarrow> rr \<times> u64 option"

record forwarded =
  fw_headers :: headers
  fw_body :: "bytes option"
  fw_auth :: auth_context
  fw_permits :: "(u64 \<times> nat) option"
  fw_origin :: "string option"
  fw_format :: api_format
  fw_rate :: rate_limit_decision

record mw_result =
  mw_identity :: "(string \<times> string) option"
  mw_outcome :: "response + forwarded"

definition acquire_request :: "(u64 \<Rightarrow> rr \<Rightarrow> rr \<times> u64 option) \<Rightarrow> string \<Rightarrow> rr \<Rightarrow> rr \<times> u64 option" where
  "acquire_request wait key r =
     (case acquire_request_start key r of
        (r1, Granted i) \<Rightarrow> (r1, Some i)
      | (r1, Rejected) \<Rightarrow> (r1, None)
      | (r1, Queued i) \<Rightarrow> wait i r1)"

definition release_admission :: "u64 \<Rightarrow> rr \<Rightarrow> rr" where
  "release_admission i r = r\<lparr> rr_admission := permit_drop i (rr_admission r) \<rparr>"

definition client_name :: "proxy_config \<Rightarrow> auth_context \<Rightarrow> string" where
  "client_name config a =
     (case find (\<lambda>k. ak_id k = au_client_id a) (pc_api_keys config) of Some k \<Rightarrow> ak_name k | None \<Rightarrow> ''anonymous'')"

text \<open>
  The branch for inference: a concurrency permit, a reservation for the body, then the body.
  A refusal gives back what was taken before it.
\<close>

definition admit_inference ::
  "web \<Rightarrow> mw_env \<Rightarrow> proxy_config \<Rightarrow> request \<Rightarrow> api_format \<Rightarrow> string option \<Rightarrow> rate_limit_decision \<Rightarrow> string \<Rightarrow> rr
    \<Rightarrow> rr \<times> (response + (u64 \<times> nat) \<times> bytes)" where
  "admit_inference w env config req format origin rate client r =
     (let ok = wb_header_ok w; rid = me_rid env;
          limited = apply_rate_headers w format (rl_limit rate) (rl_remaining rate);
          finish = (\<lambda>resp. apply_cors_headers w origin resp);
          with_id = ensure_request_id_header ok (me_rid2 env) format
      in case acquire_request (me_wait env) client r of
           (r1, None) \<Rightarrow>
             (r1, Inl (finish (limited (with_id
               (try_header ok ''retry-after'' (show_nat (div_ceil (sat_add u64_max (pc_queue_timeout_ms config) 999) 1000))
                 (error_response ok rid format 429 ''router concurrency limit exceeded''))))))
         | (r1, Some i) \<Rightarrow>
             (case request_body_reservation w (rq_path req) (rq_headers req) of
                Inl e \<Rightarrow> (release_admission i r1, Inl (finish (limited (with_id (error_response ok rid format 413 e)))))
              | Inr reservation \<Rightarrow>
                  (case try_acquire_body_bytes reservation MAX_PROXY_IN_FLIGHT_BODY_BYTES r1 of
                     None \<Rightarrow>
                       (release_admission i r1,
                        Inl (finish (limited (with_id (add_header ''retry-after'' ''1''
                          (error_response ok rid format 429 ''router in-flight request body budget exceeded''))))))
                   | Some (r2, n) \<Rightarrow>
                       (case receive (request_body_limit (rq_path req)) (rq_upload_after req) (rq_body req) of
                          Inl status \<Rightarrow>
                            (release_admission i (body_permit_drop n r2),
                             Inl (finish (with_id (error_response ok rid format status
                               ''request body exceeded its receive limit or deadline''))))
                        | Inr bytes \<Rightarrow> (r2, Inr ((i, n), bytes))))))"

definition proxy_security_middleware ::
  "web \<Rightarrow> mw_env \<Rightarrow> proxy_config \<Rightarrow> request \<Rightarrow> rr \<Rightarrow> rr \<times> mw_result" where
  "proxy_security_middleware w env config req r =
     (let ok = wb_header_ok w; rid = me_rid env; hs = rq_headers req; path = rq_path req;
          format = request_format path (hm_get hs ''anthropic-version'' \<noteq> None)
      in case cors_origin w config hs of
           Inl e \<Rightarrow> (r, \<lparr> mw_identity = None, mw_outcome = Inl (error_response ok rid format 403 e) \<rparr>)
         | Inr origin \<Rightarrow>
             if rq_method req = ''OPTIONS'' then
               (r, \<lparr> mw_identity = None,
                     mw_outcome = Inl (ensure_request_id_header ok rid format
                       (apply_cors_headers w origin
                         \<lparr> rs_status = 204, rs_headers = [], rs_body = JNull, rs_failure = None \<rparr>)) \<rparr>)
             else case authenticate_proxy_request w config hs of
               None \<Rightarrow>
                 (r, \<lparr> mw_identity = None,
                       mw_outcome = Inl (apply_cors_headers w origin (error_response ok rid format 401 ''unauthorized'')) \<rparr>)
             | Some auth \<Rightarrow>
                 (let ident = (if rq_has_usage req then Some (au_client_id auth, client_name config auth) else None)
                  in if \<not> list_ex (\<lambda>s. s = request_scope path) (au_scopes auth) then
                       (r, \<lparr> mw_identity = ident, mw_outcome = Inl (apply_cors_headers w origin
                               (error_response ok rid format 403 ''API key scope denied'')) \<rparr>)
                     else case validate_anthropic_version w path hs of
                       Inl e \<Rightarrow>
                         (r, \<lparr> mw_identity = ident,
                               mw_outcome = Inl (apply_cors_headers w origin (error_response ok rid format 400 e)) \<rparr>)
                     | Inr _ \<Rightarrow>
                         (case check_rate_limit (me_t0 env) (me_t1 env) (me_t2 env) (au_client_id auth)
                                 (au_requests_per_minute auth) r of
                            (r1, rate) \<Rightarrow>
                              if \<not> rl_allowed rate then
                                (r1, \<lparr> mw_identity = ident, mw_outcome = Inl (apply_cors_headers w origin
                                  (apply_rate_headers w format (rl_limit rate) (rl_remaining rate)
                                    (try_header ok ''retry-after'' (show_nat (rl_retry_after_secs rate))
                                      (error_response ok rid format 429 ''rate limit exceeded'')))) \<rparr>)
                              else
                                (let forward = (\<lambda>permits body.
                                   \<lparr> fw_headers = hm_remove ''x-api-key'' (hm_remove ''authorization'' hs), fw_body = body,
                                     fw_auth = auth, fw_permits = permits, fw_origin = origin, fw_format = format,
                                     fw_rate = rate \<rparr>)
                                 in if rq_method req = ''POST'' \<and> request_scope path = ''inference'' then
                                      (case admit_inference w env config req format origin rate (au_client_id auth) r1 of
                                         (r2, Inl resp) \<Rightarrow> (r2, \<lparr> mw_identity = ident, mw_outcome = Inl resp \<rparr>)
                                       | (r2, Inr (permits, body)) \<Rightarrow>
                                           (r2, \<lparr> mw_identity = ident, mw_outcome = Inr (forward (Some permits) (Some body)) \<rparr>))
                                    else (r1, \<lparr> mw_identity = ident, mw_outcome = Inr (forward None None) \<rparr>)))))"

text \<open>What the middleware adds to the response of the handler; the delivery queue is in \<open>Proxy_Delivery\<close>.\<close>

definition finish_response :: "web \<Rightarrow> string \<Rightarrow> forwarded \<Rightarrow> response \<Rightarrow> response" where
  "finish_response w rid fw resp =
     apply_cors_headers w (fw_origin fw)
       (apply_rate_headers w (fw_format fw) (rl_limit (fw_rate fw)) (rl_remaining (fw_rate fw))
         (ensure_request_id_header (wb_header_ok w) rid (fw_format fw) resp))"

section \<open>The forwarded request\<close>

definition connection_header_tokens :: "web \<Rightarrow> headers \<Rightarrow> string list" where
  "connection_header_tokens w hs =
     filter (\<lambda>t. t \<noteq> [])
       (map (\<lambda>t. ascii_lowercase (trim t))
         (concat (map (split_on (CHR '',''))
           (List.map_filter (\<lambda>(name, v). if name = ''connection'' then wb_to_str w v else None) hs))))"

definition hop_by_hop_names :: "string list" where
  "hop_by_hop_names = [''connection'', ''keep-alive'', ''proxy-authenticate'', ''proxy-authorization'', ''te'',
     ''trailer'', ''transfer-encoding'', ''upgrade'']"

definition is_hop_by_hop_header :: "string \<Rightarrow> string list \<Rightarrow> bool" where
  "is_hop_by_hop_header name tokens \<longleftrightarrow> name \<in> set tokens \<or> name \<in> set hop_by_hop_names"

definition should_forward_request_header :: "string \<Rightarrow> string list \<Rightarrow> bool" where
  "should_forward_request_header name tokens \<longleftrightarrow>
     name \<notin> set [''host'', ''content-length'', ''accept-encoding'', ''authorization'', ''x-api-key'']
     \<and> \<not> is_hop_by_hop_header name tokens"

text \<open>\<open>RequestBuilder::header\<close> and \<open>bearer_auth\<close> add to the headers the request has.\<close>

definition apply_target_request_headers :: "web \<Rightarrow> headers \<Rightarrow> headers \<Rightarrow> resolved_target \<Rightarrow> headers" where
  "apply_target_request_headers w initial hs target =
     (let tokens = connection_header_tokens w hs;
          kept = initial @ filter (\<lambda>(name, _). should_forward_request_header (ascii_lowercase name) tokens) hs
      in if trim (rv_api_key target) = [] then kept
         else hdr_append ''authorization'' (''Bearer '' @ trim (rv_api_key target)) kept)"

definition target_url :: "resolved_target \<Rightarrow> string \<Rightarrow> string" where
  "target_url target original_path =
     (let prefix = trim_matches (CHR ''/'') (rv_api_prefix target);
          upstream_path =
            (if prefix = [] \<or> original_path = ''/'' @ prefix \<or> starts_with (''/'' @ prefix @ ''/'') original_path
                \<or> starts_with (''/'' @ prefix @ ''?'') original_path
             then original_path else ''/'' @ prefix @ original_path)
      in service_url (rv_scheme target) (pt_host (rv_public target)) (pt_port (rv_public target)) [] upstream_path)"

section \<open>Credentials\<close>

text \<open>The credentials a request presents.\<close>

definition presented :: "web \<Rightarrow> headers \<Rightarrow> string list" where
  "presented w hs =
     (case header_str w hs ''authorization'' of None \<Rightarrow> [] | Some v \<Rightarrow> [bearer_value (trim v)])
     @ (case header_str w hs ''x-api-key'' of None \<Rightarrow> [] | Some v \<Rightarrow> [v])"

text \<open>A key that is enabled and not blank, with a credential of the request that matches it.\<close>

definition key_accepts :: "web \<Rightarrow> headers \<Rightarrow> proxy_api_key \<Rightarrow> bool" where
  "key_accepts w hs k \<longleftrightarrow> ak_enabled k \<and> trim (ak_key k) \<noteq> []
     \<and> list_ex (proxy_api_key_matches (wb_digest w) (trim (ak_key k))) (presented w hs)"

lemma authorized_iff:
  "trim k \<noteq> [] \<Longrightarrow> is_proxy_authorized w k hs \<longleftrightarrow> list_ex (proxy_api_key_matches (wb_digest w) (trim k)) (presented w hs)"
  by (simp add: is_proxy_authorized_def presented_def Let_def split: option.split)

lemma find_filter: "find p (filter q xs) = find (\<lambda>x. q x \<and> p x) xs"
  by (induction xs) auto

lemma find_eq: "(\<And>x. x \<in> set xs \<Longrightarrow> p x = q x) \<Longrightarrow> find p xs = find q xs"
  by (induction xs) auto

lemma authenticate_eq:
  "authenticate_proxy_request w config hs =
     (if pc_api_keys config = [] then Some (anonymous_context config)
      else map_option (key_context config) (find (key_accepts w hs) (pc_api_keys config)))"
proof -
  have "find (\<lambda>k. is_proxy_authorized w (ak_key k) hs)
      (filter (\<lambda>k. ak_enabled k \<and> trim (ak_key k) \<noteq> []) (pc_api_keys config)) = find (key_accepts w hs) (pc_api_keys config)"
    unfolding find_filter by (rule find_eq) (auto simp: key_accepts_def authorized_iff)
  then show ?thesis by (simp add: authenticate_proxy_request_def)
qed

text \<open>
  C22. Authentication is exact: without configured keys every request is the anonymous client, with
  configured keys (even if all of them are disabled) a request is authenticated exactly when an
  enabled, non-blank key matches a credential it presents, it then acts as the first such
  key with its scopes and rate, and the authorisation is lost as soon as that key is disabled,
  removed or replaced, or loses the scope.
\<close>

theorem auth_correct:
  "(pc_api_keys config = [] \<longrightarrow> authenticate_proxy_request w config hs = Some (anonymous_context config))
   \<and> (pc_api_keys config \<noteq> [] \<longrightarrow>
        (authenticate_proxy_request w config hs = None \<longleftrightarrow> \<not> list_ex (key_accepts w hs) (pc_api_keys config))
      \<and> (\<forall>a. authenticate_proxy_request w config hs = Some a \<longrightarrow>
           (\<exists>before k after. pc_api_keys config = before @ k # after \<and> key_accepts w hs k
              \<and> \<not> list_ex (key_accepts w hs) before \<and> a = key_context config k
              \<and> (still_authorized a config' path \<longleftrightarrow>
                   list_ex (\<lambda>k'. ak_id k' = ak_id k \<and> ak_enabled k' \<and> ak_key k' = ak_key k
                              \<and> request_scope path \<in> set (ak_scopes k')) (pc_api_keys config')))))"
proof (intro conjI impI allI)
  assume ne: "pc_api_keys config \<noteq> []"
  show "authenticate_proxy_request w config hs = None \<longleftrightarrow> \<not> list_ex (key_accepts w hs) (pc_api_keys config)"
    using ne by (simp add: authenticate_eq find_None_all list_ex_iff)
  fix a assume "authenticate_proxy_request w config hs = Some a"
  then obtain k where k: "find (key_accepts w hs) (pc_api_keys config) = Some k" "a = key_context config k"
    using ne by (auto simp: authenticate_eq)
  then obtain i where i: "i < length (pc_api_keys config)" "key_accepts w hs (pc_api_keys config ! i)"
    "k = pc_api_keys config ! i" "\<forall>j<i. \<not> key_accepts w hs (pc_api_keys config ! j)"
    unfolding find_Some_iff by blast
  have "pc_api_keys config = take i (pc_api_keys config) @ k # drop (Suc i) (pc_api_keys config)"
    using i by (simp add: id_take_nth_drop)
  moreover have "\<not> list_ex (key_accepts w hs) (take i (pc_api_keys config))"
    using i by (auto simp: list_ex_iff in_set_conv_nth)
  moreover have "still_authorized a config' path \<longleftrightarrow>
       list_ex (\<lambda>k'. ak_id k' = ak_id k \<and> ak_enabled k' \<and> ak_key k' = ak_key k
           \<and> request_scope path \<in> set (ak_scopes k')) (pc_api_keys config')"
    by (auto simp: still_authorized_def k(2) key_context_def constant_time_eq_iff list_ex_iff)
  ultimately show "\<exists>before k after. pc_api_keys config = before @ k # after \<and> key_accepts w hs k
      \<and> \<not> list_ex (key_accepts w hs) before \<and> a = key_context config k
      \<and> (still_authorized a config' path \<longleftrightarrow>
           list_ex (\<lambda>k'. ak_id k' = ak_id k \<and> ak_enabled k' \<and> ak_key k' = ak_key k
               \<and> request_scope path \<in> set (ak_scopes k')) (pc_api_keys config'))"
    using i(2,3) k(2) by blast
qed (simp add: authenticate_eq)

section \<open>The access policy\<close>

text \<open>The policy the middleware implements, as a pure decision on configuration and request.\<close>

datatype verdict = OriginDenied | Preflight | Unauthenticated | ScopeDenied | VersionDenied | Allowed auth_context

definition access_policy :: "web \<Rightarrow> proxy_config \<Rightarrow> request \<Rightarrow> verdict" where
  "access_policy w config req =
     (case cors_origin w config (rq_headers req) of
        Inl _ \<Rightarrow> OriginDenied
      | Inr _ \<Rightarrow>
          if rq_method req = ''OPTIONS'' then Preflight
          else case authenticate_proxy_request w config (rq_headers req) of
            None \<Rightarrow> Unauthenticated
          | Some a \<Rightarrow>
              if request_scope (rq_path req) \<notin> set (au_scopes a) then ScopeDenied
              else (case validate_anthropic_version w (rq_path req) (rq_headers req) of
                      Inl _ \<Rightarrow> VersionDenied | Inr _ \<Rightarrow> Allowed a))"

fun verdict_status :: "verdict \<Rightarrow> nat" where
  "verdict_status OriginDenied = 403"
| "verdict_status Preflight = 204"
| "verdict_status Unauthenticated = 401"
| "verdict_status ScopeDenied = 403"
| "verdict_status VersionDenied = 400"
| "verdict_status (Allowed a) = 200"

lemma cors_status [simp]: "rs_status (apply_cors_headers w origin r) = rs_status r"
  by (simp add: apply_cors_headers_def Let_def split: option.split)

lemma rate_status [simp]: "rs_status (apply_rate_headers w f l m r) = rs_status r"
  by (simp add: apply_rate_headers_def)

lemma error_status [simp]: "rs_status (error_response ok rid f s m) = s"
  by (simp add: error_response_def)

lemma receive_status: "receive_loop limit after acc es = Inl s \<Longrightarrow> s \<in> {400, 408, 413}"
  by (induction limit after acc es rule: receive_loop.induct) (auto split: if_splits)

lemma admit_inference_status:
  "admit_inference w env config req f origin rate client r = (r', Inl resp) \<Longrightarrow> rs_status resp \<in> {400, 408, 413, 429}"
  using receive_status
  by (fastforce simp: admit_inference_def Let_def receive_def split: prod.splits option.splits sum.splits)

lemma mw_denied:
  assumes "access_policy w config req = v" "\<And>a. v \<noteq> Allowed a"
  shows "\<exists>resp ident. proxy_security_middleware w env config req r = (r, \<lparr> mw_identity = ident, mw_outcome = Inl resp \<rparr>)
    \<and> rs_status resp = verdict_status v"
  using assms
  by (auto simp: access_policy_def proxy_security_middleware_def Let_def list_ex_iff
      split: sum.splits option.splits if_splits)

lemma mw_allowed:
  assumes "access_policy w config req = Allowed a"
    and "check_rate_limit (me_t0 env) (me_t1 env) (me_t2 env) (au_client_id a) (au_requests_per_minute a) r = (r1, rate)"
    and "proxy_security_middleware w env config req r = (r', res)"
  obtains (limited) resp where "r' = r1" "mw_outcome res = Inl resp" "rs_status resp = 429"
  | (plain) fw where "r' = r1" "mw_outcome res = Inr fw" "fw_auth fw = a" "fw_permits fw = None"
      "fw_headers fw = hm_remove ''x-api-key'' (hm_remove ''authorization'' (rq_headers req))"
  | (refused) format origin resp where
      "admit_inference w env config req format origin rate (au_client_id a) r1 = (r', Inl resp)" "mw_outcome res = Inl resp"
  | (admitted) format origin permits body fw where
      "admit_inference w env config req format origin rate (au_client_id a) r1 = (r', Inr (permits, body))"
      "mw_outcome res = Inr fw" "fw_auth fw = a" "fw_permits fw = Some permits"
      "fw_headers fw = hm_remove ''x-api-key'' (hm_remove ''authorization'' (rq_headers req))"
proof -
  obtain origin where o: "cors_origin w config (rq_headers req) = Inr origin"
    using assms(1) by (auto simp: access_policy_def split: sum.splits)
  have rest: "rq_method req \<noteq> ''OPTIONS''" "authenticate_proxy_request w config (rq_headers req) = Some a"
    "request_scope (rq_path req) \<in> set (au_scopes a)" "validate_anthropic_version w (rq_path req) (rq_headers req) = Inr ()"
    using assms(1) o by (auto simp: access_policy_def split: sum.splits option.splits if_splits)
  have sc: "list_ex (\<lambda>s. s = request_scope (rq_path req)) (au_scopes a)" using rest(3) by (simp add: list_ex_iff)
  let ?f = "request_format (rq_path req) (hm_get (rq_headers req) ''anthropic-version'' \<noteq> None)"
  obtain r2 res2 where ai: "admit_inference w env config req ?f origin rate (au_client_id a) r1 = (r2, res2)" by fastforce
  have if1: "(if rq_method req = ''OPTIONS'' then x else y) = y" for x y :: "rr \<times> mw_result" using rest(1) by simp
  have if2: "(if \<not> list_ex (\<lambda>s. s = request_scope (rq_path req)) (au_scopes a) then x else y) = y" for x y :: "rr \<times> mw_result"
    using sc by simp
  note d = assms(3) [unfolded proxy_security_middleware_def Let_def o rest(2,4) sum.case option.case assms(2) prod.case ai if1 if2]
  show thesis
  proof (cases "rl_allowed rate")
    case False
    then show ?thesis using d limited by auto
  next
    case True
    show ?thesis
    proof (cases "rq_method req = ''POST'' \<and> request_scope (rq_path req) = ''inference''")
      case False
      then show ?thesis using d True plain by auto
    next
      case post: True
      show ?thesis
      proof (cases res2)
        case (Inl resp)
        then show ?thesis using d True post refused ai by auto
      next
        case (Inr pb)
        then show ?thesis using d True post admitted ai by (cases pb) auto
      qed
    qed
  qed
qed

text \<open>
  C23. The security middleware implements the access policy: a request the policy denies is answered
  with the status of the verdict and leaves the whole run-time state as it was, rate-limit
  tokens included; a request it allows is either forwarded as the client the policy names, with
  every credential removed from its headers, or refused for rate, capacity or its body.
\<close>

theorem middleware_refines_policy:
  "case proxy_security_middleware w env config req r of (r', res) \<Rightarrow>
     (case access_policy w config req of
        Allowed a \<Rightarrow>
          (case mw_outcome res of
             Inl resp \<Rightarrow> rs_status resp \<in> {400, 408, 413, 429}
           | Inr fw \<Rightarrow> fw_auth fw = a \<and> hm_get (fw_headers fw) ''authorization'' = None
               \<and> hm_get (fw_headers fw) ''x-api-key'' = None)
      | v \<Rightarrow> r' = r \<and> (\<exists>resp. mw_outcome res = Inl resp \<and> rs_status resp = verdict_status v))"
proof (cases "access_policy w config req")
  case (Allowed a)
  obtain r1 rate where c: "check_rate_limit (me_t0 env) (me_t1 env) (me_t2 env) (au_client_id a)
      (au_requests_per_minute a) r = (r1, rate)" by fastforce
  obtain r' res where m: "proxy_security_middleware w env config req r = (r', res)" by fastforce
  show ?thesis
    using Allowed c m
  proof (cases rule: mw_allowed)
    case (refused format origin resp)
    then show ?thesis using Allowed m admit_inference_status [OF refused(1)] by simp
  qed (use Allowed m in simp_all)
qed (use mw_denied [of w config req _ env r] in fastforce)+

section \<open>Permits\<close>

lemma check_rate_frame:
  "check_rate_limit t0 t1 t2 c l r = (r1, d) \<Longrightarrow>
   rr_admission r1 = rr_admission r \<and> rr_in_flight_body_bytes r1 = rr_in_flight_body_bytes r"
  by (auto simp: check_rate_limit_def Let_def split: if_splits)

text \<open>A gate that does not queue: every request is decided at once.\<close>

definition never_queues :: "adm \<Rightarrow> bool" where
  "never_queues s \<longleftrightarrow> (\<forall>key s' i. acquire_start key s \<noteq> (s', Queued i))"

lemma acquire_request_cases:
  assumes "adm_ok n (rr_admission r)" "n < 2 ^ 64" "never_queues (rr_admission r)"
    and "acquire_request wait key r = (r1, p)"
  shows "rr_in_flight_body_bytes r1 = rr_in_flight_body_bytes r
    \<and> (case p of
         None \<Rightarrow> rr_admission r1 = rr_admission r
       | Some i \<Rightarrow> in_flight_requests r1 = in_flight_requests r + 1
           \<and> permit_drop i (rr_admission r1) = (rr_admission r)\<lparr> adm_next := adm_next (rr_admission r) + 1 \<rparr>)"
proof -
  obtain s res where s: "acquire_start key (rr_admission r) = (s, res)" by fastforce
  have "res \<noteq> Queued i" for i using s assms(3) by (auto simp: never_queues_def)
  then consider (granted) i where "res = Granted i" | (rejected) "res = Rejected" by (cases res) auto
  then show ?thesis
  proof cases
    case granted
    note g = s [unfolded granted]
    have f: "i \<notin> fst ` set (adm_active (rr_admission r))"
      using ids_ok_next_fresh(4) [OF adm_okD(2) [OF assms(1)] assms(2)] acquire_start_GrantedD(1) [OF g] by simp
    have "length (adm_active s) = length (adm_active (rr_admission r)) + 1"
      using f acquire_start_GrantedD(1,2) [OF g] by (simp add: admit_def hm_length_insert_new)
    then show ?thesis
      using assms(4) s granted granted_released [OF assms(1,2) g]
      by (auto simp: acquire_request_def acquire_request_start_def count_request_def in_flight_requests_def active_count_def)
  next
    case rejected
    have "s = rr_admission r" using s rejected by (auto simp: acquire_start_def Let_def split: if_splits)
    then show ?thesis using assms(4) s rejected by (auto simp: acquire_request_def acquire_request_start_def)
  qed
qed

lemma body_bytes_cases:
  assumes "try_acquire_body_bytes m limit r = Some (r2, k)" "limit < 2 ^ 64"
  shows "k = m \<and> rr_admission r2 = rr_admission r \<and> rr_in_flight_body_bytes r2 = rr_in_flight_body_bytes r + m
    \<and> rr_in_flight_body_bytes r2 \<le> limit
    \<and> rr_admission (body_permit_drop m r2) = rr_admission r
    \<and> rr_in_flight_body_bytes (body_permit_drop m r2) = rr_in_flight_body_bytes r"
  using assms
  by (auto simp: try_acquire_body_bytes_def body_bytes_next_def body_permit_drop_def fetch_sub_def
      split: option.splits if_splits)

text \<open>The permits a state holds: requests in flight and reserved body bytes.\<close>

definition held :: "rr \<Rightarrow> nat \<times> nat" where
  "held r = (in_flight_requests r, rr_in_flight_body_bytes r)"

lemma held_release:
  assumes "permit_drop i (rr_admission r1) = (rr_admission r)\<lparr> adm_next := x \<rparr>"
    and "rr_in_flight_body_bytes r1 = rr_in_flight_body_bytes r"
  shows "held (release_admission i r1) = held r"
  using assms by (simp add: held_def release_admission_def in_flight_requests_def active_count_def)

lemma admit_inference_held:
  assumes "adm_ok n (rr_admission r)" "n < 2 ^ 64" "never_queues (rr_admission r)"
    and "admit_inference w env config req f origin rate client r = (r', res)"
  shows "case res of
       Inl _ \<Rightarrow> held r' = held r
     | Inr ((i, m), _) \<Rightarrow> held r' = (fst (held r) + 1, snd (held r) + m) \<and> snd (held r') \<le> MAX_PROXY_IN_FLIGHT_BODY_BYTES
         \<and> held (release_admission i (body_permit_drop m r')) = held r"
proof -
  obtain r1 p where a: "acquire_request (me_wait env) client r = (r1, p)" by fastforce
  note ac = acquire_request_cases [OF assms(1-3) a]
  note d = assms(4) [unfolded admit_inference_def Let_def a prod.case]
  show ?thesis
  proof (cases p)
    case None
    then show ?thesis using d ac by (auto simp: held_def in_flight_requests_def)
  next
    case (Some i)
    have i: "in_flight_requests r1 = in_flight_requests r + 1"
      "permit_drop i (rr_admission r1) = (rr_admission r)\<lparr> adm_next := adm_next (rr_admission r) + 1 \<rparr>"
      "rr_in_flight_body_bytes r1 = rr_in_flight_body_bytes r" using ac Some by simp_all
    note bk = held_release [OF i(2,3)]
    show ?thesis
    proof (cases "request_body_reservation w (rq_path req) (rq_headers req)")
      case (Inl e)
      then show ?thesis using d Some bk by auto
    next
      case (Inr m)
      show ?thesis
      proof (cases "try_acquire_body_bytes m MAX_PROXY_IN_FLIGHT_BODY_BYTES r1")
        case None
        then show ?thesis using d Some Inr bk by auto
      next
        case (Some rk)
        then obtain r2 k where t: "try_acquire_body_bytes m MAX_PROXY_IN_FLIGHT_BODY_BYTES r1 = Some (r2, k)"
          by (cases rk) auto
        have b: "k = m" "rr_admission r2 = rr_admission r1" "rr_in_flight_body_bytes r2 = rr_in_flight_body_bytes r1 + m"
          "rr_in_flight_body_bytes r2 \<le> MAX_PROXY_IN_FLIGHT_BODY_BYTES"
          "rr_admission (body_permit_drop m r2) = rr_admission r1"
          "rr_in_flight_body_bytes (body_permit_drop m r2) = rr_in_flight_body_bytes r1"
          using body_bytes_cases [OF t] by (simp_all add: MAX_PROXY_IN_FLIGHT_BODY_BYTES_def)
        have bk2: "held (release_admission i (body_permit_drop m r2)) = held r"
          by (rule held_release [where x = "adm_next (rr_admission r) + 1"]) (use b i in simp_all)
        show ?thesis
        proof (cases "receive (request_body_limit (rq_path req)) (rq_upload_after req) (rq_body req)")
          case (Inl s)
          then show ?thesis using d \<open>p = Some i\<close> Inr t b(1) bk2 by auto
        next
          case (Inr bytes)
          then show ?thesis
            using d \<open>p = Some i\<close> \<open>request_body_reservation w (rq_path req) (rq_headers req) = Inr m\<close> t b i bk2
            by (auto simp: held_def in_flight_requests_def)
        qed
      qed
    qed
  qed
qed

text \<open>
  The middleware leaks no permits: after a refusal, at whatever stage, as many requests are in
  flight and as many body bytes are reserved as before; a forwarded inference request holds
  exactly one concurrency permit and its body reservation, within the byte budget, and
  releasing them restores the state; nothing else holds a permit.
\<close>

theorem middleware_permits:
  assumes "reach adm_init adm_step (n, rr_admission r)" and "n < 2 ^ 64" and "never_queues (rr_admission r)"
    and "proxy_security_middleware w env config req r = (r', res)"
  shows "case mw_outcome res of
       Inl _ \<Rightarrow> held r' = held r
     | Inr fw \<Rightarrow>
         (case fw_permits fw of
            None \<Rightarrow> held r' = held r
          | Some (i, m) \<Rightarrow> held r' = (fst (held r) + 1, snd (held r) + m) \<and> snd (held r') \<le> MAX_PROXY_IN_FLIGHT_BODY_BYTES
              \<and> held (release_admission i (body_permit_drop m r')) = held r)"
proof -
  note ok = reach_ok [OF assms(1) less_imp_le [OF assms(2)]]
  show ?thesis
  proof (cases "access_policy w config req")
    case (Allowed a)
    obtain r1 rate where c: "check_rate_limit (me_t0 env) (me_t1 env) (me_t2 env) (au_client_id a)
        (au_requests_per_minute a) r = (r1, rate)" by fastforce
    have fr: "rr_admission r1 = rr_admission r" "rr_in_flight_body_bytes r1 = rr_in_flight_body_bytes r"
      using check_rate_frame [OF c] by simp_all
    have h1: "held r1 = held r" using fr by (simp add: held_def in_flight_requests_def)
    note ai = admit_inference_held [of n r1, unfolded fr h1, OF ok assms(2,3)]
    show ?thesis
      using Allowed c assms(4)
    proof (cases rule: mw_allowed)
      case (refused format origin resp)
      then show ?thesis using ai [OF refused(1)] by simp
    next
      case (admitted format origin permits body fw)
      then show ?thesis using ai [OF admitted(1)] by (simp split: prod.splits)
    qed (use h1 in simp_all)
  qed (use mw_denied [of w config req _ env r] assms(4) in fastforce)+
qed

section \<open>Headers that cross the router\<close>

lemma fold_remove: "fold hm_remove ns hs = filter (\<lambda>e. fst e \<notin> set ns) hs"
proof (induction ns arbitrary: hs)
  case (Cons n ns)
  have "fold hm_remove (n # ns) hs = filter (\<lambda>e. fst e \<notin> set ns) (filter (\<lambda>p. fst p \<noteq> n) hs)"
    by (simp add: Cons.IH hm_remove_filter)
  also have "\<dots> = filter (\<lambda>e. fst e \<notin> set (n # ns)) hs" by (simp add: conj_commute)
  finally show ?case .
qed simp

lemma hdr_insert_new: "n \<notin> fst ` set hs \<Longrightarrow> hdr_insert n v hs = hs @ [(n, v)]"
  by (simp add: hdr_insert_def delete_id)

text \<open>The access-control headers the router itself sets.\<close>

definition own_cors :: "string option \<Rightarrow> headers" where
  "own_cors origin =
     (case origin of
        None \<Rightarrow> []
      | Some o' \<Rightarrow>
         [(''access-control-allow-origin'', o'),
          (''access-control-allow-methods'', ''GET, POST, OPTIONS''),
          (''access-control-allow-headers'',
           ''authorization, content-type, x-api-key, anthropic-version, anthropic-beta, x-request-id, openai-organization, openai-project''),
          (''access-control-expose-headers'',
           ''request-id, x-request-id, x-lsm-request-id, retry-after, x-ratelimit-limit-requests, x-ratelimit-remaining-requests, anthropic-ratelimit-requests-limit, anthropic-ratelimit-requests-remaining''),
          (''access-control-max-age'', ''600'')])"

lemma cors_headers_eq:
  assumes "\<And>o'. origin = Some o' \<Longrightarrow> wb_header_ok w o'"
  shows "rs_headers (apply_cors_headers w origin r)
    = filter (\<lambda>e. fst e \<notin> set cors_names) (rs_headers r) @ [(''vary'', ''Origin'')] @ own_cors origin"
proof (cases origin)
  case None
  then show ?thesis by (simp add: apply_cors_headers_def fold_remove hdr_append_def own_cors_def)
next
  case (Some o')
  define base where "base = filter (\<lambda>e. fst e \<notin> set cors_names) (rs_headers r) @ [(''vary'', ''Origin'')]"
  have fresh: "n \<notin> fst ` set base" if "n \<in> set cors_names" for n
    using that by (auto simp: base_def cors_names_def)
  have n: "''access-control-allow-origin'' \<in> set cors_names" "''access-control-allow-methods'' \<in> set cors_names"
    "''access-control-allow-headers'' \<in> set cors_names" "''access-control-expose-headers'' \<in> set cors_names"
    "''access-control-max-age'' \<in> set cors_names" by (simp_all add: cors_names_def)
  note fr = fresh [OF n(1)] fresh [OF n(2)] fresh [OF n(3)] fresh [OF n(4)] fresh [OF n(5)]
  have "rs_headers (apply_cors_headers w origin r) = base @ own_cors origin"
    using assms Some fr
    by (simp add: apply_cors_headers_def fold_remove hdr_append_def base_def [symmetric] add_header_def try_header_def
        hdr_insert_new own_cors_def Let_def)
  then show ?thesis by (simp add: base_def)
qed

text \<open>
  Browser policy and credentials stop at the router: in a response the access-control headers are
  the router's own, whatever the upstream sent, with the origin exactly when the request's
  origin is allowed; and the forwarded request has no credential but the target's key, no
  hop-by-hop header and none that the client's Connection header names, while all other
  headers pass unchanged and in order.
\<close>

theorem header_boundary:
  assumes "cors_origin w config hs = Inr origin" and "\<And>o'. origin = Some o' \<Longrightarrow> wb_header_ok w o'"
  shows "rs_headers (apply_cors_headers w origin resp)
      = filter (\<lambda>e. fst e \<notin> set cors_names) (rs_headers resp) @ [(''vary'', ''Origin'')] @ own_cors origin
    \<and> (\<forall>o'. origin = Some o' \<longrightarrow> list_ex (\<lambda>allowed. ascii_lowercase allowed = ascii_lowercase o') (pc_cors_allowed_origins config))
    \<and> apply_target_request_headers w [] hs target
      = filter (\<lambda>e. ascii_lowercase (fst e)
            \<notin> set ([''host'', ''content-length'', ''accept-encoding'', ''authorization'', ''x-api-key'']
                   @ hop_by_hop_names @ connection_header_tokens w hs)) hs
        @ (if trim (rv_api_key target) = [] then [] else [(''authorization'', ''Bearer '' @ trim (rv_api_key target))])"
proof (intro conjI allI impI)
  show "rs_headers (apply_cors_headers w origin resp)
      = filter (\<lambda>e. fst e \<notin> set cors_names) (rs_headers resp) @ [(''vary'', ''Origin'')] @ own_cors origin"
    by (rule cors_headers_eq) (rule assms(2))
  show "list_ex (\<lambda>allowed. ascii_lowercase allowed = ascii_lowercase o') (pc_cors_allowed_origins config)"
    if "origin = Some o'" for o'
    using assms(1) that by (auto simp: cors_origin_def Let_def eq_ignore_ascii_case_def split: option.splits if_splits)
  have s: "should_forward_request_header name (connection_header_tokens w hs)
         = (name \<notin> set ([''host'', ''content-length'', ''accept-encoding'', ''authorization'', ''x-api-key'']
                         @ hop_by_hop_names @ connection_header_tokens w hs))" for name
    by (auto simp: should_forward_request_header_def is_hop_by_hop_header_def)
  show "apply_target_request_headers w [] hs target
      = filter (\<lambda>e. ascii_lowercase (fst e)
            \<notin> set ([''host'', ''content-length'', ''accept-encoding'', ''authorization'', ''x-api-key'']
                   @ hop_by_hop_names @ connection_header_tokens w hs)) hs
        @ (if trim (rv_api_key target) = [] then [] else [(''authorization'', ''Bearer '' @ trim (rv_api_key target))])"
    unfolding s [symmetric] by (simp add: apply_target_request_headers_def Let_def hdr_append_def case_prod_unfold)
qed

section \<open>A concrete request\<close>

definition demo_web :: web where
  "demo_web = \<lparr> wb_to_str = Some, wb_header_ok = (\<lambda>_. True), wb_digest = sample_digest \<rparr>"

definition demo_env :: mw_env where
  "demo_env = \<lparr> me_rid = ''req_1'', me_rid2 = ''req_2'', me_t0 = 0, me_t1 = 0, me_t2 = 0, me_wait = (\<lambda>i r. (r, None)) \<rparr>"

definition demo_request :: request where
  "demo_request = \<lparr> rq_method = ''POST'', rq_path = ''/v1/completions'', rq_headers = [], rq_body = [Chunk ''{}''],
     rq_upload_after = None, rq_has_usage = False \<rparr>"

lemma default_gate: "never_queues (rr_admission rr_default)" "reach adm_init adm_step (0, rr_admission rr_default)"
  by (auto simp: never_queues_def rr_default_def acquire_start_def adm_default_def available_def key_limit_def selected_def
      hm_get_or_def Let_def adm_init_def intro!: reach_init)

theorem auth_correct_witness:
  "authenticate_proxy_request demo_web
     (proxy_config_default\<lparr> pc_api_keys := [(proxy_api_key_default ''k'')\<lparr> ak_enabled := False \<rparr>] \<rparr>) [] = None"
  using auth_correct [of "proxy_config_default\<lparr> pc_api_keys := [(proxy_api_key_default ''k'')\<lparr> ak_enabled := False \<rparr>] \<rparr>"
      demo_web "[]"]
  by (simp add: key_accepts_def)

theorem middleware_permits_witness:
  "\<exists>r' res. proxy_security_middleware demo_web demo_env proxy_config_default demo_request rr_default = (r', res)
     \<and> (case mw_outcome res of
          Inl _ \<Rightarrow> held r' = held rr_default
        | Inr fw \<Rightarrow>
            (case fw_permits fw of
               None \<Rightarrow> held r' = held rr_default
             | Some (i, m) \<Rightarrow> held (release_admission i (body_permit_drop m r')) = held rr_default))"
proof -
  obtain r' res where m: "proxy_security_middleware demo_web demo_env proxy_config_default demo_request rr_default = (r', res)"
    by fastforce
  show ?thesis
    using middleware_permits [OF default_gate(2) _ default_gate(1) m] m
    by (auto split: sum.splits option.splits prod.splits)
qed

theorem header_boundary_witness:
  "rs_headers (apply_cors_headers demo_web None
      \<lparr> rs_status = 200, rs_headers = [(''access-control-allow-origin'', ''*'')], rs_body = JNull, rs_failure = None \<rparr>)
   = [(''vary'', ''Origin'')]"
proof -
  have "cors_origin demo_web proxy_config_default [] = Inr None" by (simp add: cors_origin_def header_str_def)
  from header_boundary [OF this, of "\<lparr> rs_status = 200, rs_headers = [(''access-control-allow-origin'', ''*'')],
      rs_body = JNull, rs_failure = None \<rparr>"] show ?thesis by (simp add: cors_names_def own_cors_def)
qed

end
