(* ===== verification/Proxy_Discovery.thy ===== *)
theory Proxy_Discovery
  imports Proxy_Auth
begin

text \<open>
  Health probes and what the router tells about its targets (\<open>src-tauri/src/commands/proxy.rs\<close>):
  the probe of a target, the status and readiness summaries, the sanitised \<open>/props\<close> and \<open>/slots\<close>
  views and the model descriptors.  \<open>fetch t path\<close> stands for the HTTP request
  \<open>fetch_target_json\<close> to a target and gives an error text or a JSON value; clock readings are
  arguments.
\<close>

type_synonym fetcher = "resolved_target \<Rightarrow> string \<Rightarrow> string + json"

section \<open>Probes\<close>

definition or_else :: "'a option \<Rightarrow> 'a option \<Rightarrow> 'a option" where
  "or_else x y = (case x of Some v \<Rightarrow> Some v | None \<Rightarrow> y)"

definition caps_from_props :: "nat \<Rightarrow> json \<Rightarrow> target_capabilities \<Rightarrow> target_capabilities" where
  "caps_from_props now props c =
     c\<lparr> cap_context_length :=
          or_else (Option.bind (json_pointer2 props ''default_generation_settings'' ''n_ctx'') as_u64) (cap_context_length c),
        cap_total_slots := or_else (json_field as_u64 props ''total_slots'') (cap_total_slots c),
        cap_modalities := (case json_get props ''modalities'' of Some v \<Rightarrow> v | None \<Rightarrow> cap_modalities c),
        cap_chat_template_caps :=
          (case json_get props ''chat_template_caps'' of Some v \<Rightarrow> v | None \<Rightarrow> cap_chat_template_caps c),
        cap_is_sleeping := or_else (json_field as_bool props ''is_sleeping'') (cap_is_sleeping c),
        cap_updated_at_ms := now \<rparr>"

definition min_option :: "nat list \<Rightarrow> nat option" where
  "min_option xs = (if xs = [] then None else Some (Min (set xs)))"

definition caps_from_slots :: "json list \<Rightarrow> target_capabilities \<Rightarrow> target_capabilities" where
  "caps_from_slots items c =
     c\<lparr> cap_total_slots := Some (length items),
        cap_busy_slots := Some (length (filter (\<lambda>s. json_field as_bool s ''is_processing'' = Some True) items)),
        cap_context_length :=
          or_else (min_option (List.map_filter (\<lambda>s. json_field as_u64 s ''n_ctx'') items)) (cap_context_length c) \<rparr>"

text \<open>\<open>now\<close> is \<open>current_time_ms().max(0)\<close>.\<close>

definition capabilities_from_values ::
  "nat \<Rightarrow> json option \<Rightarrow> json option \<Rightarrow> target_capabilities \<Rightarrow> target_capabilities" where
  "capabilities_from_values now props slots previous =
     (let c1 = (case props of None \<Rightarrow> previous | Some p \<Rightarrow> caps_from_props now p previous)
      in case Option.bind slots as_array of None \<Rightarrow> c1 | Some items \<Rightarrow> caps_from_slots items c1)"

definition TARGET_CAPABILITY_MAX_AGE_MS :: nat where
  "TARGET_CAPABILITY_MAX_AGE_MS = 60000"

text \<open>
  A probe reads the target and the state, then writes its result; other requests may run in
  between, so the two halves take their own states.
\<close>

datatype probe_result = ProbeFailed string | ProbeOk rat target_capabilities

definition probe_health :: "fetcher \<Rightarrow> resolved_target \<Rightarrow> string + json" where
  "probe_health fetch t =
     (if rv_engine_kind t = Gufo
      then (case fetch t ''/ready'' of
              Inl e \<Rightarrow> Inl e
            | Inr v \<Rightarrow>
                if json_field as_str v ''status'' = Some ''ready''
                   \<and> json_field as_str v ''model'' = Some (rv_upstream_model_id t)
                then Inr v else Inl ''Gufo model is not ready or its identity does not match'')
      else fetch t ''/health'')"

definition ok_of :: "string + json \<Rightarrow> json option" where
  "ok_of x = (case x of Inl _ \<Rightarrow> None | Inr v \<Rightarrow> Some v)"

definition probe_read :: "fetcher \<Rightarrow> nat \<Rightarrow> nat \<Rightarrow> rat \<Rightarrow> resolved_target \<Rightarrow> rr \<Rightarrow> probe_result" where
  "probe_read fetch checked updated latency t r =
     (case probe_health fetch t of
        Inl e \<Rightarrow> ProbeFailed e
      | Inr _ \<Rightarrow>
          (let previous = hs_capabilities (target_snapshot checked checked (rv_id t) r);
               props = (if capabilities_stale checked (rv_id t) TARGET_CAPABILITY_MAX_AGE_MS r
                        then ok_of (fetch t ''/props'') else None);
               slots = ok_of (fetch t ''/slots'')
           in ProbeOk latency (capabilities_from_values updated props slots previous)))"

definition probe_write :: "proxy_config \<Rightarrow> nat \<Rightarrow> resolved_target \<Rightarrow> probe_result \<Rightarrow> rr \<Rightarrow> rr" where
  "probe_write config now t res r =
     (case res of
        ProbeFailed e \<Rightarrow>
          mark_probe_failure now (rv_id t) e (if rv_engine_kind t = Gufo then 1 else pc_unhealthy_threshold config)
            (pc_recovery_cooldown_ms config) r
      | ProbeOk latency caps \<Rightarrow> mark_probe_success now (rv_id t) latency (Some caps) r)"

definition probe_target :: "fetcher \<Rightarrow> nat \<times> nat \<times> nat \<Rightarrow> rat \<Rightarrow> resolved_target \<Rightarrow> proxy_config \<Rightarrow> rr \<Rightarrow> rr" where
  "probe_target fetch clock latency t config r =
     (case clock of (checked, updated, now) \<Rightarrow>
        probe_write config now t (probe_read fetch checked updated latency t r) r)"

text \<open>
  One round: targets that are gone are forgotten, then all others are probed.  The code runs the
  probes concurrently; this is the round in which they take effect one after the other.
\<close>

definition probe_snapshot_targets ::
  "(string \<Rightarrow> string option) \<Rightarrow> fetcher \<Rightarrow> (string \<Rightarrow> nat \<times> nat \<times> nat) \<Rightarrow> (string \<Rightarrow> rat) \<Rightarrow> proxy_snapshot \<Rightarrow> rr \<Rightarrow> rr" where
  "probe_snapshot_targets read_file fetch clock latency snapshot r =
     (let targets = all_resolved_targets read_file snapshot
      in fold (\<lambda>t. probe_target fetch (clock (rv_id t)) (latency (rv_id t)) t (sn_config snapshot)) targets
           (retain_targets (map rv_id targets) r))"

section \<open>Status\<close>

record proxy_status =
  ps_running :: bool
  ps_bound_addr :: string
  ps_active_routes :: nat
  ps_healthy_routes :: nat
  ps_unhealthy_routes :: nat
  ps_in_flight_requests :: nat
  ps_total_requests :: u64
  ps_admission :: "adm_snapshot option"
  ps_last_error :: "string option"

definition proxy_status_from_snapshot :: "proxy_snapshot \<Rightarrow> proxy_status" where
  "proxy_status_from_snapshot snapshot =
     (let active = length (filter rt_enabled (pc_routes (sn_config snapshot)))
      in \<lparr> ps_running = True, ps_bound_addr = sn_bound_addr snapshot, ps_active_routes = active,
           ps_healthy_routes = 0, ps_unhealthy_routes = active, ps_in_flight_requests = 0,
           ps_total_requests = 0, ps_admission = None, ps_last_error = sn_last_error snapshot \<rparr>)"

definition status_route_ids :: "proxy_snapshot \<Rightarrow> string list" where
  "status_route_ids snapshot =
     (let routed = map rt_target_instance_id (filter route_is_configured (pc_routes (sn_config snapshot)))
      in routed @ filter (\<lambda>i. i \<notin> set routed) (hm_keys (sn_running snapshot)))"

definition status_with_runtime :: "nat \<Rightarrow> proxy_snapshot \<Rightarrow> adm_snapshot \<Rightarrow> rr \<Rightarrow> proxy_status" where
  "status_with_runtime now snapshot admission r =
     (let ids = status_route_ids snapshot;
          (healthy, unhealthy) = route_health_counts now ids r
      in (proxy_status_from_snapshot snapshot)\<lparr>
           ps_active_routes := length ids, ps_healthy_routes := healthy, ps_unhealthy_routes := unhealthy,
           ps_in_flight_requests := in_flight_requests r,
           ps_total_requests := rm_total_requests (rr_metrics r), ps_admission := Some admission \<rparr>)"

definition proxy_health :: "nat \<Rightarrow> proxy_snapshot \<Rightarrow> adm_snapshot \<Rightarrow> rr \<Rightarrow> proxy_status" where
  "proxy_health now snapshot admission r = (status_with_runtime now snapshot admission r)\<lparr> ps_admission := None \<rparr>"

text \<open>The answer to \<open>/ready\<close>, with the fields of its JSON body.\<close>

record readiness =
  rd_code :: nat
  rd_status :: string
  rd_healthy_routes :: nat
  rd_unhealthy_routes :: nat
  rd_targets :: "target_health_snapshot list"
  rd_checkpoint :: "checkpoint_phase option"
  rd_retry_after :: "string option"

definition proxy_ready ::
  "nat \<Rightarrow> (string \<Rightarrow> nat \<times> nat) \<Rightarrow> checkpoint_phase option \<Rightarrow> proxy_snapshot \<Rightarrow> adm_snapshot \<Rightarrow> rr \<Rightarrow> readiness" where
  "proxy_ready now clock blocked_phase snapshot admission r =
     (let status = status_with_runtime now snapshot admission r;
          ready = 0 < ps_healthy_routes status;
          phase = (if ready then None else blocked_phase)
      in \<lparr> rd_code = (if ready then 200 else 503), rd_status = (if ready then ''ready'' else ''unavailable''),
           rd_healthy_routes = ps_healthy_routes status, rd_unhealthy_routes = ps_unhealthy_routes status,
           rd_targets = snapshots clock (hm_keys (sn_running snapshot)) r, rd_checkpoint = phase,
           rd_retry_after = (if phase \<noteq> None then Some ''1'' else None) \<rparr>)"

section \<open>Sanitised views\<close>

definition json_opt_bool :: "bool option \<Rightarrow> json" where
  "json_opt_bool x = (case x of None \<Rightarrow> JNull | Some b \<Rightarrow> JBool b)"

definition json_or_null :: "json option \<Rightarrow> json" where
  "json_or_null x = (case x of None \<Rightarrow> JNull | Some v \<Rightarrow> v)"

definition sanitized_props :: "string \<Rightarrow> json \<Rightarrow> target_health_snapshot \<Rightarrow> json" where
  "sanitized_props model v health =
     JObject [(''model'', JString model),
       (''default_generation_settings'', JObject
         [(''n_ctx'', json_opt_nat (Option.bind (json_pointer2 v ''default_generation_settings'' ''n_ctx'') as_u64))]),
       (''total_slots'', json_opt_nat (json_field as_u64 v ''total_slots'')),
       (''chat_template_caps'', json_or_null (json_get v ''chat_template_caps'')),
       (''modalities'', json_or_null (json_get v ''modalities'')),
       (''is_sleeping'', json_opt_bool (json_field as_bool v ''is_sleeping'')),
       (''router'', JObject
         [(''status'', JString (hs_status health)),
          (''latency_ms'', (case hs_latency_ms health of None \<Rightarrow> JNull | Some x \<Rightarrow> JNumber (Float x))),
          (''active_requests'', json_nat (hs_active_requests health))])]"

definition slot_keys :: "string list" where
  "slot_keys = [''id'', ''n_ctx'', ''speculative'', ''is_processing'', ''n_past'']"

definition sanitized_slot :: "json \<Rightarrow> json" where
  "sanitized_slot slot = JObject (List.map_filter (\<lambda>k. map_option (Pair k) (json_get slot k)) slot_keys)"

definition sanitized_slots :: "json \<Rightarrow> json" where
  "sanitized_slots v = JArray (map sanitized_slot (case as_array v of None \<Rightarrow> [] | Some xs \<Rightarrow> xs))"

section \<open>Model descriptors\<close>

fun first_ids :: "string list \<Rightarrow> resolved_target list \<Rightarrow> resolved_target list" where
  "first_ids seen [] = []"
| "first_ids seen (t # ts) = (if rv_id t \<in> set seen then first_ids seen ts else t # first_ids (rv_id t # seen) ts)"

definition model_health :: "(string \<Rightarrow> nat \<times> nat) \<Rightarrow> rr \<Rightarrow> resolved_target \<Rightarrow> target_health_snapshot" where
  "model_health clock r t =
     (let s = target_snapshot (fst (clock (rv_id t))) (snd (clock (rv_id t))) (rv_id t) r;
          s1 = (if rv_engine_kind t = Gufo \<and> hs_last_success_at_ms s = 0
                then s\<lparr> hs_ready := False, hs_status := ''loading'' \<rparr> else s)
      in if cap_context_length (hs_capabilities s1) = None
         then s1\<lparr> hs_capabilities := (hs_capabilities s1)\<lparr> cap_context_length := rv_configured_context_length t \<rparr> \<rparr>
         else s1)"

definition model_health_snapshots ::
  "(string \<Rightarrow> nat \<times> nat) \<Rightarrow> rr \<Rightarrow> resolved_target list \<Rightarrow> target_health_snapshot list" where
  "model_health_snapshots clock r candidates = map (model_health clock r) (first_ids [] candidates)"

definition safe_context_window :: "target_health_snapshot list \<Rightarrow> nat option" where
  "safe_context_window health =
     (if health = [] \<or> list_ex (\<lambda>h. case cap_context_length (hs_capabilities h) of None \<Rightarrow> True | Some c \<Rightarrow> c = 0) health
      then None
      else min_option (List.map_filter (\<lambda>h. cap_context_length (hs_capabilities h)) health))"

fun capability_loop :: "(target_capabilities \<Rightarrow> bool option) \<Rightarrow> bool \<Rightarrow> target_health_snapshot list \<Rightarrow> bool option" where
  "capability_loop f unknown [] = (if \<not> unknown then Some True else None)"
| "capability_loop f unknown (h # hs) =
     (case f (hs_capabilities h) of
        Some False \<Rightarrow> Some False
      | Some True \<Rightarrow> capability_loop f unknown hs
      | None \<Rightarrow> capability_loop f True hs)"

definition aggregate_target_capability ::
  "target_health_snapshot list \<Rightarrow> (target_capabilities \<Rightarrow> bool option) \<Rightarrow> bool option" where
  "aggregate_target_capability health f = (if health = [] then None else capability_loop f False health)"

definition aggregate_model_status :: "target_health_snapshot list \<Rightarrow> string" where
  "aggregate_model_status health =
     (let ready = length (filter hs_ready health)
      in if health = [] then ''unknown''
         else if ready = length health then ''ready''
         else if 0 < ready then ''degraded''
         else if list_ex (\<lambda>h. hs_status h = ''circuit_open'') health then ''circuit_open''
         else ''unavailable'')"

definition proxy_model_descriptor :: "string \<Rightarrow> target_health_snapshot list \<Rightarrow> json" where
  "proxy_model_descriptor i health =
     (let context_window = json_opt_nat (safe_context_window health);
          tools = aggregate_target_capability health (\<lambda>c. json_field as_bool (cap_chat_template_caps c) ''supports_tools'');
          vision = aggregate_target_capability health (\<lambda>c. json_field as_bool (cap_modalities c) ''vision'');
          video = aggregate_target_capability health (\<lambda>c. json_field as_bool (cap_modalities c) ''video'')
      in JObject [(''id'', JString i), (''object'', JString ''model''), (''owned_by'', JString ''llama-server-manager''),
           (''created'', json_nat 0), (''type'', JString ''model''), (''display_name'', JString i),
           (''created_at'', JString ''1970-01-01T00:00:00Z''), (''context_length'', context_window),
           (''context_window'', context_window), (''max_model_len'', context_window),
           (''status'', JString (aggregate_model_status health)),
           (''capabilities'', JObject [(''chat_completions'', JBool True), (''responses'', JBool True),
              (''anthropic_messages'', JBool True), (''tools'', json_opt_bool tools),
              (''vision'', json_opt_bool vision), (''video'', json_opt_bool video)])])"

definition model_descriptor_of ::
  "(string \<Rightarrow> string option) \<Rightarrow> (string \<Rightarrow> nat \<times> nat) \<Rightarrow> proxy_snapshot \<Rightarrow> rr \<Rightarrow> string \<Rightarrow> json" where
  "model_descriptor_of read_file clock snapshot r i =
     proxy_model_descriptor i (model_health_snapshots clock r
       (resolve_proxy_candidates_from read_file (sn_config snapshot) (sn_instances snapshot) (sn_running snapshot) (Some i) None))"

definition proxy_models :: "(string \<Rightarrow> string option) \<Rightarrow> (string \<Rightarrow> nat \<times> nat) \<Rightarrow> proxy_snapshot \<Rightarrow> rr \<Rightarrow> json" where
  "proxy_models read_file clock snapshot r =
     (let ids = listed_proxy_model_ids (sn_config snapshot)
                  (list_proxy_targets_from (sn_instances snapshot) (sn_running snapshot))
      in JObject [(''object'', JString ''list''),
           (''data'', JArray (map (model_descriptor_of read_file clock snapshot r) ids)),
           (''first_id'', json_opt_str (if ids = [] then None else Some (hd ids))),
           (''last_id'', json_opt_str (if ids = [] then None else Some (last ids))),
           (''has_more'', JBool False)])"

definition proxy_model ::
  "(string \<Rightarrow> string option) \<Rightarrow> (string \<Rightarrow> nat \<times> nat) \<Rightarrow> web \<Rightarrow> string \<Rightarrow> proxy_snapshot \<Rightarrow> rr \<Rightarrow> string \<Rightarrow> headers \<Rightarrow> response" where
  "proxy_model read_file clock w rid snapshot r model_id hs =
     (let format = request_format ''/v1/models'' (hm_get hs ''anthropic-version'' \<noteq> None);
          ids = listed_proxy_model_ids (sn_config snapshot)
                  (list_proxy_targets_from (sn_instances snapshot) (sn_running snapshot))
      in if list_ex (\<lambda>i. i = model_id) ids
         then add_format_header format
                \<lparr> rs_status = 200, rs_headers = [(''content-type'', ''application/json'')],
                  rs_body = model_descriptor_of read_file clock snapshot r model_id, rs_failure = None \<rparr>
         else error_response (wb_header_ok w) rid format 404 ''model not found'')"

text \<open>
  \<open>proxy_usage_middleware\<close>: a local rejection of an accounted request is counted once.
\<close>

definition proxy_usage_middleware :: "string \<Rightarrow> string \<Rightarrow> bool \<Rightarrow> response \<Rightarrow> rr \<Rightarrow> rr" where
  "proxy_usage_middleware method path was_forwarded resp r =
     (if method = ''POST'' \<and> usage_from_path path \<noteq> None \<and> \<not> was_forwarded
         \<and> 400 \<le> rs_status resp \<and> rs_status resp < 600
      then record_rejected r else r)"

section \<open>Advertised context windows\<close>

lemma min_option_iff: "min_option xs = Some c \<longleftrightarrow> c \<in> set xs \<and> (\<forall>x \<in> set xs. c \<le> x)"
  by (cases "xs = []") (auto simp: min_option_def intro: Min_eqI)

lemma first_ids_props:
  "distinct (map rv_id (first_ids seen ts)) \<and> set (map rv_id (first_ids seen ts)) = set (map rv_id ts) - set seen
   \<and> set (first_ids seen ts) \<subseteq> set ts"
  by (induction seen ts rule: first_ids.induct) auto

text \<open>The context a target is known to have: probed, or else configured.\<close>

definition known_context :: "rr \<Rightarrow> resolved_target \<Rightarrow> nat option" where
  "known_context r t =
     or_else (Option.bind (hm_get (rr_targets r) (rv_id t)) (\<lambda>s. cap_context_length (tr_capabilities s)))
       (rv_configured_context_length t)"

lemma model_health_context: "cap_context_length (hs_capabilities (model_health clock r t)) = known_context r t"
  by (auto simp: model_health_def target_snapshot_def known_context_def or_else_def Let_def
      target_runtime_default_def target_capabilities_default_def split: option.splits)

lemma safe_context_iff:
  "safe_context_window health = Some c \<longleftrightarrow>
     list_all (\<lambda>h. case cap_context_length (hs_capabilities h) of None \<Rightarrow> False | Some x \<Rightarrow> 0 < c \<and> c \<le> x) health
     \<and> list_ex (\<lambda>h. cap_context_length (hs_capabilities h) = Some c) health"
proof (cases "health = [] \<or> list_ex (\<lambda>h. case cap_context_length (hs_capabilities h) of None \<Rightarrow> True | Some c \<Rightarrow> c = 0) health")
  case True
  then show ?thesis
    by (auto simp: safe_context_window_def list_ex_iff list_all_iff split: option.splits)
next
  case False
  then have "\<forall>h \<in> set health. \<exists>x. cap_context_length (hs_capabilities h) = Some x \<and> 0 < x"
    by (auto simp: list_ex_iff split: option.splits)
  then obtain g where g: "\<And>h. h \<in> set health \<Longrightarrow> cap_context_length (hs_capabilities h) = Some (g h) \<and> 0 < g h"
    by metis
  have "set (List.map_filter (\<lambda>h. cap_context_length (hs_capabilities h)) health) = g ` set health"
    using g by (auto simp: map_filter_Some)
  then have "safe_context_window health = Some c \<longleftrightarrow> c \<in> g ` set health \<and> (\<forall>h \<in> set health. c \<le> g h)"
    using False by (simp add: safe_context_window_def min_option_iff)
  also have "\<dots> \<longleftrightarrow> (\<forall>h \<in> set health. 0 < c \<and> c \<le> g h) \<and> (\<exists>h \<in> set health. g h = c)"
    using g by auto
  finally show ?thesis using g by (simp add: list_all_iff list_ex_iff)
qed

lemma capability_loop_True:
  "capability_loop f u hs = Some True \<longleftrightarrow> \<not> u \<and> list_all (\<lambda>h. f (hs_capabilities h) = Some True) hs"
  by (induction f u hs rule: capability_loop.induct) (auto split: option.splits bool.splits)

lemma capability_loop_False:
  "capability_loop f u hs = Some False \<longleftrightarrow> list_ex (\<lambda>h. f (hs_capabilities h) = Some False) hs"
  by (induction f u hs rule: capability_loop.induct) (auto split: option.splits bool.splits)

text \<open>What a target reports: its probed capabilities, or none.\<close>

definition known_capabilities :: "rr \<Rightarrow> resolved_target \<Rightarrow> target_capabilities" where
  "known_capabilities r t = (case hm_get (rr_targets r) (rv_id t) of
     Some s \<Rightarrow> tr_capabilities s | None \<Rightarrow> target_capabilities_default)"

lemma model_health_flags:
  "cap_chat_template_caps (hs_capabilities (model_health clock r t)) = cap_chat_template_caps (known_capabilities r t)"
  "cap_modalities (hs_capabilities (model_health clock r t)) = cap_modalities (known_capabilities r t)"
  by (auto simp: model_health_def target_snapshot_def known_capabilities_def Let_def
      target_runtime_default_def split: option.splits)

lemma first_ids_same_id:
  assumes "t \<in> set ts"
  shows "\<exists>u \<in> set (first_ids [] ts). rv_id u = rv_id t"
proof -
  have "rv_id t \<in> set (map rv_id (first_ids [] ts))" using assms first_ids_props [of "[]" ts] by auto
  then show ?thesis by auto
qed

lemma aggregated_health:
  fixes clock :: "string \<Rightarrow> nat \<times> nat" and r :: rr and rf :: "string \<Rightarrow> string option"
    and config :: proxy_config and inst :: instances and run :: running and model :: string
  defines "candidates \<equiv> resolve_proxy_candidates_from rf config inst run (Some model) None"
  defines "health \<equiv> model_health_snapshots clock r candidates"
  shows "(safe_context_window health = Some c \<longleftrightarrow>
        list_all (\<lambda>t. case known_context r t of None \<Rightarrow> False | Some x \<Rightarrow> 0 < c \<and> c \<le> x) candidates
        \<and> list_ex (\<lambda>t. known_context r t = Some c) candidates)
    \<and> (aggregate_target_capability health f = Some True \<longleftrightarrow>
        health \<noteq> [] \<and> list_all (\<lambda>h. f (hs_capabilities h) = Some True) health)
    \<and> (aggregate_target_capability health f = Some False \<longleftrightarrow> list_ex (\<lambda>h. f (hs_capabilities h) = Some False) health)"
proof (intro conjI)
  have same: "known_context r t = known_context r u" if "t \<in> set candidates" "u \<in> set candidates" "rv_id t = rv_id u" for t u
    using candidates_same_context [OF that [unfolded candidates_def]] that(3) by (simp add: known_context_def)
  have cover: "\<exists>u \<in> set (first_ids [] candidates). known_context r u = known_context r t" if t: "t \<in> set candidates" for t
  proof -
    obtain u where u: "u \<in> set (first_ids [] candidates)" "rv_id u = rv_id t"
      using first_ids_same_id [OF t] by blast
    then have "u \<in> set candidates" using first_ids_props [of "[]" candidates] by blast
    then show ?thesis using u same t by blast
  qed
  have sub: "set (first_ids [] candidates) \<subseteq> set candidates" using first_ids_props [of "[]" candidates] by blast
  have img: "known_context r ` set (first_ids [] candidates) = known_context r ` set candidates"
    by (rule equalityI) (use sub cover in \<open>auto, metis imageI\<close>)
  let ?Q = "\<lambda>k. case k of None \<Rightarrow> False | Some x \<Rightarrow> 0 < c \<and> c \<le> x"
  have "safe_context_window health = Some c \<longleftrightarrow>
      (\<forall>k \<in> known_context r ` set (first_ids [] candidates). ?Q k)
      \<and> Some c \<in> known_context r ` set (first_ids [] candidates)"
    unfolding safe_context_iff health_def model_health_snapshots_def list_all_iff list_ex_iff set_map
    by (simp add: model_health_context image_iff eq_commute [of "Some c"])
  then show "safe_context_window health = Some c \<longleftrightarrow>
        list_all (\<lambda>t. case known_context r t of None \<Rightarrow> False | Some x \<Rightarrow> 0 < c \<and> c \<le> x) candidates
        \<and> list_ex (\<lambda>t. known_context r t = Some c) candidates"
    unfolding img list_all_iff list_ex_iff by (simp add: image_iff eq_commute [of "Some c"])
  show "aggregate_target_capability health f = Some True \<longleftrightarrow>
      health \<noteq> [] \<and> list_all (\<lambda>h. f (hs_capabilities h) = Some True) health"
    by (simp add: aggregate_target_capability_def capability_loop_True)
  show "aggregate_target_capability health f = Some False \<longleftrightarrow> list_ex (\<lambda>h. f (hs_capabilities h) = Some False) health"
    by (simp add: aggregate_target_capability_def capability_loop_False)
qed

lemma flags_by_target:
  fixes clock :: "string \<Rightarrow> nat \<times> nat" and r :: rr and candidates :: "resolved_target list"
  defines "health \<equiv> model_health_snapshots clock r candidates"
  assumes "\<And>t. f (hs_capabilities (model_health clock r t)) = f (known_capabilities r t)"
  shows "(aggregate_target_capability health f = Some True \<longleftrightarrow>
        candidates \<noteq> [] \<and> list_all (\<lambda>t. f (known_capabilities r t) = Some True) candidates)
    \<and> (aggregate_target_capability health f = Some False \<longleftrightarrow>
        list_ex (\<lambda>t. f (known_capabilities r t) = Some False) candidates)"
proof -
  have cover: "\<exists>u \<in> set (first_ids [] candidates). known_capabilities r u = known_capabilities r t"
    if "t \<in> set candidates" for t
    using first_ids_same_id [OF that] by (metis known_capabilities_def)
  have sub: "set (first_ids [] candidates) \<subseteq> set candidates"
    using first_ids_props [of "[]" candidates] by blast
  have empty: "health = [] \<longleftrightarrow> candidates = []"
    by (cases candidates) (simp_all add: health_def model_health_snapshots_def)
  have "list_all (\<lambda>h. f (hs_capabilities h) = Some True) health \<longleftrightarrow>
      list_all (\<lambda>t. f (known_capabilities r t) = Some True) candidates"
    using cover sub unfolding health_def model_health_snapshots_def list_all_iff
    by (simp add: assms(2)) (metis subset_iff)
  moreover have "list_ex (\<lambda>h. f (hs_capabilities h) = Some False) health \<longleftrightarrow>
      list_ex (\<lambda>t. f (known_capabilities r t) = Some False) candidates"
    using cover sub unfolding health_def model_health_snapshots_def list_ex_iff
    by (simp add: assms(2)) (metis subset_iff)
  ultimately show ?thesis
    by (auto simp: aggregate_target_capability_def capability_loop_True capability_loop_False empty)
qed

text \<open>
  C24. What the model list advertises is safe for every target a request for the model may reach.  The
  list holds the descriptor of every listed model; the context window in it, under each of its three
  names, is the number \<open>c\<close> exactly when \<open>c\<close> is the least context of all candidates and every
  candidate's context is known and positive, and is null when there is no such number.  Tools,
  vision and video are advertised as present exactly when there are candidates and all of them
  report it, and as absent exactly when one reports that it lacks it.
\<close>

theorem advertised_context_safe:
  fixes clock :: "string \<Rightarrow> nat \<times> nat" and r :: rr and rf :: "string \<Rightarrow> string option"
    and sn :: proxy_snapshot and i :: string
  defines "candidates \<equiv> resolve_proxy_candidates_from rf (sn_config sn) (sn_instances sn) (sn_running sn) (Some i) None"
    and "v \<equiv> model_descriptor_of rf clock sn r i"
  defines "safe c \<equiv>
        list_all (\<lambda>t. case known_context r t of None \<Rightarrow> False | Some x \<Rightarrow> 0 < c \<and> c \<le> x) candidates
        \<and> list_ex (\<lambda>t. known_context r t = Some c) candidates"
  shows "json_get (proxy_models rf clock sn r) ''data'' = Some (JArray (map (model_descriptor_of rf clock sn r)
        (listed_proxy_model_ids (sn_config sn) (list_proxy_targets_from (sn_instances sn) (sn_running sn)))))
    \<and> json_get v ''id'' = Some (JString i)
    \<and> list_all (\<lambda>name. (\<forall>c. json_get v name = Some (JNumber (PosInt c)) \<longleftrightarrow> safe c)
          \<and> (json_get v name = Some JNull \<longleftrightarrow> (\<nexists>c. safe c)))
        [''context_length'', ''context_window'', ''max_model_len'']
    \<and> list_all (\<lambda>(name, flag).
          (json_pointer2 v ''capabilities'' name = Some (JBool True) \<longleftrightarrow>
             candidates \<noteq> [] \<and> list_all (\<lambda>t. flag (known_capabilities r t) = Some True) candidates)
          \<and> (json_pointer2 v ''capabilities'' name = Some (JBool False) \<longleftrightarrow>
             list_ex (\<lambda>t. flag (known_capabilities r t) = Some False) candidates))
        [(''tools'', \<lambda>c. json_field as_bool (cap_chat_template_caps c) ''supports_tools''),
         (''vision'', \<lambda>c. json_field as_bool (cap_modalities c) ''vision''),
         (''video'', \<lambda>c. json_field as_bool (cap_modalities c) ''video'')]"
proof -
  define health where "health = model_health_snapshots clock r candidates"
  have window: "safe_context_window health = Some c \<longleftrightarrow> safe c" for c
    using aggregated_health [of clock r rf "sn_config sn" "sn_instances sn" "sn_running sn" i c]
    unfolding safe_def health_def candidates_def by blast
  have v: "v = proxy_model_descriptor i health"
    by (simp add: v_def model_descriptor_of_def health_def candidates_def)
  have number: "json_opt_nat x = JNumber (PosInt c) \<longleftrightarrow> x = Some c"
    "json_opt_nat x = JNull \<longleftrightarrow> x = None" for x c
    by (simp_all add: json_opt_nat_def json_nat_def split: option.splits)
  have flag: "json_opt_bool x = JBool b \<longleftrightarrow> x = Some b" for x b
    by (simp add: json_opt_bool_def split: option.splits)
  have none: "safe_context_window health = None \<longleftrightarrow> (\<nexists>c. safe c)"
    unfolding window [symmetric] by (cases "safe_context_window health") simp_all
  note flags = flags_by_target [where clock = clock and r = r and candidates = candidates, folded health_def]
  have tools: "(aggregate_target_capability health
      (\<lambda>c. json_field as_bool (cap_chat_template_caps c) k) = Some True \<longleftrightarrow> candidates \<noteq> [] \<and>
        list_all (\<lambda>t. json_field as_bool (cap_chat_template_caps (known_capabilities r t)) k = Some True) candidates)
    \<and> (aggregate_target_capability health
      (\<lambda>c. json_field as_bool (cap_chat_template_caps c) k) = Some False \<longleftrightarrow>
        list_ex (\<lambda>t. json_field as_bool (cap_chat_template_caps (known_capabilities r t)) k = Some False) candidates)" for k
    by (rule flags) (simp add: model_health_flags)
  have modes: "(aggregate_target_capability health
      (\<lambda>c. json_field as_bool (cap_modalities c) k) = Some True \<longleftrightarrow> candidates \<noteq> [] \<and>
        list_all (\<lambda>t. json_field as_bool (cap_modalities (known_capabilities r t)) k = Some True) candidates)
    \<and> (aggregate_target_capability health
      (\<lambda>c. json_field as_bool (cap_modalities c) k) = Some False \<longleftrightarrow>
        list_ex (\<lambda>t. json_field as_bool (cap_modalities (known_capabilities r t)) k = Some False) candidates)" for k
    by (rule flags) (simp add: model_health_flags)
  show ?thesis
    unfolding v
    by (simp add: proxy_models_def proxy_model_descriptor_def Let_def json_pointer2_def number flag
        window none tools modes)
qed

section \<open>What a probe decides\<close>

lemma with_target_get: "hm_get (rr_targets (fst (with_target i f r))) j =
   (if i = j then Some (f (case hm_get (rr_targets r) i of Some t \<Rightarrow> t | None \<Rightarrow> target_runtime_default (rr_heap r)))
    else hm_get (rr_targets r) j)"
  by (simp add: with_target_def Let_def split: option.split)

text \<open>
  A probe gates the traffic: after a successful one the target is open and carries the newest
  capabilities; after one failure of a Gufo engine, which also fails when it is loading or
  serves another model, the target is not eligible at any later time in that state, so only a
  successful probe opens it again; other targets are not affected.
\<close>

theorem probe_gates:
  fixes config :: proxy_config and fetch :: fetcher and t :: resolved_target and r :: rr
    and checked updated now :: nat and latency :: rat
  defines "r' \<equiv> probe_target fetch (checked, updated, now) latency t config r"
  assumes "rc_instance_id c = rv_id t"
  shows "(\<forall>v. probe_health fetch t = Inr v \<longrightarrow>
        (\<exists>s. hm_get (rr_targets r') (rv_id t) = Some s \<and> tr_ready s \<and> tr_circuit_open_until_ms s = 0
          \<and> \<not> circuit_open later s))
    \<and> (rv_engine_kind t = Gufo \<longrightarrow> (\<forall>e. probe_health fetch t = Inl e \<longrightarrow> \<not> eligible later (rr_targets r') c))
    \<and> (rv_engine_kind t = Gufo \<longrightarrow> (\<forall>v. fetch t ''/ready'' = Inr v \<longrightarrow>
          json_field as_str v ''status'' \<noteq> Some ''ready'' \<or> json_field as_str v ''model'' \<noteq> Some (rv_upstream_model_id t)
          \<longrightarrow> \<not> eligible later (rr_targets r') c))
    \<and> (\<forall>j. j = rv_id t \<or> hm_get (rr_targets r') j = hm_get (rr_targets r) j)"
proof -
  have bad: "\<not> eligible later (rr_targets r') c" if g: "rv_engine_kind t = Gufo" "probe_health fetch t = Inl e" for e
  proof -
    have "\<exists>s. hm_get (rr_targets r') (rv_id t) = Some s \<and> \<not> tr_ready s"
      using g by (simp add: r'_def probe_target_def probe_read_def probe_write_def mark_probe_failure_def with_target_get
          fail_target_def Let_def sat_add_def)
    then show ?thesis using assms(2) by (auto simp: eligible_def circuit_open_def Let_def)
  qed
  have good: "\<exists>s. hm_get (rr_targets r') (rv_id t) = Some s \<and> tr_ready s \<and> tr_circuit_open_until_ms s = 0
      \<and> \<not> circuit_open later s" if "probe_health fetch t = Inr v" for v
    using that by (simp add: r'_def probe_target_def probe_read_def probe_write_def mark_probe_success_def with_target_get
        circuit_open_def Let_def)
  have other: "j = rv_id t \<or> hm_get (rr_targets r') j = hm_get (rr_targets r) j" for j
    by (auto simp: r'_def probe_target_def probe_read_def probe_write_def mark_probe_success_def mark_probe_failure_def
        with_target_get Let_def split: sum.split)
  have load: "probe_health fetch t = Inl ''Gufo model is not ready or its identity does not match''"
    if "rv_engine_kind t = Gufo" "fetch t ''/ready'' = Inr v"
      "json_field as_str v ''status'' \<noteq> Some ''ready'' \<or> json_field as_str v ''model'' \<noteq> Some (rv_upstream_model_id t)" for v
    using that by (auto simp: probe_health_def)
  show ?thesis using bad good other load by blast
qed

section \<open>What the views hide\<close>

lemma sanitized_slot_get: "json_get (sanitized_slot slot) k = (if k \<in> set slot_keys then json_get slot k else None)"
proof -
  have "map_of (List.map_filter (\<lambda>k. map_option (Pair k) (f k)) ks) k = (if k \<in> set ks then f k else None)"
    for f :: "string \<Rightarrow> json option" and ks
    by (induction ks) (auto simp: List.map_filter_def split: option.splits)
  then show ?thesis by (simp add: sanitized_slot_def)
qed

lemma sanitized_props_independent:
  assumes "\<And>k. k \<in> {''default_generation_settings'', ''total_slots'', ''chat_template_caps'', ''modalities'', ''is_sleeping''}
      \<Longrightarrow> json_get v k = json_get v' k"
  shows "sanitized_props m v h = sanitized_props m v' h"
  using assms by (simp add: sanitized_props_def json_pointer2_def json_field_def)

lemma health_counts_sum: "fst (route_health_counts now ids r) + snd (route_health_counts now ids r) = length ids"
proof -
  have "fst (fold (\<lambda>i (healthy, unhealthy). if P i then (healthy + 1, unhealthy) else (healthy, unhealthy + 1)) xs p)
      + snd (fold (\<lambda>i (healthy, unhealthy). if P i then (healthy + 1, unhealthy) else (healthy, unhealthy + 1)) xs p)
      = fst p + snd p + length xs" for P :: "string \<Rightarrow> bool" and xs and p :: "nat \<times> nat"
    by (induction xs arbitrary: p) (simp_all add: case_prod_unfold)
  from this [of _ ids "(0, 0)"] show ?thesis by (simp add: route_health_counts_def)
qed

definition demo_gufo :: resolved_target where
  "demo_gufo = \<lparr> rv_public = proxy_target_from_instance ''g'' (demo_instance ''first'') True, rv_engine_kind = Gufo,
     rv_upstream_model_id = ''first'', rv_api_key = [], rv_api_prefix = [], rv_scheme = ''http'',
     rv_configured_context_length = None, rv_telemetry_session_id = None, rv_workload = Inference,
     rv_route_priority = 0, rv_route_weight = 1, rv_route_max_concurrent_requests = 0 \<rparr>"

theorem probe_gates_witness:
  "\<not> eligible 5 (rr_targets (probe_target (\<lambda>_ _. Inr (JObject [(''status'', JString ''loading'')])) (0, 0, 0) 1
       demo_gufo proxy_config_default rr_default))
     \<lparr> rc_instance_id = ''g'', rc_priority = 0, rc_weight = 1, rc_max_concurrent_requests = 0 \<rparr>"
  using probe_gates [of "\<lparr> rc_instance_id = ''g'', rc_priority = 0, rc_weight = 1, rc_max_concurrent_requests = 0 \<rparr>" demo_gufo
      "\<lambda>_ _. Inr (JObject [(''status'', JString ''loading'')])" 0 0 0 1 proxy_config_default rr_default 5]
  by (simp add: demo_gufo_def proxy_target_from_instance_def json_field_def)

end
