(* ===== verification/Usage_Record.thy ===== *)
theory Usage_Record
  imports Proxy_Auth Quota_Request
begin

text \<open>
  The account of one request (\<open>src-tauri/src/commands/proxy_usage.rs\<close>): the handle that the
  stages of a request write to, and the record and the quota settlement that leave it exactly once,
  when the response has been delivered or the request is dropped.  An observation is passed
  along explicitly; what it hands to the ledger and to the usage store is collected in
  \<open>usage_out\<close>.  Clock readings are arguments.
\<close>

section \<open>State\<close>

record usage_record =
  ud_request_id :: string
  ud_key_id :: string
  ud_key_name :: string
  ud_model :: string
  ud_instance_id :: string
  ud_endpoint :: string
  ud_kind :: string
  ud_started_at :: int
  ud_completed_at :: int
  ud_http_status :: nat
  ud_forwarded :: bool
  ud_outcome :: string
  ud_quality :: string
  ud_source :: string
  ud_tokens :: token_usage
  ud_duration_ms :: nat
  ud_queue_ms :: nat
  ud_queue_entered :: bool
  ud_first_output_ms :: "nat option"
  ud_finish_reason :: "string option"
  ud_items :: "nat option"
  ud_failure :: "usage_failure option"
  ud_context_budget :: "context_budget option"
  ud_response_request_id :: "string option"
  ud_response_x_request_id :: "string option"
  ud_upstream_request_id :: "string option"

record observation =
  ob_quota :: "quota_permit option"
  ob_record :: usage_record
  ob_parser :: usage_accumulator
  ob_streaming :: bool
  ob_finished :: bool
  ob_recorded :: bool

record usage_out =
  uo_records :: "usage_record list"
  uo_settlements :: "settlement list"

definition usage_out_empty :: usage_out where
  "usage_out_empty = \<lparr> uo_records = [], uo_settlements = [] \<rparr>"

text \<open>A new handle; \<open>None\<close> when the path is not accounted.  \<open>uuid\<close> is drawn at random.\<close>

definition usage_handle_new :: "string \<Rightarrow> int \<Rightarrow> string \<Rightarrow> observation option" where
  "usage_handle_new uuid now endpoint =
     (case usage_from_path endpoint of
        None \<Rightarrow> None
      | Some protocol \<Rightarrow> Some
          \<lparr> ob_quota = None,
            ob_record = \<lparr> ud_request_id = ''usage_'' @ uuid, ud_key_id = ''unauthenticated'',
              ud_key_name = ''unauthenticated'', ud_model = [], ud_instance_id = [], ud_endpoint = endpoint,
              ud_kind = usage_kind protocol, ud_started_at = now, ud_completed_at = now, ud_http_status = 0,
              ud_forwarded = False, ud_outcome = [], ud_quality = ''unknown'', ud_source = ''none'',
              ud_tokens = token_usage_default, ud_duration_ms = 0, ud_queue_ms = 0, ud_queue_entered = False,
              ud_first_output_ms = None, ud_finish_reason = None, ud_items = None, ud_failure = None,
              ud_context_budget = None, ud_response_request_id = None, ud_response_x_request_id = None,
              ud_upstream_request_id = None \<rparr>,
            ob_parser = usage_new protocol, ob_streaming = False, ob_finished = False, ob_recorded = False \<rparr>)"

section \<open>Finalising\<close>

definition outcome_of :: "observation \<Rightarrow> string" where
  "outcome_of ob =
     (let r = ob_record ob
      in if \<not> ob_finished ob then ''cancelled''
         else if 400 \<le> ud_http_status r \<and> \<not> ud_forwarded r then ''rejected''
         else if 400 \<le> ud_http_status r \<or> ua_failed (ob_parser ob) then ''failed''
         else if ob_streaming ob \<and> \<not> ua_terminal (ob_parser ob) then ''incomplete''
         else ''success'')"

definition default_failure :: "string \<Rightarrow> bool \<Rightarrow> nat \<Rightarrow> usage_failure option" where
  "default_failure outcome streaming status =
     (if outcome = ''cancelled'' then Some (failure_new ''delivery'' ''client_cancelled'')
      else if outcome = ''incomplete'' then Some (failure_new ''stream'' ''stream_interrupted'')
      else if outcome = ''failed'' then Some (failure_new (if streaming then ''stream'' else ''upstream'') ''upstream_error'')
      else if outcome = ''rejected'' then Some (failure_local status [])
      else None)"

definition record_quality :: "observation \<Rightarrow> string" where
  "record_quality ob =
     (let q = quality (ob_parser ob) (ud_forwarded (ob_record ob))
      in if ob_streaming ob \<and> \<not> ua_terminal (ob_parser ob) \<and> q = ''complete'' then ''partial'' else q)"

definition report_of :: "usage_record \<Rightarrow> usage_report" where
  "report_of r = \<lparr> ur_input = tk_input (ud_tokens r), ur_output = tk_output (ud_tokens r),
     ur_outcome = ud_outcome r, ur_quality = ud_quality r \<rparr>"

text \<open>The record as it is stored; \<open>ob\<close> has already flushed its last event.\<close>

definition final_record :: "int \<Rightarrow> nat \<Rightarrow> observation \<Rightarrow> usage_record" where
  "final_record now elapsed ob =
     (let r = ob_record ob; outcome = outcome_of ob
      in r\<lparr> ud_completed_at := now, ud_duration_ms := min elapsed u64_max, ud_outcome := outcome,
            ud_failure := (if ud_failure r = None then default_failure outcome (ob_streaming ob) (ud_http_status r)
                           else ud_failure r),
            ud_tokens := ua_tokens (ob_parser ob), ud_quality := record_quality ob,
            ud_source := ua_source (ob_parser ob), ud_finish_reason := ua_finish_reason (ob_parser ob) \<rparr>)"

definition finalize ::
  "parser \<Rightarrow> int \<Rightarrow> nat \<Rightarrow> observation \<times> usage_out \<Rightarrow> observation \<times> usage_out" where
  "finalize parse now elapsed s =
     (case s of (ob, out) \<Rightarrow>
        if ob_recorded ob then (ob, out)
        else
          (let ob1 = ob\<lparr> ob_recorded := True, ob_parser := fst (flush_event parse (ob_parser ob)) \<rparr>;
               r = final_record now elapsed ob1;
               settled = (case ob_quota ob of None \<Rightarrow> [] | Some p \<Rightarrow> [snd (permit_finish p (report_of r))])
           in (ob1\<lparr> ob_record := r, ob_quota := None \<rparr>,
               \<lparr> uo_records = uo_records out @ [r], uo_settlements = uo_settlements out @ settled \<rparr>)))"

text \<open>Dropping a permit that was not finished settles it.\<close>

definition drop_permit :: "quota_permit option \<Rightarrow> usage_out \<Rightarrow> usage_out" where
  "drop_permit p out =
     (case Option.bind p permit_drop_q of
        None \<Rightarrow> out
      | Some s \<Rightarrow> out\<lparr> uo_settlements := uo_settlements out @ [s] \<rparr>)"

definition observation_drop :: "parser \<Rightarrow> int \<Rightarrow> nat \<Rightarrow> observation \<times> usage_out \<Rightarrow> usage_out" where
  "observation_drop parse now elapsed s =
     (case finalize parse now elapsed s of (ob, out) \<Rightarrow> drop_permit (ob_quota ob) out)"

section \<open>What the stages of a request write\<close>

definition usage_identity :: "string \<Rightarrow> string \<Rightarrow> observation \<Rightarrow> observation" where
  "usage_identity i name ob =
     ob\<lparr> ob_record := (ob_record ob)\<lparr> ud_key_id := i, ud_key_name := take_chars 256 name \<rparr> \<rparr>"

definition usage_items :: "usage_protocol \<Rightarrow> json \<Rightarrow> nat option" where
  "usage_items protocol v =
     map_option (\<lambda>x. case as_array x of
         Some a \<Rightarrow> if protocol = PEmbedding \<and> (case a of [] \<Rightarrow> False | n # _ \<Rightarrow> is_number n) then 1 else length a
       | None \<Rightarrow> 1)
       (if protocol = PEmbedding then json_get_or v ''input'' ''content''
        else if protocol = PRerank then json_get_or v ''documents'' ''texts''
        else None)"

definition usage_request :: "parser \<Rightarrow> bytes \<Rightarrow> observation \<Rightarrow> observation" where
  "usage_request parse body ob =
     (case parse body of
        None \<Rightarrow> ob
      | Some v \<Rightarrow> ob\<lparr> ob_record := (ob_record ob)\<lparr> ud_model := [],
                        ud_items := usage_items (ua_protocol (ob_parser ob)) v \<rparr> \<rparr>)"

definition usage_target :: "string \<Rightarrow> string \<Rightarrow> observation \<Rightarrow> observation" where
  "usage_target i public_model ob =
     ob\<lparr> ob_record := (ob_record ob)\<lparr> ud_instance_id := i, ud_model := take_chars 512 public_model \<rparr> \<rparr>"

definition usage_queue :: "nat \<Rightarrow> observation \<Rightarrow> observation" where
  "usage_queue ms ob = ob\<lparr> ob_record := (ob_record ob)\<lparr> ud_queue_ms := ms, ud_queue_entered := True \<rparr> \<rparr>"

definition usage_forwarded :: "observation \<Rightarrow> observation" where
  "usage_forwarded ob =
     ob\<lparr> ob_record := (ob_record ob)\<lparr> ud_forwarded := True \<rparr>,
         ob_quota := map_option permit_forwarded (ob_quota ob) \<rparr>"

definition was_forwarded :: "observation \<Rightarrow> bool" where
  "was_forwarded ob = ud_forwarded (ob_record ob)"

definition quota_identity :: "observation \<Rightarrow> string \<times> string" where
  "quota_identity ob = (ud_key_id (ob_record ob), ud_request_id (ob_record ob))"

text \<open>Storing a permit drops one that is already there.\<close>

definition usage_quota :: "quota_permit \<Rightarrow> observation \<times> usage_out \<Rightarrow> observation \<times> usage_out" where
  "usage_quota p s = (case s of (ob, out) \<Rightarrow> (ob\<lparr> ob_quota := Some p \<rparr>, drop_permit (ob_quota ob) out))"

definition usage_fail :: "string \<Rightarrow> string \<Rightarrow> observation \<Rightarrow> observation" where
  "usage_fail stage code ob =
     (if ud_failure (ob_record ob) = None
      then ob\<lparr> ob_record := (ob_record ob)\<lparr> ud_failure := Some (failure_new stage code) \<rparr> \<rparr> else ob)"

definition usage_budget :: "nat option \<Rightarrow> nat \<Rightarrow> nat \<Rightarrow> string \<Rightarrow> observation \<Rightarrow> observation" where
  "usage_budget inp out window source ob =
     ob\<lparr> ob_record := (ob_record ob)\<lparr> ud_context_budget := Some (context_budget_new inp out window source) \<rparr> \<rparr>"

definition header_request_id :: "web \<Rightarrow> headers \<Rightarrow> string option" where
  "header_request_id w hs =
     (case Option.bind (header_str w hs ''request-id'') correlation_id of
        Some i \<Rightarrow> Some i
      | None \<Rightarrow> Option.bind (header_str w hs ''x-request-id'') correlation_id)"

definition usage_upstream_id :: "web \<Rightarrow> headers \<Rightarrow> observation \<Rightarrow> observation" where
  "usage_upstream_id w hs ob =
     ob\<lparr> ob_record := (ob_record ob)\<lparr> ud_upstream_request_id := header_request_id w hs \<rparr> \<rparr>"

definition usage_start_stream :: "observation \<Rightarrow> observation" where
  "usage_start_stream ob = ob\<lparr> ob_streaming := True \<rparr>"

definition usage_json :: "parser \<Rightarrow> bytes \<Rightarrow> observation \<Rightarrow> observation" where
  "usage_json parse body ob =
     ob\<lparr> ob_parser := (case parse body of
          Some v \<Rightarrow> fst (observe_json v (ob_parser ob))
        | None \<Rightarrow> (ob_parser ob)\<lparr> ua_malformed := True \<rparr>) \<rparr>"

definition usage_sse :: "parser \<Rightarrow> nat \<Rightarrow> string \<Rightarrow> observation \<Rightarrow> observation" where
  "usage_sse parse elapsed row ob =
     (case sse_line parse row (ob_parser ob) of (a, output) \<Rightarrow>
        ob\<lparr> ob_streaming := True, ob_parser := a,
            ob_record := (if output \<and> ud_first_output_ms (ob_record ob) = None
                          then (ob_record ob)\<lparr> ud_first_output_ms := Some (min elapsed u64_max) \<rparr>
                          else ob_record ob) \<rparr>)"

definition usage_finish ::
  "parser \<Rightarrow> int \<Rightarrow> nat \<Rightarrow> nat \<Rightarrow> bool \<Rightarrow> observation \<times> usage_out \<Rightarrow> observation \<times> usage_out" where
  "usage_finish parse now elapsed status success s =
     (case s of (ob, out) \<Rightarrow>
        finalize parse now elapsed
          (ob\<lparr> ob_record := (ob_record ob)\<lparr> ud_http_status := status \<rparr>, ob_finished := True,
               ob_parser := (if success then ob_parser ob else (ob_parser ob)\<lparr> ua_failed := True \<rparr>) \<rparr>, out))"

text \<open>\<open>wrap\<close>: first the head of the response, then its body as it is delivered.\<close>

definition wrap_head :: "web \<Rightarrow> response \<Rightarrow> observation \<Rightarrow> observation" where
  "wrap_head w resp ob =
     (let r = ob_record ob
      in ob\<lparr> ob_record := r\<lparr> ud_http_status := rs_status resp,
               ud_response_request_id := header_request_id w (rs_headers resp),
               ud_response_x_request_id := Option.bind (header_str w (rs_headers resp) ''x-request-id'') correlation_id,
               ud_failure := (if ud_failure r = None then rs_failure resp else ud_failure r) \<rparr> \<rparr>)"

definition wrap_headers :: "web \<Rightarrow> observation \<Rightarrow> response \<Rightarrow> response" where
  "wrap_headers w ob resp = try_header (wb_header_ok w) ''x-lsm-request-id'' (ud_request_id (ob_record ob)) resp"

text \<open>
  The body: chunks pass through, an error or the end finishes the account.  \<open>clock\<close> gives the
  readings at that moment.
\<close>

fun wrap_body ::
  "parser \<Rightarrow> int \<Rightarrow> nat \<Rightarrow> nat \<Rightarrow> body_event list \<Rightarrow> observation \<times> usage_out \<Rightarrow> bytes \<times> observation \<times> usage_out" where
  "wrap_body parse now elapsed status [] s = ([], usage_finish parse now elapsed status True s)"
| "wrap_body parse now elapsed status (Chunk b # es) s =
     (case wrap_body parse now elapsed status es s of (bs, s') \<Rightarrow> (b @ bs, s'))"
| "wrap_body parse now elapsed status (_ # es) s =
     ([], usage_finish parse now elapsed status False (usage_fail ''delivery'' ''stream_interrupted'' (fst s), snd s))"

section \<open>Asking for usage in a stream\<close>

text \<open>\<open>object.entry("stream_options").or_insert({})\<close>, with null replaced by an empty object.\<close>

definition stream_options_of :: "(string \<times> json) list \<Rightarrow> json" where
  "stream_options_of object =
     (case map_of object ''stream_options'' of
        None \<Rightarrow> JObject []
      | Some v \<Rightarrow> if is_null v then JObject [] else v)"

definition request_stream_usage :: "parser \<Rightarrow> printer \<Rightarrow> bytes \<Rightarrow> string \<Rightarrow> bytes \<times> bool" where
  "request_stream_usage parse print body path =
     (if path \<noteq> ''/v1/chat/completions'' then (body, False)
      else case parse body of
        None \<Rightarrow> (body, False)
      | Some v \<Rightarrow>
          if json_field as_bool v ''stream'' \<noteq> Some True then (body, False)
          else if Option.bind (json_pointer2 v ''stream_options'' ''include_usage'') as_bool = Some True then (body, False)
          else case as_object v of
                 None \<Rightarrow> (body, False)
               | Some object \<Rightarrow>
                   (case as_object (stream_options_of object) of
                      None \<Rightarrow> (body, False)
                    | Some options \<Rightarrow>
                        (case print (JObject (hm_insert ''stream_options''
                                 (JObject (hm_insert ''include_usage'' (JBool True) options)) object)) of
                           Some b \<Rightarrow> b | None \<Rightarrow> body, True)))"

definition is_usage_only_line :: "parser \<Rightarrow> string \<Rightarrow> bool" where
  "is_usage_only_line parse row =
     (case strip_prefix ''data:'' row of
        None \<Rightarrow> False
      | Some data \<Rightarrow>
          (case parse (trim data) of
             None \<Rightarrow> False
           | Some v \<Rightarrow> (case json_get v ''usage'' of None \<Rightarrow> False | Some u \<Rightarrow> is_object u)
                      \<and> json_field as_array v ''choices'' = Some []))"

section \<open>One record, one settlement\<close>

text \<open>What may happen to a handle, in any order, before it is dropped.\<close>

datatype usage_op =
  UIdentity string string
| URequest bytes
| UTarget string string
| UQueue nat
| UForwarded
| UQuota quota_permit
| UFailure string string
| UBudget "nat option" nat nat string
| UUpstreamId headers
| UStartStream
| UJson bytes
| USse nat string
| UHead response
| UFinish int nat nat bool

fun usage_step :: "web \<Rightarrow> parser \<Rightarrow> usage_op \<Rightarrow> observation \<times> usage_out \<Rightarrow> observation \<times> usage_out" where
  "usage_step w parse (UIdentity i n) (ob, out) = (usage_identity i n ob, out)"
| "usage_step w parse (URequest b) (ob, out) = (usage_request parse b ob, out)"
| "usage_step w parse (UTarget i m) (ob, out) = (usage_target i m ob, out)"
| "usage_step w parse (UQueue ms) (ob, out) = (usage_queue ms ob, out)"
| "usage_step w parse UForwarded (ob, out) = (usage_forwarded ob, out)"
| "usage_step w parse (UQuota p) s = usage_quota p s"
| "usage_step w parse (UFailure st c) (ob, out) = (usage_fail st c ob, out)"
| "usage_step w parse (UBudget i n c src) (ob, out) = (usage_budget i n c src ob, out)"
| "usage_step w parse (UUpstreamId hs) (ob, out) = (usage_upstream_id w hs ob, out)"
| "usage_step w parse UStartStream (ob, out) = (usage_start_stream ob, out)"
| "usage_step w parse (UJson b) (ob, out) = (usage_json parse b ob, out)"
| "usage_step w parse (USse t row) (ob, out) = (usage_sse parse t row ob, out)"
| "usage_step w parse (UHead resp) (ob, out) = (wrap_head w resp ob, out)"
| "usage_step w parse (UFinish now t status ok) s = usage_finish parse now t status ok s"

definition usage_run :: "web \<Rightarrow> parser \<Rightarrow> usage_op list \<Rightarrow> observation \<times> usage_out \<Rightarrow> observation \<times> usage_out" where
  "usage_run w parse ops s = fold (usage_step w parse) ops s"

fun permits_of :: "usage_op list \<Rightarrow> quota_permit list" where
  "permits_of [] = []"
| "permits_of (UQuota p # ops) = p # permits_of ops"
| "permits_of (_ # ops) = permits_of ops"

text \<open>What a stored record promises.\<close>

definition record_ok :: "usage_record \<Rightarrow> bool" where
  "record_ok r \<longleftrightarrow>
     ud_outcome r \<in> {''success'', ''cancelled'', ''rejected'', ''failed'', ''incomplete''}
     \<and> (ud_outcome r = ''success'' \<longrightarrow> ud_http_status r < 400)
     \<and> (ud_outcome r = ''rejected'' \<longrightarrow> \<not> ud_forwarded r)
     \<and> (ud_outcome r \<noteq> ''success'' \<longrightarrow> ud_failure r \<noteq> None)
     \<and> (ud_quality r = ''complete'' \<longrightarrow> ud_forwarded r \<and> tk_input (ud_tokens r) \<noteq> None \<and> tk_output (ud_tokens r) \<noteq> None)
     \<and> (ud_outcome r = ''incomplete'' \<longrightarrow> ud_quality r \<noteq> ''complete'')
     \<and> (\<exists>p. tokens_ok p (ud_tokens r) \<and> usage_kind p = ud_kind r)
     \<and> char_count (ud_key_name r) \<le> 256 \<and> char_count (ud_model r) \<le> 512"

text \<open>
  The settlement of a permit that was finished with record \<open>r\<close>: without forwarding nothing is
  charged; a forwarded request is charged exactly only on a certain account.
\<close>

definition observation_ok :: "observation \<Rightarrow> bool" where
  "observation_ok ob \<longleftrightarrow> usage_ok (ob_parser ob) \<and> usage_kind (ua_protocol (ob_parser ob)) = ud_kind (ob_record ob)
     \<and> char_count (ud_key_name (ob_record ob)) \<le> 256 \<and> char_count (ud_model (ob_record ob)) \<le> 512
     \<and> (case ob_quota ob of None \<Rightarrow> True | Some p \<Rightarrow> \<not> qt_finished p)"

definition pending_ids :: "observation \<Rightarrow> string list" where
  "pending_ids ob = (case ob_quota ob of None \<Rightarrow> [] | Some p \<Rightarrow> [qt_id p])"

definition usage_inv :: "quota_permit list \<Rightarrow> observation \<times> usage_out \<Rightarrow> bool" where
  "usage_inv ps s =
     (case s of (ob, out) \<Rightarrow>
        observation_ok ob
        \<and> length (uo_records out) = (if ob_recorded ob then 1 else 0)
        \<and> list_all record_ok (uo_records out)
        \<and> map fst (uo_settlements out) @ pending_ids ob = map qt_id ps)"

lemma observe_json_protocol [simp]: "ua_protocol (fst (observe_json v a)) = ua_protocol a"
  by (simp add: observe_json_def Let_def split: option.split)

lemma flush_event_protocol [simp]: "ua_protocol (fst (flush_event parse a)) = ua_protocol a"
  by (simp add: flush_event_def Let_def split: option.split)

lemma sse_line_protocol [simp]: "ua_protocol (fst (sse_line parse row a)) = ua_protocol a"
  by (simp add: sse_line_def Let_def split: option.split)

lemma usage_ok_flag [simp]:
  "usage_ok (a\<lparr> ua_malformed := x \<rparr>) = usage_ok a" "usage_ok (a\<lparr> ua_failed := x \<rparr>) = usage_ok a"
  by (simp_all add: usage_ok_def)

lemma char_count_Nil [simp]: "char_count [] = 0"
  by (simp add: char_count_def)

lemma quality_complete:
  "quality a e = ''complete'' \<Longrightarrow> e \<and> tk_input (ua_tokens a) \<noteq> None \<and> tk_output (ua_tokens a) \<noteq> None"
  by (auto simp: quality_def split: if_splits)

lemma record_quality_complete:
  "record_quality ob = ''complete'' \<Longrightarrow> ud_forwarded (ob_record ob) \<and> tk_input (ua_tokens (ob_parser ob)) \<noteq> None
     \<and> tk_output (ua_tokens (ob_parser ob)) \<noteq> None \<and> (ob_streaming ob \<longrightarrow> ua_terminal (ob_parser ob))"
  by (auto simp: record_quality_def Let_def dest: quality_complete split: if_splits)

lemma final_record_fields [simp]:
  "ud_outcome (final_record now t ob) = outcome_of ob" "ud_quality (final_record now t ob) = record_quality ob"
  "ud_http_status (final_record now t ob) = ud_http_status (ob_record ob)"
  "ud_forwarded (final_record now t ob) = ud_forwarded (ob_record ob)"
  "ud_tokens (final_record now t ob) = ua_tokens (ob_parser ob)"
  "ud_kind (final_record now t ob) = ud_kind (ob_record ob)"
  "ud_key_name (final_record now t ob) = ud_key_name (ob_record ob)"
  "ud_model (final_record now t ob) = ud_model (ob_record ob)"
  "ud_failure (final_record now t ob) = (if ud_failure (ob_record ob) = None
     then default_failure (outcome_of ob) (ob_streaming ob) (ud_http_status (ob_record ob)) else ud_failure (ob_record ob))"
  by (simp_all add: final_record_def Let_def)

lemma outcome_facts:
  "outcome_of ob \<in> {''success'', ''cancelled'', ''rejected'', ''failed'', ''incomplete''}"
  "outcome_of ob = ''success'' \<Longrightarrow> ud_http_status (ob_record ob) < 400"
  "outcome_of ob = ''rejected'' \<Longrightarrow> \<not> ud_forwarded (ob_record ob)"
  "outcome_of ob = ''incomplete'' \<Longrightarrow> ob_streaming ob \<and> \<not> ua_terminal (ob_parser ob)"
  by (auto simp: outcome_of_def Let_def split: if_splits)

lemma default_failure_some: "outcome_of ob \<noteq> ''success'' \<Longrightarrow> default_failure (outcome_of ob) b n \<noteq> None"
  using outcome_facts(1) [of ob] by (auto simp: default_failure_def)

lemma final_record_ok:
  assumes "observation_ok ob"
  shows "record_ok (final_record now t ob)"
proof -
  have "tokens_ok (ua_protocol (ob_parser ob)) (ua_tokens (ob_parser ob))"
    using assms by (simp add: observation_ok_def usage_ok_def)
  then have "\<exists>p. tokens_ok p (ua_tokens (ob_parser ob)) \<and> usage_kind p = ud_kind (ob_record ob)"
    using assms by (auto simp: observation_ok_def)
  moreover have "outcome_of ob = ''incomplete'' \<longrightarrow> record_quality ob \<noteq> ''complete''"
    using outcome_facts(4) record_quality_complete by blast
  moreover have "outcome_of ob \<noteq> ''success'' \<longrightarrow> ud_failure (final_record now t ob) \<noteq> None"
    using default_failure_some by simp
  ultimately show ?thesis
    using assms outcome_facts(1-3) [of ob] record_quality_complete [of ob]
    unfolding record_ok_def by (simp add: observation_ok_def)
qed

lemma finalize_inv:
  assumes "usage_inv ps s"
  shows "usage_inv ps (finalize parse now t s)"
proof (cases s)
  case (Pair ob out)
  define ob1 where "ob1 = ob\<lparr> ob_recorded := True, ob_parser := fst (flush_event parse (ob_parser ob)) \<rparr>"
  have ok: "observation_ok ob1" if "observation_ok ob"
    using that by (simp add: ob1_def observation_ok_def flush_event_ok)
  have ok2: "observation_ok (ob1\<lparr> ob_record := final_record now t ob1, ob_quota := None \<rparr>)" if "observation_ok ob"
    using ok [OF that] by (simp add: observation_ok_def)
  show ?thesis
  proof (cases "ob_recorded ob")
    case True
    with assms show ?thesis by (simp add: Pair finalize_def)
  next
    case False
    have eq: "finalize parse now t s = (ob1\<lparr> ob_record := final_record now t ob1, ob_quota := None \<rparr>,
       \<lparr> uo_records = uo_records out @ [final_record now t ob1], uo_settlements = uo_settlements out @
          (case ob_quota ob of None \<Rightarrow> [] | Some p \<Rightarrow> [snd (permit_finish p (report_of (final_record now t ob1)))]) \<rparr>)"
      using False by (simp add: Pair finalize_def ob1_def Let_def split: option.split)
    from assms have o: "observation_ok ob" by (simp add: usage_inv_def Pair)
    from assms False show ?thesis
      unfolding eq using ok2 [OF o] final_record_ok [OF ok [OF o]]
      by (auto simp: usage_inv_def Pair pending_ids_def permit_finish_def Let_def ob1_def split: option.splits)
  qed
qed

lemma drop_permit_fields [simp]: "uo_records (drop_permit p out) = uo_records out"
  by (simp add: drop_permit_def split: option.split)

lemma drop_permit_ids:
  assumes "case p of None \<Rightarrow> True | Some q \<Rightarrow> \<not> qt_finished q"
  shows "map fst (uo_settlements (drop_permit p out))
     = map fst (uo_settlements out) @ (case p of None \<Rightarrow> [] | Some q \<Rightarrow> [qt_id q])"
  using assms by (cases p) (auto simp: drop_permit_def permit_drop_q_def)

lemmas usage_ops_defs = usage_identity_def usage_request_def usage_target_def usage_queue_def usage_forwarded_def
  usage_fail_def usage_budget_def usage_upstream_id_def usage_start_stream_def usage_json_def usage_sse_def wrap_head_def

lemma usage_step_inv:
  assumes "usage_inv ps s" "list_all (\<lambda>p. \<not> qt_finished p) (permits_of [op])"
  shows "usage_inv (ps @ permits_of [op]) (usage_step w parse op s)"
proof (cases s)
  case (Pair ob out)
  have plain: "usage_inv ps (ob', out)" if "observation_ok ob'" "ob_recorded ob' = ob_recorded ob"
    "pending_ids ob' = pending_ids ob" for ob'
    using assms(1) that by (simp add: Pair usage_inv_def)
  have o: "observation_ok ob" using assms(1) by (simp add: Pair usage_inv_def)
  note simps = observation_ok_def pending_ids_def char_count_take_chars observe_json_ok sse_line_ok permit_forwarded_def
  show ?thesis
  proof (cases op)
    case (UFinish now t status ok)
    have "usage_inv ps (ob\<lparr> ob_record := (ob_record ob)\<lparr> ud_http_status := status \<rparr>, ob_finished := True,
               ob_parser := (if ok then ob_parser ob else (ob_parser ob)\<lparr> ua_failed := True \<rparr>) \<rparr>, out)"
      using o by (intro plain) (simp_all add: simps)
    then show ?thesis by (simp add: UFinish Pair usage_finish_def finalize_inv)
  next
    case (UQuota p)
    show ?thesis using assms o
      by (auto simp: UQuota Pair usage_quota_def usage_inv_def drop_permit_ids pending_ids_def observation_ok_def split: option.splits)
  next
    case (USse t row)
    then show ?thesis using o
      by (auto simp: Pair usage_sse_def case_prod_unfold simps intro!: plain)
  qed (use o in \<open>auto simp: Pair usage_ops_defs simps Let_def intro!: plain split: option.splits\<close>)
qed

lemma permits_of_append: "permits_of (op # ops) = permits_of [op] @ permits_of ops"
  by (cases op) simp_all

lemma usage_run_inv:
  "usage_inv ps s \<Longrightarrow> list_all (\<lambda>p. \<not> qt_finished p) (permits_of ops) \<Longrightarrow> usage_inv (ps @ permits_of ops) (usage_run w parse ops s)"
proof (induction ops arbitrary: ps s)
  case Nil
  then show ?case by (simp add: usage_run_def)
next
  case (Cons op ops)
  have "list_all (\<lambda>p. \<not> qt_finished p) (permits_of [op])" "list_all (\<lambda>p. \<not> qt_finished p) (permits_of ops)"
    using Cons.prems(2) unfolding permits_of_append [of op ops] by simp_all
  with Cons usage_step_inv have "usage_inv ((ps @ permits_of [op]) @ permits_of ops) (usage_run w parse ops (usage_step w parse op s))"
    by blast
  then show ?case unfolding permits_of_append [of op ops] by (simp add: usage_run_def)
qed

lemma usage_new_protocol [simp]: "ua_protocol (usage_new p) = p"
  by (simp add: usage_new_def)

lemma handle_new_inv: "usage_handle_new uuid now path = Some ob \<Longrightarrow> usage_inv [] (ob, usage_out_empty)"
  by (auto simp: usage_handle_new_def usage_inv_def observation_ok_def usage_ok_new pending_ids_def usage_out_empty_def
      char_count_def split: option.splits)

text \<open>
  C28. Whatever happens to a request, in any order of its stages, and whether it finishes, fails or
  is dropped: exactly one usage record leaves its handle, and every quota permit it was given is
  settled exactly once, in order.  The record is classified consistently: a rejected
  request was never forwarded, every outcome but success has a failure category, an account is
  complete only for a forwarded request with known input and output, and never for an incomplete
  stream; the tokens are plausible and the persisted names bounded.
\<close>

theorem recorded_once:
  fixes parse :: parser and now :: int and t :: nat and w :: web
  assumes "usage_handle_new uuid started path = Some ob" "list_all (\<lambda>p. \<not> qt_finished p) (permits_of ops)"
  defines "out \<equiv> observation_drop parse now t (usage_run w parse ops (ob, usage_out_empty))"
  shows "(\<exists>r. uo_records out = [r] \<and> record_ok r) \<and> map fst (uo_settlements out) = map qt_id (permits_of ops)"
proof -
  obtain ob' out' where f: "finalize parse now t (usage_run w parse ops (ob, usage_out_empty)) = (ob', out')"
    by fastforce
  have "usage_inv (permits_of ops) (ob', out')"
    using finalize_inv [OF usage_run_inv [OF handle_new_inv [OF assms(1)] assms(2)]] by (simp flip: f)
  moreover have "ob_recorded ob'"
    using arg_cong [OF f, of "\<lambda>p. ob_recorded (fst p)"] by (auto simp: finalize_def Let_def split: prod.splits if_splits)
  ultimately show ?thesis
    by (auto simp: out_def observation_drop_def f usage_inv_def drop_permit_ids pending_ids_def observation_ok_def
        length_Suc_conv)
qed

text \<open>
  C29. A settlement is certain, so that the reservation is replaced by the reported tokens, only
  when the request was never forwarded, and then nothing is charged, or when its
  record is a success with a complete account; in every other case the reservation stays held.
\<close>

theorem settlement_certain:
  fixes parse :: parser and now :: int and t :: nat and ob :: observation and out :: usage_out
  assumes "ob_quota ob = Some p" "\<not> ob_recorded ob" "observation_ok ob"
  defines "result \<equiv> finalize parse now t (ob, out)"
  shows "\<exists>actual certain. uo_settlements (snd result) = uo_settlements out @ [(qt_id p, actual, certain)]
    \<and> (\<not> qt_forwarded p \<longrightarrow> certain \<and> actual = Some 0)
    \<and> (qt_forwarded p \<longrightarrow> certain = (ud_outcome (ob_record (fst result)) = ''success''
          \<and> ud_quality (ob_record (fst result)) = ''complete'')
       \<and> (certain \<longrightarrow> (\<exists>i j. tk_input (ud_tokens (ob_record (fst result))) = Some i
            \<and> tk_output (ud_tokens (ob_record (fst result))) = Some j \<and> actual = Some (i + j))))"
proof -
  define ob1 where "ob1 = ob\<lparr> ob_recorded := True, ob_parser := fst (flush_event parse (ob_parser ob)) \<rparr>"
  define r where "r = final_record now t ob1"
  have res: "uo_settlements (snd result) = uo_settlements out @ [snd (permit_finish p (report_of r))]"
    "ob_record (fst result) = r"
    using assms(1,2) by (simp_all add: result_def finalize_def Let_def r_def ob1_def)
  have "observation_ok ob1" using assms(3) by (simp add: ob1_def observation_ok_def flush_event_ok)
  then have ok: "record_ok r" by (simp add: r_def final_record_ok)
  have small: "i + j \<le> u64_max" if "tk_input (ud_tokens r) = Some i" "tk_output (ud_tokens r) = Some j" for i j
  proof -
    from ok obtain q where "tokens_ok q (ud_tokens r)" by (auto simp: record_ok_def)
    then have "i \<le> 3 * MAX_COUNT" "j \<le> MAX_COUNT" using that by (simp_all add: tokens_ok_def)
    then show ?thesis by (simp add: MAX_COUNT_def)
  qed
  show ?thesis unfolding res
    using ok small by (auto simp: permit_finish_def report_of_def Let_def record_ok_def sat_add_def)
qed

text \<open>
  Usage is asked for only in a chat stream that did not ask for it, and nothing else of the
  request changes; \<open>print_parse\<close> is that \<open>serde_json\<close> reads back what it writes.
\<close>

lemma stream_usage_unchanged:
  "snd (request_stream_usage parse print body path) \<or> fst (request_stream_usage parse print body path) = body"
  by (auto simp: request_stream_usage_def split: option.split)

lemma stream_usage_asked:
  assumes print_parse: "\<And>v. \<exists>b. print v = Some b \<and> parse b = Some v"
    and asked: "request_stream_usage parse print body path = (body', True)"
  shows "path = ''/v1/chat/completions''
    \<and> (\<exists>v v'. parse body = Some v \<and> parse body' = Some v' \<and> json_field as_bool v ''stream'' = Some True
        \<and> Option.bind (json_pointer2 v ''stream_options'' ''include_usage'') as_bool \<noteq> Some True
        \<and> json_pointer2 v' ''stream_options'' ''include_usage'' = Some (JBool True)
        \<and> (\<forall>k. k \<noteq> ''stream_options'' \<longrightarrow> json_get v' k = json_get v k))"
proof -
  obtain v kvs options where v: "path = ''/v1/chat/completions''" "parse body = Some v" "json_field as_bool v ''stream'' = Some True"
    "Option.bind (json_pointer2 v ''stream_options'' ''include_usage'') as_bool \<noteq> Some True"
    "as_object v = Some kvs" "as_object (stream_options_of kvs) = Some options"
    using asked by (auto simp: request_stream_usage_def split: if_splits option.splits)
  define v' where "v' = JObject (hm_insert ''stream_options'' (JObject (hm_insert ''include_usage'' (JBool True) options)) kvs)"
  obtain b where b: "print v' = Some b" "parse b = Some v'" using print_parse by blast
  have eq: "v = JObject kvs" using v(5) by (cases v) simp_all
  have "body' = b" using asked v b(1) by (simp add: request_stream_usage_def v'_def)
  then have "parse body' = Some v'" using b(2) by simp
  moreover have "json_pointer2 v' ''stream_options'' ''include_usage'' = Some (JBool True)"
    by (simp add: v'_def json_pointer2_def)
  moreover have "\<forall>k. k \<noteq> ''stream_options'' \<longrightarrow> json_get v' k = json_get v k" by (simp add: v'_def eq)
  ultimately show ?thesis using v by blast
qed

definition demo_handle :: observation where
  "demo_handle = the (usage_handle_new ''u'' 0 ''/v1/chat/completions'')"

lemma demo_handle_new: "usage_handle_new ''u'' 0 ''/v1/chat/completions'' = Some demo_handle"
  by (simp add: demo_handle_def usage_handle_new_def usage_from_path_def)

theorem recorded_once_witness:
  "map fst (uo_settlements (observation_drop demo_parse 5 5 (usage_run demo_web demo_parse
     [UQuota demo_permit_q, UForwarded, UFinish 4 4 200 True, UQuota demo_permit_q] (demo_handle, usage_out_empty))))
   = [qt_id demo_permit_q, qt_id demo_permit_q]"
  using recorded_once [OF demo_handle_new, of "[UQuota demo_permit_q, UForwarded, UFinish 4 4 200 True, UQuota demo_permit_q]"
      demo_parse 5 5 demo_web]
  by (simp add: demo_permit_q_def)

theorem settlement_certain_witness:
  "\<exists>actual. uo_settlements (snd (finalize demo_parse 4 4
      (demo_handle\<lparr> ob_quota := Some (demo_permit_q\<lparr> qt_forwarded := True \<rparr>) \<rparr>, usage_out_empty))) = [(qt_id demo_permit_q, actual, False)]"
proof -
  let ?ob = "demo_handle\<lparr> ob_quota := Some (demo_permit_q\<lparr> qt_forwarded := True \<rparr>) \<rparr>"
  have h: "observation_ok demo_handle" "\<not> ob_recorded demo_handle" "\<not> ob_finished demo_handle"
    using handle_new_inv [OF demo_handle_new]
    by (simp_all add: usage_inv_def demo_handle_def usage_handle_new_def usage_from_path_def)
  then have "observation_ok ?ob" by (simp add: observation_ok_def demo_permit_q_def)
  from settlement_certain [of ?ob "demo_permit_q\<lparr> qt_forwarded := True \<rparr>" demo_parse 4 4 usage_out_empty] this h
  show ?thesis by (auto simp: finalize_def Let_def outcome_of_def usage_out_empty_def)
qed

end
