(* ===== verification/Proxy_Delivery.thy ===== *)
theory Proxy_Delivery
  imports Atomic_Budget "HOL-Library.Sublist"
begin

text \<open>
  The delivery of a response body to the client (\<open>bounded_delivery\<close> of
  \<open>src-tauri/src/commands/proxy_delivery.rs\<close>): a task cuts the body into bounded chunks, reserves memory
  for each, and hands them one at a time to the client's stream through a slot that is guarded
  by a lock and two notifications.  Every lock section, notification and suspension is a step of
  its own, and the steps of the two sides interleave freely with time-outs, with the client
  going away and with other users of the memory budget.

  A tokio \<open>Notify\<close> is a stored permit: \<open>notify_one\<close> wakes the waiter or stores the permit, and
  awaiting takes the permit or sleeps.
\<close>

definition DELIVERY_CHUNK :: nat where
  "DELIVERY_CHUNK = 64 * 1024"

definition RESPONSE_BUDGET :: nat where
  "RESPONSE_BUDGET = 256 * 1024 * 1024"

section \<open>State\<close>

type_synonym item = "string + bytes"

datatype producer =
  PRead
| PSlice bytes
| PCopy bytes bytes
| PNotify bytes
| PCheck bytes
| PAwait bytes
| PSleep bytes
| PTimedOut bytes
| PFinNotify
| PDone
| PAborted

datatype consumer = CIdle | CRun | CNotify | CAwait | CSleep | CEnd | CDropped

text \<open>
  \<open>dl_out\<close> is what the client has received, \<open>dl_others\<close> the memory reserved outside this delivery,
  chunks that the client still holds included, and \<open>dl_stalled\<close> the failure
  \<open>response_timeout\<close> noted in the account of the request.
\<close>

record delivery =
  dl_chunk :: "item option"
  dl_done :: bool
  dl_ready :: bool
  dl_consumed :: bool
  dl_pc :: producer
  dl_source :: "item list"
  dl_consumer :: consumer
  dl_out :: "item list"
  dl_others :: nat
  dl_stalled :: bool

definition bounded_delivery :: "nat \<Rightarrow> item list \<Rightarrow> delivery" where
  "bounded_delivery others source = \<lparr> dl_chunk = None, dl_done = False, dl_ready = False, dl_consumed = False,
     dl_pc = PRead, dl_source = source, dl_consumer = CIdle, dl_out = [], dl_others = others, dl_stalled = False \<rparr>"

fun item_bytes :: "item \<Rightarrow> bytes" where
  "item_bytes (Inl e) = []"
| "item_bytes (Inr b) = b"

definition chunk_bytes :: "delivery \<Rightarrow> bytes" where
  "chunk_bytes s = (case dl_chunk s of None \<Rightarrow> [] | Some x \<Rightarrow> item_bytes x)"

fun pc_reserved :: "producer \<Rightarrow> nat" where
  "pc_reserved (PCopy part rest) = length part * 2"
| "pc_reserved _ = 0"

text \<open>The shared counter \<open>RESPONSE_BYTES\<close>.\<close>

definition response_bytes :: "delivery \<Rightarrow> nat" where
  "response_bytes s = dl_others s + pc_reserved (dl_pc s) + length (chunk_bytes s)"

section \<open>Steps\<close>

definition notify_ready :: "delivery \<Rightarrow> delivery" where
  "notify_ready s = (if dl_consumer s = CSleep then s\<lparr> dl_consumer := CRun \<rparr> else s\<lparr> dl_ready := True \<rparr>)"

definition notify_consumed :: "delivery \<Rightarrow> delivery" where
  "notify_consumed s =
     (case dl_pc s of PSleep rest \<Rightarrow> s\<lparr> dl_pc := PCheck rest \<rparr> | _ \<Rightarrow> s\<lparr> dl_consumed := True \<rparr>)"

text \<open>\<open>finish\<close> up to the release of the lock; the notification follows.\<close>

definition finish :: "string option \<Rightarrow> delivery \<Rightarrow> delivery" where
  "finish err s =
     s\<lparr> dl_chunk := (case err of Some e \<Rightarrow> Some (Inl e) | None \<Rightarrow> dl_chunk s), dl_done := True, dl_pc := PFinNotify \<rparr>"

definition producer_step :: "delivery \<Rightarrow> delivery option" where
  "producer_step s =
     (case dl_pc s of
        PRead \<Rightarrow>
          (case dl_source s of
             [] \<Rightarrow> Some (finish None s)
           | Inl e # es \<Rightarrow> Some (finish (Some e) (s\<lparr> dl_source := es \<rparr>))
           | Inr b # es \<Rightarrow> Some (s\<lparr> dl_source := es, dl_pc := PSlice b \<rparr>))
      | PSlice bs \<Rightarrow>
          (if bs = [] then Some (s\<lparr> dl_pc := PRead \<rparr>)
           else (let part = take DELIVERY_CHUNK bs
                 in case reserve_next (length part * 2) RESPONSE_BUDGET (response_bytes s) of
                      None \<Rightarrow> Some (finish (Some ''response memory budget exhausted'') s)
                    | Some _ \<Rightarrow> Some (s\<lparr> dl_pc := PCopy part (drop DELIVERY_CHUNK bs) \<rparr>)))
      | PCopy part rest \<Rightarrow> Some (s\<lparr> dl_chunk := Some (Inr part), dl_pc := PNotify rest \<rparr>)
      | PNotify rest \<Rightarrow> Some (notify_ready (s\<lparr> dl_pc := PCheck rest \<rparr>))
      | PCheck rest \<Rightarrow> Some (s\<lparr> dl_pc := if dl_chunk s = None then PSlice rest else PAwait rest \<rparr>)
      | PAwait rest \<Rightarrow>
          Some (if dl_consumed s then s\<lparr> dl_consumed := False, dl_pc := PCheck rest \<rparr> else s\<lparr> dl_pc := PSleep rest \<rparr>)
      | PSleep rest \<Rightarrow> None
      | PTimedOut rest \<Rightarrow> Some (finish (Some ''downstream response stalled'') (s\<lparr> dl_stalled := True \<rparr>))
      | PFinNotify \<Rightarrow> Some (notify_ready (s\<lparr> dl_pc := PDone \<rparr>))
      | PDone \<Rightarrow> None
      | PAborted \<Rightarrow> None)"

definition consumer_step :: "delivery \<Rightarrow> delivery option" where
  "consumer_step s =
     (case dl_consumer s of
        CRun \<Rightarrow>
          (case dl_chunk s of
             Some x \<Rightarrow> Some (s\<lparr> dl_chunk := None, dl_out := dl_out s @ [x], dl_consumer := CNotify,
                              dl_others := dl_others s + length (item_bytes x) \<rparr>)
           | None \<Rightarrow> Some (s\<lparr> dl_consumer := if dl_done s then CEnd else CAwait \<rparr>))
      | CNotify \<Rightarrow> Some (notify_consumed (s\<lparr> dl_consumer := CIdle \<rparr>))
      | CAwait \<Rightarrow>
          Some (if dl_ready s then s\<lparr> dl_ready := False, dl_consumer := CRun \<rparr> else s\<lparr> dl_consumer := CSleep \<rparr>)
      | _ \<Rightarrow> None)"

inductive dl_step :: "delivery \<Rightarrow> delivery \<Rightarrow> bool" where
  produce: "producer_step s = Some t \<Longrightarrow> dl_step s t"
| consume: "consumer_step s = Some t \<Longrightarrow> dl_step s t"
| poll: "dl_consumer s = CIdle \<Longrightarrow> dl_step s (s\<lparr> dl_consumer := CRun \<rparr>)"
| time_out: "dl_pc s = PSleep rest \<Longrightarrow> dl_step s (s\<lparr> dl_pc := PTimedOut rest \<rparr>)"
| disconnect: "dl_consumer s \<in> {CIdle, CSleep, CEnd} \<Longrightarrow> dl_step s (s\<lparr> dl_consumer := CDropped \<rparr>)"
| abort: "dl_consumer s \<in> {CEnd, CDropped} \<Longrightarrow> dl_pc s = PRead \<or> dl_pc s = PSleep rest
    \<Longrightarrow> dl_step s (s\<lparr> dl_pc := PAborted, dl_chunk := None \<rparr>)"
| others: "n + pc_reserved (dl_pc s) + length (chunk_bytes s) \<le> RESPONSE_BUDGET
    \<Longrightarrow> dl_step s (s\<lparr> dl_others := n \<rparr>)"

section \<open>The invariant\<close>

fun pc_bytes :: "producer \<Rightarrow> bytes" where
  "pc_bytes (PSlice bs) = bs"
| "pc_bytes (PCopy part rest) = part @ rest"
| "pc_bytes (PNotify rest) = rest"
| "pc_bytes (PCheck rest) = rest"
| "pc_bytes (PAwait rest) = rest"
| "pc_bytes (PSleep rest) = rest"
| "pc_bytes (PTimedOut rest) = rest"
| "pc_bytes _ = []"

text \<open>The slot holds data only while the producer waits for it to be taken.\<close>

fun holds_slot :: "producer \<Rightarrow> bool" where
  "holds_slot (PNotify _) = True"
| "holds_slot (PCheck _) = True"
| "holds_slot (PAwait _) = True"
| "holds_slot (PSleep _) = True"
| "holds_slot (PTimedOut _) = True"
| "holds_slot _ = False"

fun notifying :: "producer \<Rightarrow> bool" where
  "notifying (PNotify _) = True"
| "notifying PFinNotify = True"
| "notifying _ = False"

fun sleeping :: "producer \<Rightarrow> bool" where
  "sleeping (PSleep _) = True"
| "sleeping _ = False"

fun awaiting :: "producer \<Rightarrow> bool" where
  "awaiting (PAwait _) = True"
| "awaiting _ = False"

definition delivered :: "delivery \<Rightarrow> bytes" where
  "delivered s = concat (map item_bytes (dl_out s))"

definition source_bytes :: "item list \<Rightarrow> bytes" where
  "source_bytes es = concat (map item_bytes (takeWhile (\<lambda>x. \<not> isl x) es))"

definition broken :: "delivery \<Rightarrow> bool" where
  "broken s \<longleftrightarrow> (\<exists>e. dl_chunk s = Some (Inl e)) \<or> list_ex isl (dl_out s)"

text \<open>What has been read is what was delivered, waits in the slot or is still with the producer.\<close>

definition rest_ok :: "item list \<Rightarrow> delivery \<Rightarrow> bool" where
  "rest_ok es s \<longleftrightarrow> (\<exists>pre. es = map Inr pre @ dl_source s \<and> concat pre = delivered s @ chunk_bytes s @ pc_bytes (dl_pc s))"

definition data_inv :: "item list \<Rightarrow> delivery \<Rightarrow> bool" where
  "data_inv es s \<longleftrightarrow>
     prefix (delivered s) (source_bytes es)
     \<and> (broken s \<or> dl_pc s = PAborted
        \<or> rest_ok es s)"

fun finished :: "producer \<Rightarrow> bool" where
  "finished PFinNotify = True"
| "finished PDone = True"
| "finished _ = False"

fun copy_ok :: "producer \<Rightarrow> bool" where
  "copy_ok (PCopy part rest) \<longleftrightarrow> 0 < length part \<and> length part \<le> DELIVERY_CHUNK"
| "copy_ok _ \<longleftrightarrow> True"

fun slot_ok :: "item option \<Rightarrow> producer \<Rightarrow> bool" where
  "slot_ok None pc \<longleftrightarrow> True"
| "slot_ok (Some (Inl e)) pc \<longleftrightarrow> finished pc"
| "slot_ok (Some (Inr b)) pc \<longleftrightarrow> holds_slot pc \<and> 0 < length b \<and> length b \<le> DELIVERY_CHUNK"

definition slot_inv :: "delivery \<Rightarrow> bool" where
  "slot_inv s \<longleftrightarrow>
     slot_ok (dl_chunk s) (dl_pc s) \<and> copy_ok (dl_pc s) \<and> (dl_done s \<longleftrightarrow> finished (dl_pc s))
     \<and> (list_ex isl (dl_out s) \<longrightarrow> finished (dl_pc s) \<and> dl_chunk s = None)
     \<and> (finished (dl_pc s) \<and> \<not> broken s \<longrightarrow> dl_source s = [])
     \<and> (dl_consumer s = CEnd \<longrightarrow> finished (dl_pc s) \<and> dl_chunk s = None)
     \<and> list_all (\<lambda>x. \<not> isl x) (butlast (dl_out s))
     \<and> response_bytes s \<le> RESPONSE_BUDGET"

text \<open>A side that sleeps, or is about to, with work to do has a notification stored or under way.\<close>

definition wake_inv :: "delivery \<Rightarrow> bool" where
  "wake_inv s \<longleftrightarrow>
     (dl_consumer s = CSleep \<longrightarrow> dl_chunk s \<noteq> None \<or> dl_done s \<longrightarrow> notifying (dl_pc s))
     \<and> (dl_consumer s = CAwait \<longrightarrow> dl_chunk s \<noteq> None \<or> dl_done s \<longrightarrow> dl_ready s \<or> notifying (dl_pc s))
     \<and> (sleeping (dl_pc s) \<longrightarrow> dl_chunk s = None \<longrightarrow> dl_consumer s = CNotify)
     \<and> (awaiting (dl_pc s) \<longrightarrow> dl_chunk s = None \<longrightarrow> dl_consumed s \<or> dl_consumer s = CNotify)
     \<and> (dl_pc s = PAborted \<longrightarrow> dl_consumer s = CDropped)"

definition dl_inv :: "item list \<Rightarrow> delivery \<Rightarrow> bool" where
  "dl_inv es s \<longleftrightarrow> data_inv es s \<and> slot_inv s \<and> wake_inv s"

lemma list_ex_isl [simp]: "list_ex isl xs \<longleftrightarrow> \<not> list_all (\<lambda>x. \<not> isl x) xs"
  by (induction xs) auto

lemmas step_simps = producer_step_def consumer_step_def finish_def notify_ready_def notify_consumed_def Let_def

lemma reserve_next_Some: "reserve_next n limit c = Some m \<Longrightarrow> m = c + n \<and> c + n \<le> limit"
  by (auto simp: reserve_next_def checked_add_def split: option.splits if_splits)

text \<open>The producer's steps, one case per instruction.\<close>

lemma producer_cases:
  assumes "producer_step s = Some t"
  obtains (read) b rest where "dl_pc s = PRead" "dl_source s = Inr b # rest" "t = s\<lparr> dl_source := rest, dl_pc := PSlice b \<rparr>"
  | (failed) e rest where "dl_pc s = PRead" "dl_source s = Inl e # rest" "t = finish (Some e) (s\<lparr> dl_source := rest \<rparr>)"
  | (eof) "dl_pc s = PRead" "dl_source s = []" "t = finish None s"
  | (sliced) "dl_pc s = PSlice []" "t = s\<lparr> dl_pc := PRead \<rparr>"
  | (exhausted) bs where "dl_pc s = PSlice bs" "bs \<noteq> []" "t = finish (Some ''response memory budget exhausted'') s"
  | (reserve) bs where "dl_pc s = PSlice bs" "bs \<noteq> []"
      "response_bytes s + length (take DELIVERY_CHUNK bs) * 2 \<le> RESPONSE_BUDGET"
      "t = s\<lparr> dl_pc := PCopy (take DELIVERY_CHUNK bs) (drop DELIVERY_CHUNK bs) \<rparr>"
  | (publish) part rest where "dl_pc s = PCopy part rest" "t = s\<lparr> dl_chunk := Some (Inr part), dl_pc := PNotify rest \<rparr>"
  | (notify) rest where "dl_pc s = PNotify rest" "t = notify_ready (s\<lparr> dl_pc := PCheck rest \<rparr>)"
  | (drained) rest where "dl_pc s = PCheck rest" "dl_chunk s = None" "t = s\<lparr> dl_pc := PSlice rest \<rparr>"
  | (waiting) rest where "dl_pc s = PCheck rest" "dl_chunk s \<noteq> None" "t = s\<lparr> dl_pc := PAwait rest \<rparr>"
  | (permit) rest where "dl_pc s = PAwait rest" "dl_consumed s" "t = s\<lparr> dl_consumed := False, dl_pc := PCheck rest \<rparr>"
  | (sleep) rest where "dl_pc s = PAwait rest" "\<not> dl_consumed s" "t = s\<lparr> dl_pc := PSleep rest \<rparr>"
  | (stalled) rest where "dl_pc s = PTimedOut rest"
      "t = finish (Some ''downstream response stalled'') (s\<lparr> dl_stalled := True \<rparr>)"
  | (finnotify) "dl_pc s = PFinNotify" "t = notify_ready (s\<lparr> dl_pc := PDone \<rparr>)"
proof (cases "dl_pc s")
  case PRead
  then show ?thesis using assms read failed eof by (auto simp: producer_step_def split: list.splits sum.splits)
next
  case (PSlice bs)
  then show ?thesis using assms sliced exhausted reserve
    by (auto simp: producer_step_def Let_def dest!: reserve_next_Some split: if_splits option.splits)
next
  case (PCheck rest)
  then show ?thesis using assms drained waiting by (cases "dl_chunk s") (auto simp: producer_step_def)
next
  case (PAwait rest)
  then show ?thesis using assms permit sleep by (cases "dl_consumed s") (auto simp: producer_step_def)
qed (use assms publish notify stalled finnotify in \<open>auto simp: producer_step_def\<close>)

lemma consumer_cases:
  assumes "consumer_step s = Some t"
  obtains (take) x where "dl_consumer s = CRun" "dl_chunk s = Some x"
      "t = s\<lparr> dl_chunk := None, dl_out := dl_out s @ [x], dl_consumer := CNotify,
              dl_others := dl_others s + length (item_bytes x) \<rparr>"
  | (finished) "dl_consumer s = CRun" "dl_chunk s = None" "dl_done s" "t = s\<lparr> dl_consumer := CEnd \<rparr>"
  | (empty) "dl_consumer s = CRun" "dl_chunk s = None" "\<not> dl_done s" "t = s\<lparr> dl_consumer := CAwait \<rparr>"
  | (wake) rest where "dl_consumer s = CNotify" "dl_pc s = PSleep rest" "t = s\<lparr> dl_consumer := CIdle, dl_pc := PCheck rest \<rparr>"
  | (store) "dl_consumer s = CNotify" "\<not> sleeping (dl_pc s)" "t = s\<lparr> dl_consumer := CIdle, dl_consumed := True \<rparr>"
  | (permit) "dl_consumer s = CAwait" "dl_ready s" "t = s\<lparr> dl_ready := False, dl_consumer := CRun \<rparr>"
  | (sleep) "dl_consumer s = CAwait" "\<not> dl_ready s" "t = s\<lparr> dl_consumer := CSleep \<rparr>"
proof (cases "dl_consumer s")
  case CRun
  show ?thesis
  proof (cases "dl_chunk s")
    case None
    then show ?thesis using assms CRun finished empty by (cases "dl_done s") (simp_all add: consumer_step_def)
  next
    case (Some x)
    then show ?thesis using assms CRun by (intro take [of x]) (simp_all add: consumer_step_def)
  qed
next
  case CNotify
  then show ?thesis using assms wake store by (cases "dl_pc s") (auto simp: consumer_step_def notify_consumed_def)
next
  case CAwait
  then show ?thesis using assms permit sleep by (cases "dl_ready s") (auto simp: consumer_step_def)
qed (use assms in \<open>simp_all add: consumer_step_def\<close>)

lemma finished_iff: "finished pc \<longleftrightarrow> pc = PFinNotify \<or> pc = PDone"
  by (cases pc) simp_all

fun small_item :: "item option \<Rightarrow> bool" where
  "small_item (Some (Inr b)) \<longleftrightarrow> 0 < length b \<and> length b \<le> DELIVERY_CHUNK"
| "small_item (Some (Inl e)) \<longleftrightarrow> False"
| "small_item None \<longleftrightarrow> True"

fun no_data :: "item option \<Rightarrow> bool" where
  "no_data (Some (Inr b)) \<longleftrightarrow> False"
| "no_data _ \<longleftrightarrow> True"

lemma slot_ok_simps [simp]:
  "slot_ok c PRead \<longleftrightarrow> c = None" "slot_ok c (PSlice bs) \<longleftrightarrow> c = None" "slot_ok c (PCopy part rest) \<longleftrightarrow> c = None"
  "slot_ok c PAborted \<longleftrightarrow> c = None" "slot_ok c (PNotify rest) \<longleftrightarrow> small_item c" "slot_ok c (PCheck rest) \<longleftrightarrow> small_item c"
  "slot_ok c (PAwait rest) \<longleftrightarrow> small_item c" "slot_ok c (PSleep rest) \<longleftrightarrow> small_item c"
  "slot_ok c (PTimedOut rest) \<longleftrightarrow> small_item c" "slot_ok c PFinNotify \<longleftrightarrow> no_data c" "slot_ok c PDone \<longleftrightarrow> no_data c"
  by (cases c; cases "the c"; simp)+

lemma slot_facts:
  assumes "slot_inv s"
  shows "dl_done s \<longleftrightarrow> finished (dl_pc s)" "dl_chunk s \<noteq> None \<Longrightarrow> holds_slot (dl_pc s) \<or> finished (dl_pc s)"
proof -
  show "dl_done s \<longleftrightarrow> finished (dl_pc s)" using assms by (simp add: slot_inv_def)
  assume "dl_chunk s \<noteq> None"
  then obtain x where "dl_chunk s = Some x" by blast
  then show "holds_slot (dl_pc s) \<or> finished (dl_pc s)"
    using assms by (cases x) (auto simp: slot_inv_def)
qed

lemma wake_produce:
  assumes "producer_step s = Some t" "slot_inv s" "wake_inv s"
  shows "wake_inv t"
  using assms(1) assms(3) slot_facts [OF assms(2)]
  by (cases rule: producer_cases) (auto simp: wake_inv_def finish_def notify_ready_def)

lemma wake_consume:
  assumes "consumer_step s = Some t" "slot_inv s" "wake_inv s"
  shows "wake_inv t"
  using assms(1) assms(3) slot_facts [OF assms(2)]
proof (cases rule: consumer_cases)
  case store
  then show ?thesis using assms(3) by (cases "dl_pc s") (auto simp: wake_inv_def)
qed (auto simp: wake_inv_def)

lemma wake_step: "dl_step s t \<Longrightarrow> slot_inv s \<Longrightarrow> wake_inv s \<Longrightarrow> wake_inv t"
proof (induction rule: dl_step.induct)
  case (produce s t)
  then show ?case by (rule wake_produce)
next
  case (consume s t)
  then show ?case by (rule wake_consume)
next
  case (abort s rest)
  then have "dl_consumer s = CDropped" by (auto simp: slot_inv_def)
  then show ?case by (simp add: wake_inv_def)
next
  case (disconnect s)
  then show ?case by (cases "dl_consumer s") (simp_all add: wake_inv_def)
qed (simp_all add: wake_inv_def)

lemma slot_produce:
  assumes "producer_step s = Some t" "slot_inv s"
  shows "slot_inv t"
  using assms
  by (cases rule: producer_cases)
    (auto simp: slot_inv_def finish_def notify_ready_def response_bytes_def chunk_bytes_def broken_def DELIVERY_CHUNK_def
      split: option.splits)

lemma slot_consume:
  assumes "consumer_step s = Some t" "slot_inv s"
  shows "slot_inv t"
  using assms
proof (cases rule: consumer_cases)
  case (take x)
  then show ?thesis using assms(2)
    by (cases x) (auto simp: slot_inv_def response_bytes_def chunk_bytes_def broken_def)
qed (auto simp: slot_inv_def response_bytes_def chunk_bytes_def broken_def)

lemma slot_step: "dl_step s t \<Longrightarrow> slot_inv s \<Longrightarrow> slot_inv t"
proof (induction rule: dl_step.induct)
  case (produce s t)
  then show ?case by (rule slot_produce)
next
  case (consume s t)
  then show ?case by (rule slot_consume)
qed (auto simp: slot_inv_def response_bytes_def chunk_bytes_def broken_def)

lemma takeWhile_Inr: "takeWhile (\<lambda>x. \<not> isl x) (map Inr pre @ es) = map Inr pre @ takeWhile (\<lambda>x. \<not> isl x) es"
  by (induction pre) simp_all

lemma source_bytes_append: "source_bytes (map Inr pre @ es) = concat pre @ source_bytes es"
proof -
  have "map item_bytes (map Inr pre) = pre" by (induction pre) simp_all
  then show ?thesis by (simp add: source_bytes_def takeWhile_Inr)
qed

lemma rest_ok_prefix: "rest_ok es s \<Longrightarrow> prefix (delivered s @ chunk_bytes s) (source_bytes es)"
  by (auto simp: rest_ok_def source_bytes_append)

lemma rest_ok_cong:
  "rest_ok es s \<Longrightarrow> dl_source t = dl_source s \<Longrightarrow> delivered t @ chunk_bytes t @ pc_bytes (dl_pc t)
     = delivered s @ chunk_bytes s @ pc_bytes (dl_pc s) \<Longrightarrow> rest_ok es t"
  by (simp add: rest_ok_def)

lemma rest_ok_read:
  assumes "rest_ok es s" "dl_source s = Inr b # rest" "dl_pc s = PRead"
  shows "rest_ok es (s\<lparr> dl_source := rest, dl_pc := PSlice b \<rparr>)"
proof -
  from assms obtain pre where "es = map Inr pre @ dl_source s" "concat pre = delivered s @ chunk_bytes s"
    by (auto simp: rest_ok_def)
  then have "es = map Inr (pre @ [b]) @ rest \<and> concat (pre @ [b]) = delivered s @ chunk_bytes s @ b"
    using assms(2) by simp
  then show ?thesis unfolding rest_ok_def by (auto simp: delivered_def chunk_bytes_def intro!: exI [of _ "pre @ [b]"])
qed

lemma data_produce:
  assumes "producer_step s = Some t" "slot_inv s" "data_inv es s"
  shows "data_inv es t"
  using assms(1)
proof (cases rule: producer_cases)
  case (read b rest)
  then show ?thesis using assms(3) rest_ok_read [of es s b rest]
    by (auto simp: data_inv_def broken_def delivered_def)
qed (use assms(2,3) in \<open>auto simp: data_inv_def slot_inv_def broken_def delivered_def chunk_bytes_def rest_ok_def
    finish_def notify_ready_def\<close>)

lemma data_consume:
  assumes "consumer_step s = Some t" "slot_inv s" "data_inv es s"
  shows "data_inv es t"
proof -
  show ?thesis using assms(1)
  proof (cases rule: consumer_cases)
    case (take x)
    have d: "delivered t = delivered s @ chunk_bytes s" "chunk_bytes t = []"
      by (simp_all add: take delivered_def chunk_bytes_def)
    show ?thesis
    proof (cases x)
      case (Inl e)
      then have "broken t" "delivered t = delivered s" by (simp_all add: take broken_def delivered_def)
      then show ?thesis using assms(3) by (simp add: data_inv_def)
    next
      case (Inr b)
      then have "\<not> broken s" "dl_pc s \<noteq> PAborted"
        using assms(2) take by (auto simp: slot_inv_def broken_def)
      then have r: "rest_ok es s" using assms(3) by (simp add: data_inv_def)
      then have "rest_ok es t" by (rule rest_ok_cong) (simp_all add: d, simp_all add: take)
      moreover have "prefix (delivered t) (source_bytes es)" using rest_ok_prefix [OF r] d by simp
      ultimately show ?thesis by (simp add: data_inv_def)
    qed
  qed (use assms(3) in \<open>auto simp: data_inv_def broken_def delivered_def chunk_bytes_def rest_ok_def\<close>)
qed

lemma data_step: "dl_step s t \<Longrightarrow> slot_inv s \<Longrightarrow> data_inv es s \<Longrightarrow> data_inv es t"
proof (induction rule: dl_step.induct)
  case (produce s t)
  then show ?case by (rule data_produce)
next
  case (consume s t)
  then show ?case by (rule data_consume)
qed (simp_all add: data_inv_def broken_def delivered_def chunk_bytes_def rest_ok_def)

definition dl_init :: "item list \<Rightarrow> delivery \<Rightarrow> bool" where
  "dl_init es s \<longleftrightarrow> (\<exists>n \<le> RESPONSE_BUDGET. s = bounded_delivery n es)"

lemma dl_init_inv: "dl_init es s \<Longrightarrow> dl_inv es s"
  by (auto simp: dl_init_def dl_inv_def bounded_delivery_def data_inv_def slot_inv_def wake_inv_def rest_ok_def
      delivered_def chunk_bytes_def response_bytes_def)

interpretation delivery: invariant_system "dl_init es" dl_step "dl_inv es"
  by unfold_locales (simp_all add: dl_init_inv, auto simp: dl_inv_def intro: data_step slot_step wake_step)

section \<open>Every delivery ends\<close>

text \<open>A weight that every step of the delivery lowers.\<close>

fun item_weight :: "item \<Rightarrow> nat" where
  "item_weight (Inl e) = 40"
| "item_weight (Inr b) = 40 + 40 * length b"

fun pc_weight :: "producer \<Rightarrow> nat" where
  "pc_weight PRead = 20"
| "pc_weight (PSlice bs) = 40 * length bs + 21"
| "pc_weight (PCopy part rest) = 40 * (length part + length rest) + 20"
| "pc_weight (PNotify rest) = 40 * length rest + 28"
| "pc_weight (PCheck rest) = 40 * length rest + 25"
| "pc_weight (PAwait rest) = 40 * length rest + 24"
| "pc_weight (PSleep rest) = 40 * length rest + 23"
| "pc_weight (PTimedOut rest) = 40 * length rest + 12"
| "pc_weight PFinNotify = 3"
| "pc_weight PDone = 0"
| "pc_weight PAborted = 0"

fun consumer_weight :: "consumer \<Rightarrow> nat" where
  "consumer_weight CNotify = 9"
| "consumer_weight CIdle = 5"
| "consumer_weight CRun = 4"
| "consumer_weight CAwait = 3"
| "consumer_weight CSleep = 2"
| "consumer_weight CEnd = 1"
| "consumer_weight CDropped = 0"

definition delivery_weight :: "delivery \<Rightarrow> nat" where
  "delivery_weight s = sum_list (map item_weight (dl_source s)) + pc_weight (dl_pc s) + consumer_weight (dl_consumer s)
     + (if dl_chunk s = None then 0 else 6) + (if dl_ready s then 2 else 0) + (if dl_consumed s then 3 else 0)"

lemma notify_ready_weight: "delivery_weight (notify_ready s) \<le> delivery_weight s + 2"
  by (simp add: notify_ready_def delivery_weight_def)

lemma finish_weight:
  "delivery_weight (finish err s) + pc_weight (dl_pc s) + (if dl_chunk s = None then 0 else 6) \<le> delivery_weight s + 9"
  by (cases err) (simp_all add: finish_def delivery_weight_def)

lemma produce_weight:
  assumes "producer_step s = Some t" "slot_inv s"
  shows "delivery_weight t < delivery_weight s"
  using assms(1)
proof (cases rule: producer_cases)
  case (failed e rest)
  then show ?thesis using finish_weight [of "Some e" "s\<lparr> dl_source := rest \<rparr>"] by (simp add: delivery_weight_def)
next
  case eof
  then show ?thesis using finish_weight [of None s] by simp
next
  case (exhausted bs)
  then show ?thesis using finish_weight [of "Some ''response memory budget exhausted''" s] by simp
next
  case (publish part rest)
  moreover have "part \<noteq> []" "dl_chunk s = None" using publish assms(2) by (auto simp: slot_inv_def)
  ultimately show ?thesis by (cases part) (simp_all add: delivery_weight_def)
next
  case (notify rest)
  then show ?thesis using notify_ready_weight [of "s\<lparr> dl_pc := PCheck rest \<rparr>"] by (simp add: delivery_weight_def)
next
  case (stalled rest)
  then show ?thesis using finish_weight [of "Some ''downstream response stalled''" "s\<lparr> dl_stalled := True \<rparr>"]
    by (simp add: delivery_weight_def)
next
  case finnotify
  then show ?thesis using notify_ready_weight [of "s\<lparr> dl_pc := PDone \<rparr>"] by (simp add: delivery_weight_def)
qed (simp_all add: delivery_weight_def)

lemma consume_weight: "consumer_step s = Some t \<Longrightarrow> delivery_weight t < delivery_weight s"
  by (erule consumer_cases) (simp_all add: delivery_weight_def)

lemma step_weight:
  assumes "dl_step s t" "slot_inv s"
  shows "delivery_weight t < delivery_weight s \<or> (\<exists>n. t = s\<lparr> dl_others := n \<rparr>)"
  using assms
proof (induction rule: dl_step.induct)
  case (produce s t)
  then show ?case using produce_weight by blast
next
  case (consume s t)
  then show ?case using consume_weight by blast
next
  case (abort s rest)
  then have "pc_weight (dl_pc s) > 0" by auto
  then show ?case by (simp add: delivery_weight_def)
qed (auto simp: delivery_weight_def)

lemma stuck_ended:
  assumes inv: "dl_inv es s" and stuck: "\<And>t. dl_step s t \<Longrightarrow> \<exists>n. t = s\<lparr> dl_others := n \<rparr>"
  shows "dl_consumer s = CDropped \<and> dl_pc s \<in> {PDone, PAborted} \<and> response_bytes s = dl_others s"
proof -
  have slot: "slot_inv s" and wake: "wake_inv s" using inv by (simp_all add: dl_inv_def)
  have no: "\<not> dl_step s t" if "delivery_weight t < delivery_weight s" for t
    using stuck [of t] that by (auto simp: delivery_weight_def)
  have p: "producer_step s = None" and c: "consumer_step s = None"
    using no produce_weight [OF _ slot] consume_weight produce consume by (metis not_None_eq)+
  have "dl_consumer s \<noteq> CIdle" using no [of "s\<lparr> dl_consumer := CRun \<rparr>"] poll by (auto simp: delivery_weight_def)
  moreover have "dl_consumer s \<noteq> CSleep" "dl_consumer s \<noteq> CEnd"
    using no [of "s\<lparr> dl_consumer := CDropped \<rparr>"] disconnect by (auto simp: delivery_weight_def)
  ultimately have d: "dl_consumer s = CDropped"
    using c by (cases "dl_consumer s") (auto simp: consumer_step_def split: option.splits)
  then have "dl_pc s \<noteq> PSleep rest" for rest
    using no [of "s\<lparr> dl_pc := PAborted, dl_chunk := None \<rparr>"] abort [of s rest] by (auto simp: delivery_weight_def)
  then have "dl_pc s = PDone \<or> dl_pc s = PAborted"
    using p by (cases "dl_pc s") (auto simp: producer_step_def Let_def split: list.splits sum.splits option.splits if_splits)
  moreover have "response_bytes s = dl_others s"
    using calculation slot by (cases "dl_chunk s"; cases "the (dl_chunk s)") (auto simp: response_bytes_def chunk_bytes_def slot_inv_def)
  ultimately show ?thesis using d by simp
qed

section \<open>What a delivery promises\<close>

text \<open>
  C30. In every interleaving the client receives a prefix of the body, nothing after an error, and
  all of it when its stream ends without an error, which then the upstream had not
  reported either; each chunk is small, and memory reserved for responses never exceeds the budget.
\<close>

theorem delivery_faithful:
  assumes "reach (dl_init es) dl_step s"
  shows "prefix (delivered s) (source_bytes es) \<and> list_all (\<lambda>x. \<not> isl x) (butlast (dl_out s))
    \<and> (dl_consumer s = CEnd \<and> list_all (\<lambda>x. \<not> isl x) (dl_out s) \<longrightarrow>
          list_all (\<lambda>x. \<not> isl x) es \<and> delivered s = source_bytes es)
    \<and> (\<forall>b. dl_chunk s = Some (Inr b) \<longrightarrow> 0 < length b \<and> length b \<le> DELIVERY_CHUNK)
    \<and> response_bytes s \<le> RESPONSE_BUDGET"
proof -
  have inv: "data_inv es s" "slot_inv s" using delivery.reach_inv [OF assms] by (simp_all add: dl_inv_def)
  have full: "list_all (\<lambda>x. \<not> isl x) es \<and> delivered s = source_bytes es"
    if e: "dl_consumer s = CEnd" "list_all (\<lambda>x. \<not> isl x) (dl_out s)"
  proof -
    have f: "finished (dl_pc s)" "dl_chunk s = None" "\<not> broken s"
      using inv(2) e by (auto simp: slot_inv_def broken_def)
    then have "dl_source s = []" using inv(2) by (simp add: slot_inv_def)
    moreover have "rest_ok es s" "pc_bytes (dl_pc s) = []" using inv(1) f by (auto simp: data_inv_def finished_iff)
    ultimately obtain pre where "es = map Inr pre @ []" "concat pre = delivered s"
      using f(2) by (auto simp: rest_ok_def chunk_bytes_def)
    then show ?thesis using source_bytes_append [of pre "[]"] by (simp add: list_all_iff source_bytes_def)
  qed
  have "0 < length b \<and> length b \<le> DELIVERY_CHUNK" if "dl_chunk s = Some (Inr b)" for b
    using inv(2) that by (simp add: slot_inv_def)
  then show ?thesis using inv full by (simp add: data_inv_def slot_inv_def)
qed

text \<open>
  C31. No notification is lost and every delivery ends: while the client waits for data some step of
  the two sides is possible; every step but the memory use of others lowers a weight, so no run
  goes on for ever; and when none is left the client is gone, the task has ended and the delivery
  holds no memory.
\<close>

theorem delivery_ends:
  assumes "reach (dl_init es) dl_step s"
  shows "(dl_consumer s \<in> {CRun, CNotify, CAwait, CSleep} \<longrightarrow> producer_step s \<noteq> None \<or> consumer_step s \<noteq> None)
    \<and> (\<forall>t. dl_step s t \<longrightarrow> delivery_weight t < delivery_weight s \<or> (\<exists>n. t = s\<lparr> dl_others := n \<rparr>))
    \<and> ((\<forall>t. dl_step s t \<longrightarrow> (\<exists>n. t = s\<lparr> dl_others := n \<rparr>)) \<longrightarrow>
          dl_consumer s = CDropped \<and> dl_pc s \<in> {PDone, PAborted} \<and> response_bytes s = dl_others s)"
proof -
  have inv: "dl_inv es s" using delivery.reach_inv [OF assms] .
  then have slot: "slot_inv s" and wake: "wake_inv s" by (simp_all add: dl_inv_def)
  have "producer_step s \<noteq> None" if c: "dl_consumer s = CSleep"
  proof
    assume "producer_step s = None"
    then have "(\<exists>rest. dl_pc s = PSleep rest) \<or> dl_pc s = PDone \<or> dl_pc s = PAborted"
      by (cases "dl_pc s") (auto simp: producer_step_def Let_def split: list.splits sum.splits option.splits if_splits)
    then show False using c wake slot by (auto simp: wake_inv_def slot_inv_def)
  qed
  then have "producer_step s \<noteq> None \<or> consumer_step s \<noteq> None" if "dl_consumer s \<in> {CRun, CNotify, CAwait, CSleep}"
    using that by (auto simp: consumer_step_def split: option.splits)
  then show ?thesis using step_weight [OF _ slot] stuck_ended [OF inv] by blast
qed

definition demo_delivery :: delivery where
  "demo_delivery = (bounded_delivery 0 [Inr ''ok''])\<lparr> dl_source := [], dl_pc := PSlice ''ok'' \<rparr>"

lemma demo_delivery_reached: "reach (dl_init [Inr ''ok'']) dl_step demo_delivery"
proof -
  have "dl_init [Inr ''ok''] (bounded_delivery 0 [Inr ''ok''])" by (auto simp: dl_init_def)
  moreover have "dl_step (bounded_delivery 0 [Inr ''ok'']) demo_delivery"
    by (rule produce) (simp add: producer_step_def bounded_delivery_def demo_delivery_def)
  ultimately show ?thesis by (blast intro: reach_init reach_step)
qed

theorem delivery_faithful_witness: "response_bytes demo_delivery \<le> RESPONSE_BUDGET \<and> prefix (delivered demo_delivery) ''ok''"
  using delivery_faithful [OF demo_delivery_reached] by (simp add: source_bytes_def)

theorem delivery_ends_witness:
  "\<exists>t. dl_step demo_delivery t \<and> delivery_weight t < delivery_weight demo_delivery"
proof -
  have idle: "dl_consumer demo_delivery = CIdle" by (simp add: demo_delivery_def bounded_delivery_def)
  then obtain t where t: "dl_step demo_delivery t" "dl_consumer t = CRun" using poll by fastforce
  with idle have "\<not> (\<exists>n. t = demo_delivery\<lparr> dl_others := n \<rparr>)" by auto
  with t(1) show ?thesis using delivery_ends [OF demo_delivery_reached] by blast
qed

end
