(* ===== verification/Proxy_Upstream.thy ===== *)
theory Proxy_Upstream
  imports Usage_Record Tool_History Proxy_Discovery
begin

text \<open>
  The request handler of the router, \<open>proxy_upstream\<close> of \<open>src-tauri/src/commands/proxy.rs\<close>: it puts
  together what the other theories model.  A request passes validation, routing, target selection,
  quota preflight, context check, authorization and reservation; then it is forwarded, and its
  answer is buffered, relayed line by line, or relayed as it is.

  The state is threaded through the stages in \<open>gateway\<close>.  At each suspension other requests may
  change the shared router state and the ledger: \<open>ve_others\<close> and \<open>ve_others_ledger\<close> say how.
  Parameters for code outside the repository: the JSON library, the HTTP client (\<open>ve_send\<close> for
  the token counts, \<open>ve_props\<close> for the properties of a target, \<open>ve_call\<close> for the forwarded
  request), the line codec of the stream and the clocks.
\<close>

unbundle bit_operations_syntax

definition MAX_PROXY_JSON_RESPONSE_BYTES :: nat where
  "MAX_PROXY_JSON_RESPONSE_BYTES = 16 * 1024 * 1024"

section \<open>State and surroundings\<close>

record telemetry_record =
  tm_session :: "string option"
  tm_task_id :: "32 word"
  tm_model :: "string option"
  tm_target :: string
  tm_http_status :: "nat option"
  tm_error_text :: "string option"
  tm_format :: api_format
  tm_vector :: "vector_request_metadata option"

datatype call_result =
  HeaderTimeout
| CallFailed bool string
| Answered nat headers "nat option" "body_event list"

datatype line_event = Line string | LineError string | LineIdle

record gateway =
  gw_rr :: rr
  gw_ledger :: ledger
  gw_usage :: "observation \<times> usage_out"
  gw_telemetry :: "telemetry_record list"
  gw_sent :: "(resolved_target \<times> string \<times> headers \<times> bytes) list"
  gw_task :: "32 word"

record upstream_env =
  ve_web :: web
  ve_parse :: parser
  ve_print :: printer
  ve_reason :: "nat \<Rightarrow> string option"
  ve_rid :: string
  ve_rid2 :: string
  ve_resolve :: "string option \<Rightarrow> model_workload option \<Rightarrow> request_resolution"
  ve_config :: proxy_config
  ve_others :: "nat \<Rightarrow> rr \<Rightarrow> rr"
  ve_others_ledger :: "ledger \<Rightarrow> ledger"
  ve_send :: "resolved_target \<Rightarrow> sender"
  ve_props :: "resolved_target \<Rightarrow> json option"
  ve_call :: "resolved_target \<Rightarrow> string \<Rightarrow> headers \<Rightarrow> bytes \<Rightarrow> call_result"
  ve_lines :: "body_event list \<Rightarrow> line_event list"
  ve_resize :: "nat \<Rightarrow> bool"
  ve_seed :: "32 word"
  ve_now :: nat
  ve_now_ms :: int
  ve_elapsed :: nat
  ve_latency :: rat
  ve_faults :: faults
  ve_month_start :: "int \<Rightarrow> string + int"

definition on_rr :: "(rr \<Rightarrow> rr) \<Rightarrow> gateway \<Rightarrow> gateway" where
  "on_rr f g = g\<lparr> gw_rr := f (gw_rr g) \<rparr>"

definition on_usage :: "(observation \<Rightarrow> observation) \<Rightarrow> gateway \<Rightarrow> gateway" where
  "on_usage f g = g\<lparr> gw_usage := (f (fst (gw_usage g)), snd (gw_usage g)) \<rparr>"

definition suspend :: "upstream_env \<Rightarrow> nat \<Rightarrow> gateway \<Rightarrow> gateway" where
  "suspend env k g = g\<lparr> gw_rr := ve_others env k (gw_rr g), gw_ledger := ve_others_ledger env (gw_ledger g) \<rparr>"

text \<open>What the permits of a request give back when they are dropped.\<close>

definition release_admitted :: "u64 \<times> nat \<Rightarrow> rr \<Rightarrow> rr" where
  "release_admitted p r = release_admission (fst p) (body_permit_drop (snd p) r)"

definition release_all :: "u64 \<times> nat \<Rightarrow> target_permit \<Rightarrow> rr \<Rightarrow> rr" where
  "release_all p tp r = release_admitted p (target_permit_drop tp r)"

text \<open>\<open>fetch_add\<close> on the task counter, which is seeded on its first use.\<close>

definition next_proxy_task_id :: "32 word \<Rightarrow> 32 word \<Rightarrow> 32 word \<times> 32 word" where
  "next_proxy_task_id seed counter =
     (let c = (if counter = 0 then (let s = seed OR 0x80000000 in if s = 0 then 1 else s) else counter)
      in (c, c + 1))"

definition local_error :: "upstream_env \<Rightarrow> api_format \<Rightarrow> nat \<Rightarrow> string \<Rightarrow> response" where
  "local_error env format status message = error_response (wb_header_ok (ve_web env)) (ve_rid env) format status message"

section \<open>Before a target is chosen\<close>

record request_plan =
  rp_body :: bytes
  rp_requested :: "string option"
  rp_metadata :: "vector_request_metadata option"
  rp_streaming :: bool
  rp_resolution :: request_resolution

definition plan_workload :: "request_plan \<Rightarrow> model_workload option" where
  "plan_workload p = map_option vm_workload (rp_metadata p)"

text \<open>\<open>body\<close> is the rejection status of the body extractor, or the bytes.\<close>

definition upstream_plan ::
  "upstream_env \<Rightarrow> string \<Rightarrow> string \<Rightarrow> auth_context \<Rightarrow> nat + bytes \<Rightarrow> gateway \<Rightarrow> gateway \<times> (response + request_plan)" where
  "upstream_plan env method path auth body g =
     (let format = format_from_path path; err = local_error env format; ok = wb_header_ok (ve_web env)
      in if is_anthropic format \<and> method \<noteq> ''POST'' then (g, Inl (err 405 ''Anthropic Messages endpoints require POST''))
         else case body of
           Inl status \<Rightarrow>
             (g, Inl (err status (if status = 413
                then ''request body exceeds the '' @ show_nat MAX_ANTHROPIC_REQUEST_BODY_BYTES @ '' byte limit''
                else ''failed to read request body'')))
         | Inr bytes \<Rightarrow>
             (case requested_model_from_body (ve_parse env) bytes of
                Inl e \<Rightarrow> (g, Inl (err 400 e))
              | Inr requested \<Rightarrow>
                  (let g1 = on_usage (usage_request (ve_parse env) bytes) g;
                       metadata = vector_request_metadata_of (ve_parse env) path bytes;
                       resolution = ve_resolve env requested (map_option vm_workload metadata)
                   in if \<not> still_authorized auth (rq_config resolution) path
                      then (g1, Inl (err 401 ''API key authorization changed''))
                      else case validate (ve_parse env) path bytes of
                        Some e \<Rightarrow>
                          (g1, Inl (coded_error_response ok (ve_rid env) (ve_rid2 env) format 400 ''validation''
                             ''invalid_tool_history'' (he_message e) (Some (he_param e))))
                      | None \<Rightarrow>
                          if rq_candidates resolution = []
                          then (g1, Inl (case rq_checkpoint_phase resolution of
                                  Some phase \<Rightarrow> checkpoint_unavailable_response ok (ve_rid env) format (phase_as_str phase)
                                | None \<Rightarrow> failure_response ok (ve_rid env) (ve_rid2 env) (rq_empty_failure resolution) format))
                          else (g1, Inr \<lparr> rp_body = bytes, rp_requested = requested, rp_metadata = metadata,
                                  rp_streaming = request_uses_streaming (ve_parse env) bytes,
                                  rp_resolution = resolution \<rparr>))))"

section \<open>Choosing a target\<close>

record dispatch =
  dp_plan :: request_plan
  dp_target :: resolved_target
  dp_permit :: target_permit
  dp_response_model :: string
  dp_body :: bytes
  dp_hide_usage :: bool
  dp_task :: "32 word"
  dp_context_window :: "nat option"

definition probed_ready :: "nat \<Rightarrow> rr \<Rightarrow> resolved_target \<Rightarrow> bool" where
  "probed_ready now r t \<longleftrightarrow> rv_engine_kind t \<noteq> Gufo
     \<or> (let health = target_snapshot now now (rv_id t) r in hs_ready health \<and> 0 < hs_last_success_at_ms health)"

definition known_window :: "nat \<Rightarrow> rr \<Rightarrow> resolved_target \<Rightarrow> nat option" where
  "known_window now r t =
     (case (case cap_context_length (hs_capabilities (target_snapshot now now (rv_id t) r)) of
              Some c \<Rightarrow> Some c | None \<Rightarrow> rv_configured_context_length t) of
        Some c \<Rightarrow> if 0 < c then Some c else None
      | None \<Rightarrow> None)"

definition upstream_select ::
  "upstream_env \<Rightarrow> string \<Rightarrow> u64 \<Rightarrow> request_plan \<Rightarrow> gateway \<Rightarrow> gateway \<times> (response + dispatch)" where
  "upstream_select env path global p g =
     (let format = format_from_path path; ok = wb_header_ok (ve_web env); now = ve_now env;
          config = rq_config (rp_resolution p); candidates = rq_candidates (rp_resolution p);
          scheduling = map routing_candidate_of (filter (probed_ready now (gw_rr g)) candidates)
      in case select_and_acquire_target now now scheduling (pc_routing_strategy config)
                (routing_group_key (rp_requested p) (plan_workload p)) (gw_rr g) of
           (r1, Inl Capacity) \<Rightarrow> (g\<lparr> gw_rr := r1 \<rparr>, Inl (failure_response ok (ve_rid env) (ve_rid2 env) RouteCapacity format))
         | (r1, Inl Unavailable) \<Rightarrow> (g\<lparr> gw_rr := r1 \<rparr>, Inl (failure_response ok (ve_rid env) (ve_rid2 env) RouteUnavailable format))
         | (r1, Inr (chosen, permit)) \<Rightarrow>
             (let target = the (find (\<lambda>t. rv_id t = rc_instance_id chosen) candidates)
              in if \<not> vector_endpoint_matches_target (plan_workload p) (rv_workload target)
                 then (g\<lparr> gw_rr := target_permit_drop permit r1 \<rparr>,
                       Inl (local_error env format 400 ''selected target does not support the requested vector endpoint''))
                 else
                   (let model = public_response_model config (rv_public target) (rp_requested p);
                        r2 = r1\<lparr> rr_admission := permit_target global model (rv_id target) (rr_admission r1) \<rparr>;
                        (body, hide) = request_stream_usage (ve_parse env) (ve_print env)
                          (rewrite_request_model (ve_parse env) (ve_print env) (rp_body p) (rv_upstream_model_id target)) path;
                        (task, counter) = next_proxy_task_id (ve_seed env) (gw_task g)
                    in (on_usage (usage_target (rv_id target) model) (g\<lparr> gw_rr := r2, gw_task := counter \<rparr>),
                        Inr \<lparr> dp_plan = p, dp_target = target, dp_permit = permit, dp_response_model = model,
                              dp_body = body, dp_hide_usage = hide, dp_task = task,
                              dp_context_window = known_window now r2 target \<rparr>))))"

section \<open>Quota, context and authorization\<close>

text \<open>Context checks and quotas work on the policy the request was authenticated with.\<close>

definition quota_config :: "auth_context \<Rightarrow> proxy_config \<Rightarrow> proxy_config" where
  "quota_config auth config = config\<lparr> pc_api_keys := (case au_policy auth of None \<Rightarrow> [] | Some k \<Rightarrow> [k]) \<rparr>"

definition prepare_request :: "upstream_env \<Rightarrow> string \<Rightarrow> auth_context \<Rightarrow> dispatch \<Rightarrow> observation \<Rightarrow> quota_error + prepared" where
  "prepare_request env path auth d ob =
     prepare (ve_parse env) (ve_print env) (ve_send env (dp_target d)) (ve_props env (dp_target d))
       (quota_config auth (rq_config (rp_resolution (dp_plan d)))) (fst (quota_identity ob)) path (dp_body d)
       (dp_context_window d)"

definition context_check :: "upstream_env \<Rightarrow> string \<Rightarrow> dispatch \<Rightarrow> prepared \<Rightarrow> context_violation option" where
  "context_check env path d prep =
     (case dp_context_window d of
        None \<Rightarrow> None
      | Some window \<Rightarrow>
          (case pp_context_check prep of
             Some c \<Rightarrow> Some c
           | None \<Rightarrow> context_limit_violation (ve_parse env) (ve_print env) (ve_send env (dp_target d))
                       (rq_config (rp_resolution (dp_plan d))) path (pp_body prep) window))"

definition telemetry_of :: "dispatch \<Rightarrow> api_format \<Rightarrow> nat option \<Rightarrow> string option \<Rightarrow> telemetry_record" where
  "telemetry_of d format status error_text =
     \<lparr> tm_session = rv_telemetry_session_id (dp_target d), tm_task_id = dp_task d, tm_model = rp_requested (dp_plan d),
       tm_target = rv_id (dp_target d), tm_http_status = status, tm_error_text = error_text, tm_format = format,
       tm_vector = rp_metadata (dp_plan d) \<rparr>"

definition add_telemetry :: "telemetry_record \<Rightarrow> gateway \<Rightarrow> gateway" where
  "add_telemetry t g = g\<lparr> gw_telemetry := gw_telemetry g @ [t] \<rparr>"

definition show_opt_nat :: "nat option \<Rightarrow> string" where
  "show_opt_nat x = (case x of None \<Rightarrow> ''None'' | Some n \<Rightarrow> ''Some('' @ show_nat n @ '')'')"

definition quota_refused :: "upstream_env \<Rightarrow> api_format \<Rightarrow> quota_error \<Rightarrow> gateway \<Rightarrow> gateway \<times> response" where
  "quota_refused env format e g =
     (on_usage (usage_fail ''quota'' (quota_code e)) g,
      quota_error_response (wb_header_ok (ve_web env)) (ve_rid env) (ve_rid2 env) format (quota_status e) (quota_code e)
        (quota_message e) (quota_param e))"

definition note_budget :: "context_violation option \<Rightarrow> gateway \<Rightarrow> gateway" where
  "note_budget check g =
     (case check of
        None \<Rightarrow> g
      | Some c \<Rightarrow> on_usage (usage_budget (cv_input_tokens c) (cv_requested_output_tokens c) (cv_context_window c)
                             (cv_input_source c)) g)"

definition upstream_prepare ::
  "upstream_env \<Rightarrow> string \<Rightarrow> auth_context \<Rightarrow> dispatch \<Rightarrow> gateway \<Rightarrow> gateway \<times> (response + prepared)" where
  "upstream_prepare env path auth d g =
     (let format = format_from_path path; prep = prepare_request env path auth d (fst (gw_usage g)); g1 = suspend env 0 g
      in case prep of
           Inl e \<Rightarrow> (case quota_refused env format e g1 of (g2, r) \<Rightarrow> (g2, Inl r))
         | Inr p \<Rightarrow>
             (let check = context_check env path d p; g2 = note_budget check (suspend env 1 g1)
              in case check of
                   Some c \<Rightarrow>
                     if exceeded c
                     then (add_telemetry (telemetry_of d format (Some 400)
                             (Some (''context window exceeded: input_tokens='' @ show_opt_nat (cv_input_tokens c)
                                @ '', requested_output_tokens='' @ show_nat (cv_requested_output_tokens c)
                                @ '', context_window='' @ show_nat (cv_context_window c)))) g2,
                           Inl (context_limit_error_response (wb_header_ok (ve_web env)) (ve_rid env) format (cv_error_param c)
                             (cv_input_tokens c) (cv_requested_output_tokens c) (cv_context_window c)))
                     else (g2, Inr p)
                 | None \<Rightarrow> (g2, Inr p)))"

definition upstream_reserve ::
  "upstream_env \<Rightarrow> string \<Rightarrow> auth_context \<Rightarrow> prepared \<Rightarrow> gateway \<Rightarrow> gateway \<times> (response + unit)" where
  "upstream_reserve env path auth prep g =
     (let format = format_from_path path
      in if \<not> still_authorized auth (ve_config env) path
         then (g, Inl (local_error env format 401 ''API key authorization changed''))
         else case admit (ve_faults env) (ve_month_start env) (snd (quota_identity (fst (gw_usage g)))) (ve_now_ms env)
                     (pp_reservation prep) (gw_ledger g) of
           (lg, Inl e) \<Rightarrow> (case quota_refused env format e (suspend env 2 (g\<lparr> gw_ledger := lg \<rparr>)) of (g2, r) \<Rightarrow> (g2, Inl r))
         | (lg, Inr None) \<Rightarrow> (suspend env 2 (g\<lparr> gw_ledger := lg \<rparr>), Inr ())
         | (lg, Inr (Some p)) \<Rightarrow>
             (let g1 = suspend env 2 (g\<lparr> gw_ledger := lg \<rparr>)
              in (g1\<lparr> gw_usage := usage_quota p (gw_usage g1) \<rparr>, Inr ())))"

section \<open>The forwarded request and its answer\<close>

definition header_timeout_ms :: "dispatch \<Rightarrow> nat" where
  "header_timeout_ms d =
     (let config = rq_config (rp_resolution (dp_plan d))
      in if rp_streaming (dp_plan d) then pc_streaming_idle_timeout_ms config else max (pc_timeout_ms config) 1000)"

record answer =
  an_status :: nat
  an_headers :: headers
  an_length :: "nat option"
  an_events :: "body_event list"

definition call_failed :: "upstream_env \<Rightarrow> string \<Rightarrow> dispatch \<Rightarrow> string \<Rightarrow> string \<Rightarrow> gateway \<Rightarrow> gateway \<times> (response + answer)" where
  "call_failed env path d code message g =
     (let config = rq_config (rp_resolution (dp_plan d)); format = format_from_path path
      in (add_telemetry (telemetry_of d format None (Some message))
            (on_rr (record_completed (ve_elapsed env))
              (on_rr (mark_request_failure (ve_now env) (rv_id (dp_target d)) message (pc_unhealthy_threshold config)
                        (pc_recovery_cooldown_ms config))
                (on_usage (usage_fail ''upstream'' code) g))),
          Inl (local_error env format 502 (''upstream request failed: '' @ message))))"

definition mark_answer :: "upstream_env \<Rightarrow> dispatch \<Rightarrow> nat \<Rightarrow> rr \<Rightarrow> rr" where
  "mark_answer env d status r =
     (let config = rq_config (rp_resolution (dp_plan d))
      in if (500 \<le> status \<and> status < 600) \<or> status = 429
         then mark_request_failure (ve_now env) (rv_id (dp_target d)) (''upstream returned '' @ show_nat status)
                (pc_unhealthy_threshold config) (pc_recovery_cooldown_ms config) r
         else mark_probe_success (ve_now env) (rv_id (dp_target d)) (ve_latency env) None r)"

definition upstream_send ::
  "upstream_env \<Rightarrow> string \<Rightarrow> string \<Rightarrow> headers \<Rightarrow> dispatch \<Rightarrow> prepared \<Rightarrow> gateway \<Rightarrow> gateway \<times> (response + answer)" where
  "upstream_send env path uri hs d prep g =
     (let t = dp_target d; url = target_url t uri;
          sent = apply_target_request_headers (ve_web env) [(''accept-encoding'', ''identity'')] hs t;
          g1 = suspend env 3 (on_usage usage_forwarded
                 (g\<lparr> gw_sent := gw_sent g @ [(t, url, sent, pp_body prep)] \<rparr>))
      in case ve_call env t url sent (pp_body prep) of
           HeaderTimeout \<Rightarrow> call_failed env path d ''upstream_timeout''
             (''upstream response headers timed out after '' @ show_nat (header_timeout_ms d) @ '' milliseconds'') g1
         | CallFailed timed_out message \<Rightarrow>
             call_failed env path d (if timed_out then ''upstream_timeout'' else ''upstream_connection_failed'') message g1
         | Answered status headers len events \<Rightarrow>
             (let g2 = on_usage (usage_upstream_id (ve_web env) headers) g1;
                  g3 = (if is_success status then g2 else on_usage (usage_fail ''upstream'' ''upstream_error'') g2)
              in (on_rr (mark_answer env d status) g3,
                  Inr \<lparr> an_status = status, an_headers = headers, an_length = len, an_events = events \<rparr>)))"

fun contains_text :: "string \<Rightarrow> string \<Rightarrow> bool" where
  "contains_text p [] \<longleftrightarrow> p = []"
| "contains_text p (c # cs) \<longleftrightarrow> starts_with p (c # cs) \<or> contains_text p cs"

definition content_type :: "web \<Rightarrow> headers \<Rightarrow> string" where
  "content_type w hs = ascii_lowercase (case header_str w hs ''content-type'' of None \<Rightarrow> [] | Some v \<Rightarrow> v)"

definition answer_is_sse :: "web \<Rightarrow> answer \<Rightarrow> bool" where
  "answer_is_sse w a \<longleftrightarrow> contains_text ''text/event-stream'' (content_type w (an_headers a))"

definition answer_is_json :: "web \<Rightarrow> answer \<Rightarrow> bool" where
  "answer_is_json w a \<longleftrightarrow> contains_text ''json'' (content_type w (an_headers a))"

definition response_headers :: "web \<Rightarrow> api_format \<Rightarrow> answer \<Rightarrow> headers" where
  "response_headers w format a =
     (let failed = \<not> is_success (an_status a);
          as_json = (failed \<and> (answer_is_json w a \<or> is_anthropic format));
          tokens = connection_header_tokens w (an_headers a);
          kept = filter (\<lambda>(name, _). let lower = ascii_lowercase name
                   in \<not> (lower = ''content-length'' \<or> (as_json \<and> lower = ''content-type'')
                        \<or> (is_anthropic format \<and> failed \<and> lower = ''request-id'')
                        \<or> is_hop_by_hop_header lower tokens)) (an_headers a)
      in if as_json then hdr_append ''content-type'' ''application/json'' kept else kept)"

definition format_headers :: "api_format \<Rightarrow> headers \<Rightarrow> headers" where
  "format_headers format hs = (if is_anthropic format then hdr_insert ANTHROPIC_FORMAT_HEADER ''anthropic'' hs else hs)"

section \<open>Telemetry and the guard of a response\<close>

definition status_error :: "nat \<Rightarrow> string option" where
  "status_error status = (if is_success status then None else Some (''upstream returned '' @ show_nat status))"

text \<open>The guard: whether it has recorded, with the gateway it records to.\<close>

definition record_once ::
  "upstream_env \<Rightarrow> api_format \<Rightarrow> dispatch \<Rightarrow> nat \<Rightarrow> string option \<Rightarrow> bool \<times> gateway \<Rightarrow> bool \<times> gateway" where
  "record_once env format d status error_text s =
     (case s of (recorded, g) \<Rightarrow>
        if recorded then (recorded, g)
        else (True, add_telemetry (telemetry_of d format (Some status) error_text)
                      (on_rr (record_completed (ve_elapsed env)) g)))"

definition guard_drop ::
  "upstream_env \<Rightarrow> api_format \<Rightarrow> u64 \<times> nat \<Rightarrow> dispatch \<Rightarrow> nat \<Rightarrow> bool \<times> gateway \<Rightarrow> gateway" where
  "guard_drop env format permits d status s =
     on_rr (release_all permits (dp_permit d))
       (snd (record_once env format d status (Some ''client disconnected before upstream stream completed'') s))"

section \<open>A buffered answer\<close>

record upstream_reply =
  ry_status :: nat
  ry_headers :: headers
  ry_body :: bytes

text \<open>
  The headers of the reply; there are none when the request id of the body cannot be a header
  value, which fails the builder of the response.
\<close>

definition buffered_headers :: "upstream_env \<Rightarrow> api_format \<Rightarrow> answer \<Rightarrow> bytes \<Rightarrow> headers option" where
  "buffered_headers env format a body =
     (let hs = response_headers (ve_web env) format a
      in map_option (format_headers format)
          (if is_anthropic format \<and> \<not> is_success (an_status a)
           then (case response_request_id (ve_parse env) body of
                   Some i \<Rightarrow> if wb_header_ok (ve_web env) i then Some (hdr_append ''request-id'' i hs) else None
                 | None \<Rightarrow> Some hs)
           else Some hs))"

definition respond_buffered ::
  "upstream_env \<Rightarrow> string \<Rightarrow> dispatch \<Rightarrow> answer \<Rightarrow> bool \<times> gateway \<Rightarrow> (bool \<times> gateway) \<times> (response + upstream_reply)" where
  "respond_buffered env path d a s =
     (let format = format_from_path path; status = an_status a;
          full = local_error env format 503 ''router response memory budget exceeded''
      in if \<not> ve_resize env 0 then (s, Inl full)
         else case collect_bounded_response_body (Some (ve_resize env)) MAX_PROXY_JSON_RESPONSE_BYTES (header_timeout_ms d)
                     \<lparr> us_success = is_success status, us_content_length = an_length a, us_events = an_events a \<rparr> of
           Inl e \<Rightarrow>
             (record_once env format d status (Some e)
                (fst s, on_usage (usage_fail ''upstream'' ''response_error'') (suspend env 4 (snd s))),
              Inl (local_error env format 502 (''proxy response error: '' @ e)))
         | Inr body \<Rightarrow>
             (let s1 = record_once env format d status (status_error status)
                         (fst s, on_usage (usage_json (ve_parse env) body) (suspend env 4 (snd s)));
                  body1 = rewrite_json_response (ve_parse env) (ve_print env) (ve_reason env) (ve_rid env) body
                            (dp_response_model d) format status
              in if MAX_PROXY_JSON_RESPONSE_BYTES < length body1
                 then (s1, Inl (local_error env format 502 ''rewritten response exceeds size limit''))
                 else if \<not> ve_resize env (sat_mul u64_max (length body1) 2) then (s1, Inl full)
                 else case buffered_headers env format a body1 of
                   None \<Rightarrow>
                     (s1, Inl (local_error env format 502 ''proxy response error: failed to parse header value''))
                 | Some hs \<Rightarrow> (s1, Inr \<lparr> ry_status = status, ry_headers = hs, ry_body = body1 \<rparr>)))"

section \<open>Relayed answers\<close>

text \<open>
  One turn of a relay: the item for the client, whether the stream is finalised, and the state.
\<close>

definition idle_message :: "dispatch \<Rightarrow> string" where
  "idle_message d = ''upstream stream was idle for ''
     @ show_nat (pc_streaming_idle_timeout_ms (rq_config (rp_resolution (dp_plan d)))) @ '' milliseconds''"

definition relay_failed ::
  "upstream_env \<Rightarrow> api_format \<Rightarrow> dispatch \<Rightarrow> nat \<Rightarrow> string \<Rightarrow> string \<Rightarrow> string \<Rightarrow> bool \<times> gateway
    \<Rightarrow> (string + bytes) \<times> bool \<times> bool \<times> gateway" where
  "relay_failed env format d status stage code message s =
     (Inl message, True, record_once env format d status (Some message) (fst s, on_usage (usage_fail stage code) (snd s)))"

definition sse_line_out :: "upstream_env \<Rightarrow> api_format \<Rightarrow> dispatch \<Rightarrow> string \<Rightarrow> bytes" where
  "sse_line_out env format d row =
     rewrite_sse_line (ve_parse env) (ve_print env)
       (if dp_hide_usage d \<and> is_usage_only_line (ve_parse env) row then [] else row) (dp_response_model d) format @ [byte 10]"

fun sse_turn ::
  "upstream_env \<Rightarrow> api_format \<Rightarrow> dispatch \<Rightarrow> nat \<Rightarrow> line_event \<Rightarrow> bool \<times> gateway \<Rightarrow> (string + bytes) \<times> bool \<times> bool \<times> gateway" where
  "sse_turn env format d status (Line row) s =
     (Inr (sse_line_out env format d row), False, fst s, on_usage (usage_sse (ve_parse env) (ve_elapsed env) row) (snd s))"
| "sse_turn env format d status (LineError e) s = relay_failed env format d status ''stream'' ''stream_interrupted'' e s"
| "sse_turn env format d status LineIdle s =
     relay_failed env format d status ''stream'' ''stream_timeout'' (idle_message d) s"

fun raw_turn ::
  "upstream_env \<Rightarrow> api_format \<Rightarrow> dispatch \<Rightarrow> nat \<Rightarrow> body_event \<Rightarrow> bool \<times> gateway \<Rightarrow> (string + bytes) \<times> bool \<times> bool \<times> gateway" where
  "raw_turn env format d status (Chunk b) s = (Inr b, False, s)"
| "raw_turn env format d status (BodyError e) s = relay_failed env format d status ''upstream'' ''response_error'' e s"
| "raw_turn env format d status IdleTimeout s =
     relay_failed env format d status ''upstream'' ''upstream_timeout'' (idle_message d) s"

text \<open>
  The client polls the stream \<open>n\<close> times at most, then it is gone; the end of the events is the
  end of the upstream's stream.
\<close>

fun relay_run ::
  "('e \<Rightarrow> 's \<Rightarrow> (string + bytes) \<times> bool \<times> 's) \<Rightarrow> ('s \<Rightarrow> 's) \<Rightarrow> nat \<Rightarrow> 'e list \<Rightarrow> 's \<Rightarrow> (string + bytes) list \<times> 's" where
  "relay_run turn fin 0 es s = ([], s)"
| "relay_run turn fin (Suc n) [] s = ([], fin s)"
| "relay_run turn fin (Suc n) (e # es) s =
     (case turn e s of (x, finalized, s') \<Rightarrow>
        if finalized then ([x], s')
        else (case relay_run turn fin n es s' of (xs, s'') \<Rightarrow> (x # xs, s'')))"

record relayed =
  rl_status :: nat
  rl_headers :: headers
  rl_items :: "(string + bytes) list"

definition respond_stream ::
  "upstream_env \<Rightarrow> string \<Rightarrow> nat \<Rightarrow> dispatch \<Rightarrow> answer \<Rightarrow> bool \<times> gateway \<Rightarrow> (bool \<times> gateway) \<times> relayed" where
  "respond_stream env path polls d a s =
     (let format = format_from_path path; status = an_status a;
          fin = record_once env format d status (status_error status);
          (items, s') = (if answer_is_sse (ve_web env) a
            then relay_run (sse_turn env format d status) fin polls (ve_lines env (an_events a))
                   (fst s, on_usage usage_start_stream (snd s))
            else relay_run (raw_turn env format d status) fin polls (an_events a) s)
      in (s', \<lparr> rl_status = status, rl_headers = format_headers format (response_headers (ve_web env) format a),
                rl_items = items \<rparr>))"

section \<open>The handler\<close>

datatype reply = Local response | Buffered upstream_reply | Relayed relayed

text \<open>
  \<open>permits\<close> are the admission permits of the request, absent when they were taken already.  On
  every return the permits are dropped: those of a relayed answer when its stream is dropped,
  after \<open>polls\<close> polls of the client.
\<close>

definition proxy_upstream ::
  "upstream_env \<Rightarrow> string \<Rightarrow> string \<Rightarrow> string \<Rightarrow> headers \<Rightarrow> auth_context \<Rightarrow> (u64 \<times> nat) option \<Rightarrow> nat + bytes \<Rightarrow> nat
    \<Rightarrow> gateway \<Rightarrow> gateway \<times> reply" where
  "proxy_upstream env method path uri hs auth permits body polls g =
     (let format = format_from_path path
      in case permits of
           None \<Rightarrow> (g, Local (local_error env format 500 ''router admission permit is unavailable''))
         | Some ps \<Rightarrow>
      (case upstream_plan env method path auth body g of
         (g1, Inl r) \<Rightarrow> (on_rr (release_admitted ps) g1, Local r)
       | (g1, Inr p) \<Rightarrow>
      (case upstream_select env path (fst ps) p g1 of
         (g2, Inl r) \<Rightarrow> (on_rr (release_admitted ps) g2, Local r)
       | (g2, Inr d) \<Rightarrow>
         (let quit = (\<lambda>h r. (on_rr (release_all ps (dp_permit d)) h, Local r))
          in case upstream_prepare env path auth d g2 of
         (g3, Inl r) \<Rightarrow> quit g3 r
       | (g3, Inr prep) \<Rightarrow>
      (case upstream_reserve env path auth prep g3 of
         (g4, Inl r) \<Rightarrow> quit g4 r
       | (g4, Inr _) \<Rightarrow>
      (case upstream_send env path uri hs d prep g4 of
         (g5, Inl r) \<Rightarrow> quit g5 r
       | (g5, Inr a) \<Rightarrow>
           (let w = ve_web env; close = guard_drop env format ps d (an_status a)
            in if (answer_is_json w a \<and> \<not> answer_is_sse w a) \<or> (is_anthropic format \<and> \<not> is_success (an_status a))
               then (case respond_buffered env path d a (False, g5) of
                       (s, Inl r) \<Rightarrow> (close s, Local r)
                     | (s, Inr r) \<Rightarrow> (close s, Buffered r))
               else (case respond_stream env path polls d a (False, g5) of
                       (s, r) \<Rightarrow> (close s, Relayed r)))))))))"

section \<open>What each stage leaves alone\<close>

lemma on_simps [simp]:
  "gw_rr (on_rr f g) = f (gw_rr g)" "gw_ledger (on_rr f g) = gw_ledger g" "gw_usage (on_rr f g) = gw_usage g"
  "gw_telemetry (on_rr f g) = gw_telemetry g" "gw_sent (on_rr f g) = gw_sent g"
  "gw_rr (on_usage h g) = gw_rr g" "gw_ledger (on_usage h g) = gw_ledger g"
  "gw_usage (on_usage h g) = (h (fst (gw_usage g)), snd (gw_usage g))"
  "gw_telemetry (on_usage h g) = gw_telemetry g" "gw_sent (on_usage h g) = gw_sent g"
  by (simp_all add: on_rr_def on_usage_def)

lemma suspend_simps [simp]:
  "gw_rr (suspend env k g) = ve_others env k (gw_rr g)" "gw_usage (suspend env k g) = gw_usage g"
  "gw_telemetry (suspend env k g) = gw_telemetry g" "gw_sent (suspend env k g) = gw_sent g"
  by (simp_all add: suspend_def)

lemma telemetry_simps [simp]:
  "gw_rr (add_telemetry t g) = gw_rr g" "gw_usage (add_telemetry t g) = gw_usage g" "gw_sent (add_telemetry t g) = gw_sent g"
  "gw_telemetry (add_telemetry t g) = gw_telemetry g @ [t]" "gw_ledger (add_telemetry t g) = gw_ledger g"
  by (simp_all add: add_telemetry_def)

text \<open>What the account remembers of the quota and of forwarding.\<close>

definition account :: "observation \<Rightarrow> bool \<times> quota_permit option \<times> string" where
  "account ob = (was_forwarded ob, ob_quota ob, ud_request_id (ob_record ob))"

lemma account_simps [simp]:
  "account (usage_request parse b ob) = account ob" "account (usage_target i m ob) = account ob"
  "account (usage_fail st c ob) = account ob" "account (usage_budget a n k src ob) = account ob"
  "account (usage_upstream_id w hs ob) = account ob" "account (usage_start_stream ob) = account ob"
  "account (usage_json parse b ob) = account ob" "account (usage_sse parse t row ob) = account ob"
  by (auto simp: account_def was_forwarded_def usage_ops_defs Let_def split: option.splits prod.splits)

section \<open>The load of the router\<close>

definition active_of :: "rr \<Rightarrow> string \<Rightarrow> nat" where
  "active_of r i = (case hm_get (rr_targets r) i of None \<Rightarrow> 0 | Some t \<Rightarrow> tr_active_requests t)"

text \<open>What permits and completed requests count.\<close>

definition load :: "rr \<Rightarrow> (string \<Rightarrow> nat) \<times> adm \<times> nat \<times> u64" where
  "load r = (active_of r, rr_admission r, rr_in_flight_body_bytes r, rm_completed_requests (rr_metrics r))"

definition holds :: "target_permit \<Rightarrow> rr \<Rightarrow> bool" where
  "holds p r \<longleftrightarrow> (\<exists>t. hm_get (rr_targets r) (tp_instance_id p) = Some t \<and> tr_identity t = tp_target_identity p)"

lemma active_of_cong: "rr_targets r' = rr_targets r \<Longrightarrow> active_of r' = active_of r"
  by (simp add: active_of_def fun_eq_iff)

lemma with_target_rest:
  "rr_admission (fst (with_target i f r)) = rr_admission r" "rr_metrics (fst (with_target i f r)) = rr_metrics r"
  "rr_in_flight_body_bytes (fst (with_target i f r)) = rr_in_flight_body_bytes r"
  by (simp_all add: with_target_def Let_def split: option.splits)

lemma with_target_load:
  assumes "\<And>t. tr_active_requests (f t) = tr_active_requests t" "\<And>t. tr_identity (f t) = tr_identity t"
  shows "load (fst (with_target i f r)) = load r" "holds p r \<Longrightarrow> holds p (fst (with_target i f r))"
  by (auto simp: load_def active_of_def holds_def with_target_get with_target_rest assms target_runtime_default_def split: option.splits)

lemma mark_load [simp]:
  "load (mark_probe_success now i l c r) = load r" "load (mark_request_failure now i e n m r) = load r"
  "holds p r \<Longrightarrow> holds p (mark_probe_success now i l c r)" "holds p r \<Longrightarrow> holds p (mark_request_failure now i e n m r)"
proof -
  have m: "load (r\<lparr> rr_metrics := (rr_metrics r)\<lparr> rm_upstream_errors := x \<rparr> \<rparr>) = load r"
    "holds p (r\<lparr> rr_metrics := (rr_metrics r)\<lparr> rm_upstream_errors := x \<rparr> \<rparr>) = holds p r" for x
    by (simp_all add: load_def active_of_def fun_eq_iff holds_def)
  show "load (mark_probe_success now i l c r) = load r" "load (mark_request_failure now i e n m r) = load r"
    by (simp_all add: mark_probe_success_def mark_request_failure_def mark_probe_failure_def with_target_load m)
  show "holds p r \<Longrightarrow> holds p (mark_probe_success now i l c r)" "holds p r \<Longrightarrow> holds p (mark_request_failure now i e n m r)"
    by (simp_all add: mark_probe_success_def mark_request_failure_def mark_probe_failure_def with_target_load m)
qed

lemma mark_answer_load [simp]:
  "load (mark_answer env d st r) = load r" "holds p r \<Longrightarrow> holds p (mark_answer env d st r)"
  by (simp_all add: mark_answer_def Let_def)

definition complete_one :: "(string \<Rightarrow> nat) \<times> adm \<times> nat \<times> u64 \<Rightarrow> (string \<Rightarrow> nat) \<times> adm \<times> nat \<times> u64" where
  "complete_one l = (case l of (a, adm, b, c) \<Rightarrow> (a, adm, b, c + 1))"

lemma record_completed_load [simp]:
  "load (record_completed ms r) = complete_one (load r)" "holds p (record_completed ms r) = holds p r"
  by (auto simp: load_def complete_one_def active_of_def holds_def record_completed_def Let_def split: option.splits)

lemma select_rest:
  assumes "select_target now cs strategy key r = (r', res)"
  shows "rr_admission r' = rr_admission r" "rr_metrics r' = rr_metrics r" "rr_in_flight_body_bytes r' = rr_in_flight_body_bytes r"
  using assms by (auto simp: select_target_def next_scheduling_ticket_def Let_def split: if_splits prod.splits)

lemma acquire_refused_load:
  assumes "select_and_acquire_target now now' cs strategy key r = (r', Inl e)"
  shows "load r' = load r"
proof -
  obtain o' where s: "select_target now cs strategy key r = (r', o')"
    using assms by (auto simp: select_and_acquire_target_def split: prod.splits option.splits)
  then have "rr_targets r' = rr_targets r" using select_target_cases by blast
  then show ?thesis using select_rest [OF s] active_of_cong [of r' r] by (simp add: load_def)
qed

lemma drop_fresh_load:
  assumes "with_target i (\<lambda>t. t\<lparr>tr_active_requests := tr_active_requests t + 1\<rparr>) r = (r', t)"
  shows "load (target_permit_drop \<lparr> tp_instance_id = i, tp_target_identity = tr_identity t \<rparr> r') = load r"
proof -
  have "hm_get (rr_targets r') i = Some t" "\<And>j. j \<noteq> i \<Longrightarrow> hm_get (rr_targets r') j = hm_get (rr_targets r) j"
    "tr_active_requests t = active_of r i + 1"
    using assms by (auto simp: with_target_def active_of_def Let_def target_runtime_default_def split: option.splits)
  moreover have "rr_admission r' = rr_admission r" "rr_metrics r' = rr_metrics r"
    "rr_in_flight_body_bytes r' = rr_in_flight_body_bytes r"
    using with_target_rest [of i "\<lambda>t. t\<lparr>tr_active_requests := tr_active_requests t + 1\<rparr>" r] unfolding assms by simp_all
  ultimately show ?thesis
    by (auto simp: target_permit_drop_def load_def active_of_def fun_eq_iff split: option.splits)
qed

lemma acquire_load:
  assumes "select_and_acquire_target now now' cs strategy key r = (r', Inr (c, tp))"
  shows "holds tp r'" "load (target_permit_drop tp r') = load r" "c \<in> set cs" "eligible now (rr_targets r) c"
    "tp_instance_id tp = rc_instance_id c"
proof -
  obtain r1 t where s: "select_target now cs strategy key r = (r1, Some c)"
    and w: "with_target (rc_instance_id c) (\<lambda>t. t\<lparr>tr_active_requests := tr_active_requests t + 1\<rparr>) r1 = (r', t)"
    and p: "tp = \<lparr> tp_instance_id = rc_instance_id c, tp_target_identity = tr_identity t \<rparr>"
    using acquire_split [OF assms] by blast
  have c: "c \<in> set (best_tier now (rr_targets r) cs)" and r1: "rr_targets r1 = rr_targets r"
    using select_target_cases [OF s] by auto
  show "c \<in> set cs" "eligible now (rr_targets r) c" using best_tier_props [OF c] by auto
  have "load r1 = load r" using select_rest [OF s] active_of_cong [OF r1] by (simp add: load_def)
  then show "load (target_permit_drop tp r') = load r" using drop_fresh_load [OF w] p by simp
  show "holds tp r'" using w p by (auto simp: holds_def with_target_def Let_def split: option.splits)
  show "tp_instance_id tp = rc_instance_id c" using p by simp
qed

text \<open>Dropping permits, on loads.\<close>

definition drop_target_load :: "target_permit \<Rightarrow> (string \<Rightarrow> nat) \<times> adm \<times> nat \<times> u64 \<Rightarrow> (string \<Rightarrow> nat) \<times> adm \<times> nat \<times> u64" where
  "drop_target_load p l = (case l of (a, rest) \<Rightarrow> (a(tp_instance_id p := a (tp_instance_id p) - 1), rest))"

definition release_load :: "u64 \<times> nat \<Rightarrow> (string \<Rightarrow> nat) \<times> adm \<times> nat \<times> u64 \<Rightarrow> (string \<Rightarrow> nat) \<times> adm \<times> nat \<times> u64" where
  "release_load ps l = (case l of (a, adm, b, c) \<Rightarrow> (a, permit_drop (fst ps) adm, fetch_sub b (snd ps), c))"

lemma drop_load: "holds p r \<Longrightarrow> load (target_permit_drop p r) = drop_target_load p (load r)"
  by (auto simp: holds_def load_def active_of_def target_permit_drop_def drop_target_load_def fun_eq_iff)

lemma release_admitted_load: "load (release_admitted ps r) = release_load ps (load r)"
  by (simp add: load_def release_load_def release_admitted_def release_admission_def body_permit_drop_def active_of_def fun_eq_iff)

lemma release_all_load: "holds p r \<Longrightarrow> load (release_all ps p r) = release_load ps (drop_target_load p (load r))"
  by (simp add: release_all_def release_admitted_load drop_load)

lemma complete_one_commutes [simp]:
  "release_load ps (drop_target_load p (complete_one l)) = complete_one (release_load ps (drop_target_load p l))"
  by (simp add: release_load_def drop_target_load_def complete_one_def split: prod.splits)

lemma permit_target_drop [simp]: "permit_drop i (permit_target i m x s) = permit_drop i s"
proof -
  have "hm_remove i (hm_insert i v a) = hm_remove i a" for v and a :: "(u64 \<times> string \<times> string \<times> string) list"
    by (induction a) auto
  then show ?thesis by (auto simp: permit_target_def permit_drop_def Let_def split: option.splits)
qed

section \<open>The stages\<close>

text \<open>The others leave the load of the router as it is and keep the permits of this request valid.\<close>

definition calm :: "upstream_env \<Rightarrow> bool" where
  "calm env \<longleftrightarrow> (\<forall>k r. load (ve_others env k r) = load r \<and> (\<forall>p. holds p r \<longrightarrow> holds p (ve_others env k r)))"

definition quiet :: "gateway \<Rightarrow> gateway \<Rightarrow> bool" where
  "quiet g h \<longleftrightarrow> gw_sent h = gw_sent g \<and> account (fst (gw_usage h)) = account (fst (gw_usage g))"

lemma plan_stage:
  assumes "upstream_plan env method path auth body g = (g1, res)"
  shows "quiet g g1 \<and> gw_rr g1 = gw_rr g \<and> gw_telemetry g1 = gw_telemetry g"
  using assms by (auto simp: upstream_plan_def Let_def quiet_def split: if_splits sum.splits option.splits)

lemma plan_accepts:
  assumes "upstream_plan env method path auth body g = (g1, Inr p)"
  obtains bytes where "body = Inr bytes" "rp_body p = bytes"
    "requested_model_from_body (ve_parse env) bytes = Inr (rp_requested p)"
    "rp_metadata p = vector_request_metadata_of (ve_parse env) path bytes"
    "rp_resolution p = ve_resolve env (rp_requested p) (plan_workload p)"
    "still_authorized auth (rq_config (rp_resolution p)) path" "validate (ve_parse env) path bytes = None"
  using assms by (auto simp: upstream_plan_def plan_workload_def Let_def split: if_splits sum.splits option.splits)

lemma select_refused:
  assumes "upstream_select env path i p g = (g2, Inl r)"
  shows "quiet g g2 \<and> load (gw_rr g2) = load (gw_rr g) \<and> gw_telemetry g2 = gw_telemetry g"
  using assms acquire_refused_load acquire_load(2)
  by (auto simp: upstream_select_def Let_def quiet_def split: prod.splits sum.splits target_admission_error.splits if_splits)

lemma load_permit_target [simp]:
  "release_load ps (drop_target_load p (load (r\<lparr> rr_admission := permit_target (fst ps) m x (rr_admission r) \<rparr>)))
   = release_load ps (drop_target_load p (load r))"
  by (simp add: load_def release_load_def drop_target_load_def active_of_def fun_eq_iff)

lemma select_chosen:
  assumes "upstream_select env path (fst ps) p g = (g2, Inr d)"
  shows "quiet g g2 \<and> gw_telemetry g2 = gw_telemetry g \<and> holds (dp_permit d) (gw_rr g2)
    \<and> release_load ps (drop_target_load (dp_permit d) (load (gw_rr g2))) = release_load ps (load (gw_rr g))"
    and "dp_plan d = p \<and> dp_target d \<in> set (rq_candidates (rp_resolution p))
    \<and> vector_endpoint_matches_target (plan_workload p) (rv_workload (dp_target d))
    \<and> (\<exists>t \<in> set (rq_candidates (rp_resolution p)). rv_id t = rv_id (dp_target d) \<and> probed_ready (ve_now env) (gw_rr g) t
       \<and> eligible (ve_now env) (rr_targets (gw_rr g)) (routing_candidate_of t))"
proof -
  let ?cands = "rq_candidates (rp_resolution p)"
  define sched where "sched = map routing_candidate_of (filter (probed_ready (ve_now env) (gw_rr g)) ?cands)"
  obtain r1 c tp where a: "select_and_acquire_target (ve_now env) (ve_now env) sched
      (pc_routing_strategy (rq_config (rp_resolution p))) (routing_group_key (rp_requested p) (plan_workload p)) (gw_rr g)
      = (r1, Inr (c, tp))"
    using assms by (auto simp: upstream_select_def Let_def sched_def split: prod.splits sum.splits target_admission_error.splits)
  define t where "t = the (find (\<lambda>t. rv_id t = rc_instance_id c) ?cands)"
  define m where "m = public_response_model (rq_config (rp_resolution p)) (rv_public t) (rp_requested p)"
  have ve: "vector_endpoint_matches_target (plan_workload p) (rv_workload t)"
    and d: "dp_permit d = tp" "dp_target d = t" "dp_plan d = p"
    and g2: "gw_rr g2 = r1\<lparr> rr_admission := permit_target (fst ps) m (rv_id t) (rr_admission r1) \<rparr>"
      "gw_telemetry g2 = gw_telemetry g" "quiet g g2"
    using assms a by (auto simp: upstream_select_def Let_def sched_def [symmetric] t_def m_def quiet_def split: prod.splits if_splits)
  note acq = acquire_load [OF a]
  obtain t' where t': "t' \<in> set ?cands" "probed_ready (ve_now env) (gw_rr g) t'" "c = routing_candidate_of t'"
    using acq(3) by (auto simp: sched_def)
  then have "rv_id t' = rc_instance_id c" by (simp add: routing_candidate_of_def)
  then have "find (\<lambda>t. rv_id t = rc_instance_id c) ?cands = Some t"
    using t'(1) unfolding t_def by (metis (mono_tags, lifting) find_None_iff option.exhaust_sel)
  then have tin: "t \<in> set ?cands" "rv_id t = rc_instance_id c" by (auto dest: find_SomeD)
  have "holds tp (gw_rr g2)" using acq(1) by (simp add: g2 holds_def)
  moreover have "release_load ps (drop_target_load tp (load (gw_rr g2))) = release_load ps (load (gw_rr g))"
    using acq(1,2) drop_load [of tp r1] by (simp add: g2)
  ultimately show "quiet g g2 \<and> gw_telemetry g2 = gw_telemetry g \<and> holds (dp_permit d) (gw_rr g2)
    \<and> release_load ps (drop_target_load (dp_permit d) (load (gw_rr g2))) = release_load ps (load (gw_rr g))"
    by (simp add: d g2)
  show "dp_plan d = p \<and> dp_target d \<in> set ?cands \<and> vector_endpoint_matches_target (plan_workload p) (rv_workload (dp_target d))
    \<and> (\<exists>t \<in> set ?cands. rv_id t = rv_id (dp_target d) \<and> probed_ready (ve_now env) (gw_rr g) t
       \<and> eligible (ve_now env) (rr_targets (gw_rr g)) (routing_candidate_of t))"
    using d ve tin t' acq(4) \<open>rv_id t' = rc_instance_id c\<close> by auto
qed

lemma prepare_stage:
  assumes "upstream_prepare env path auth d g = (g3, res)" "calm env"
  shows "quiet g g3 \<and> load (gw_rr g3) = load (gw_rr g) \<and> (holds q (gw_rr g) \<longrightarrow> holds q (gw_rr g3))
    \<and> length (gw_telemetry g3) \<le> length (gw_telemetry g) + 1
    \<and> (\<forall>p. res = Inr p \<longrightarrow> gw_telemetry g3 = gw_telemetry g \<and> prepare_request env path auth d (fst (gw_usage g)) = Inr p
         \<and> (\<forall>c. context_check env path d p = Some c \<longrightarrow> \<not> exceeded c))"
  using assms unfolding calm_def
  by (auto simp: upstream_prepare_def quota_refused_def note_budget_def Let_def quiet_def split: sum.splits option.splits if_splits)

lemma admit_permit: "admit faults ms rid now res lg = (lg', Inr q) \<Longrightarrow> (q = None \<longleftrightarrow> res = None) \<and> (\<forall>p. q = Some p \<longrightarrow> qt_id p = rid \<and> \<not> qt_finished p)"
  by (auto simp: admit_def reserve_at_def split: option.splits prod.splits sum.splits if_splits)

lemma reserve_stage:
  assumes "upstream_reserve env path auth prep g = (g4, res)" "calm env"
  shows "load (gw_rr g4) = load (gw_rr g) \<and> (holds q (gw_rr g) \<longrightarrow> holds q (gw_rr g4))
    \<and> gw_sent g4 = gw_sent g \<and> gw_telemetry g4 = gw_telemetry g
    \<and> was_forwarded (fst (gw_usage g4)) = was_forwarded (fst (gw_usage g))
    \<and> ud_request_id (ob_record (fst (gw_usage g4))) = ud_request_id (ob_record (fst (gw_usage g)))
    \<and> (res = Inr () \<longrightarrow> still_authorized auth (ve_config env) path
       \<and> (pp_reservation prep \<noteq> None \<longrightarrow> (\<exists>p. ob_quota (fst (gw_usage g4)) = Some p
            \<and> qt_id p = ud_request_id (ob_record (fst (gw_usage g))))))"
  using assms unfolding calm_def
  by (auto simp: upstream_reserve_def quota_refused_def usage_quota_def quota_identity_def Let_def account_def was_forwarded_def
      usage_fail_def split: if_splits sum.splits option.splits prod.splits dest!: admit_permit)

lemma send_stage:
  assumes "upstream_send env path uri hs d prep g = (g5, res)" "calm env"
  shows "(holds q (gw_rr g) \<longrightarrow> holds q (gw_rr g5))
    \<and> gw_sent g5 = gw_sent g @ [(dp_target d, target_url (dp_target d) uri,
         apply_target_request_headers (ve_web env) [(''accept-encoding'', ''identity'')] hs (dp_target d), pp_body prep)]
    \<and> account (fst (gw_usage g5)) = account (usage_forwarded (fst (gw_usage g)))
    \<and> (case res of
         Inl r \<Rightarrow> load (gw_rr g5) = complete_one (load (gw_rr g)) \<and> length (gw_telemetry g5) = length (gw_telemetry g) + 1
       | Inr a \<Rightarrow> load (gw_rr g5) = load (gw_rr g) \<and> gw_telemetry g5 = gw_telemetry g)"
  using assms unfolding calm_def
  by (auto simp: upstream_send_def call_failed_def Let_def split: call_result.splits)

section \<open>The guard\<close>

text \<open>What holds from the answer to the end of its response, \<open>g\<close> being the state at the answer.\<close>

definition guarded :: "target_permit \<Rightarrow> gateway \<Rightarrow> bool \<times> gateway \<Rightarrow> bool" where
  "guarded q g s \<longleftrightarrow> holds q (gw_rr (snd s)) \<and> quiet g (snd s)
     \<and> load (gw_rr (snd s)) = (if fst s then complete_one (load (gw_rr g)) else load (gw_rr g))
     \<and> length (gw_telemetry (snd s)) = length (gw_telemetry g) + (if fst s then 1 else 0)"

lemma guarded_record: "guarded q g s \<Longrightarrow> guarded q g (record_once env format d st e s)"
  by (cases s) (auto simp: guarded_def record_once_def quiet_def)

lemma guarded_usage: "guarded q g (b, h) \<Longrightarrow> (\<And>ob. account (f ob) = account ob) \<Longrightarrow> guarded q g (b, on_usage f h)"
  by (simp add: guarded_def quiet_def)

lemma guarded_suspend: "guarded q g (b, h) \<Longrightarrow> calm env \<Longrightarrow> guarded q g (b, suspend env k h)"
  by (simp add: guarded_def quiet_def calm_def)

lemma guarded_recorded: "fst (record_once env format d st e s)"
  by (cases s) (simp add: record_once_def)

lemma guard_closes:
  assumes "guarded (dp_permit d) g s"
  shows "load (gw_rr (guard_drop env format ps d st s)) = complete_one (release_load ps (drop_target_load (dp_permit d) (load (gw_rr g))))
    \<and> length (gw_telemetry (guard_drop env format ps d st s)) = length (gw_telemetry g) + 1
    \<and> quiet g (guard_drop env format ps d st s)"
proof -
  let ?s = "record_once env format d st (Some ''client disconnected before upstream stream completed'') s"
  have "guarded (dp_permit d) g ?s" "fst ?s" using assms by (simp_all add: guarded_record guarded_recorded)
  then show ?thesis by (simp add: guard_drop_def guarded_def quiet_def release_all_load)
qed

lemma buffered_guarded:
  assumes "guarded q g s" "calm env"
  shows "guarded q g (fst (respond_buffered env path d a s))"
proof -
  have "guarded q g (fst s, on_usage f (suspend env 4 (snd s)))" if "\<And>ob. account (f ob) = account ob" for f
    using assms that by (intro guarded_usage guarded_suspend) auto
  then show ?thesis
    using assms(1) by (auto simp: respond_buffered_def Let_def intro!: guarded_record split: sum.split option.split)
qed

lemma relay_invariant:
  assumes "\<And>e s. I s \<Longrightarrow> I (snd (snd (turn e s)))" "\<And>s. I s \<Longrightarrow> I (fin s)" "I s"
  shows "I (snd (relay_run turn fin n es s))"
  using assms(3)
proof (induction n arbitrary: es s)
  case 0
  then show ?case by simp
next
  case (Suc n)
  show ?case
  proof (cases es)
    case Nil
    then show ?thesis using Suc.prems assms(2) by simp
  next
    case (Cons e es')
    obtain x b s' where t: "turn e s = (x, b, s')" using prod_cases3 by blast
    then have "I s'" using assms(1) [OF Suc.prems, of e] by simp
    then show ?thesis using Suc.IH [of s' es'] by (auto simp: Cons t split: prod.splits)
  qed
qed

lemma turns_guarded:
  "guarded q g s \<Longrightarrow> guarded q g (snd (snd (sse_turn env format d st e s)))"
  "guarded q g s \<Longrightarrow> guarded q g (snd (snd (raw_turn env format d st e' s)))"
  by (cases e, auto simp: relay_failed_def intro!: guarded_record guarded_usage)
    (cases e', auto simp: relay_failed_def intro!: guarded_record guarded_usage)

lemma stream_state:
  "fst (respond_stream env path polls d a s) =
     (let fin = record_once env (format_from_path path) d (an_status a) (status_error (an_status a))
      in if answer_is_sse (ve_web env) a
         then snd (relay_run (sse_turn env (format_from_path path) d (an_status a)) fin polls (ve_lines env (an_events a))
                (fst s, on_usage usage_start_stream (snd s)))
         else snd (relay_run (raw_turn env (format_from_path path) d (an_status a)) fin polls (an_events a) s))"
  by (simp add: respond_stream_def Let_def split: prod.split)

lemma stream_guarded:
  assumes "guarded q g s"
  shows "guarded q g (fst (respond_stream env path polls d a s))"
proof -
  have "guarded q g (fst s, on_usage usage_start_stream (snd s))" using assms by (intro guarded_usage) simp_all
  then show ?thesis
    unfolding stream_state Let_def using assms
    by (simp only: relay_invariant [of "guarded q g"] turns_guarded guarded_record split: if_split) simp
qed

lemma select_body:
  assumes "upstream_select env path i p g = (g2, Inr d)"
  shows "dp_body d = fst (request_stream_usage (ve_parse env) (ve_print env)
      (rewrite_request_model (ve_parse env) (ve_print env) (rp_body p) (rv_upstream_model_id (dp_target d))) path)"
    and "dp_context_window d = known_window (ve_now env) (gw_rr g2) (dp_target d)"
  using assms by (auto simp: upstream_select_def Let_def split: prod.splits sum.splits target_admission_error.splits if_splits)

section \<open>The whole request\<close>

text \<open>
  The stages a request went through, as the cases of the proofs below: it was refused before it had
  a target, refused afterwards, failed at the target, or answered.
\<close>

lemma upstream_stages:
  assumes run: "proxy_upstream env method path uri hs auth (Some ps) body polls g = (g', r)"
  obtains (refused) g1 x where "upstream_plan env method path auth body g = (g1, Inl x)" "g' = on_rr (release_admitted ps) g1"
  | (unrouted) g1 p g2 x where "upstream_plan env method path auth body g = (g1, Inr p)"
      "upstream_select env path (fst ps) p g1 = (g2, Inl x)" "g' = on_rr (release_admitted ps) g2"
  | (unprepared) g1 p g2 d g3 x where "upstream_plan env method path auth body g = (g1, Inr p)"
      "upstream_select env path (fst ps) p g1 = (g2, Inr d)" "upstream_prepare env path auth d g2 = (g3, Inl x)"
      "g' = on_rr (release_all ps (dp_permit d)) g3"
  | (unreserved) g1 p g2 d g3 prep g4 x where "upstream_plan env method path auth body g = (g1, Inr p)"
      "upstream_select env path (fst ps) p g1 = (g2, Inr d)" "upstream_prepare env path auth d g2 = (g3, Inr prep)"
      "upstream_reserve env path auth prep g3 = (g4, Inl x)" "g' = on_rr (release_all ps (dp_permit d)) g4"
  | (failed) g1 p g2 d g3 prep g4 g5 x where "upstream_plan env method path auth body g = (g1, Inr p)"
      "upstream_select env path (fst ps) p g1 = (g2, Inr d)" "upstream_prepare env path auth d g2 = (g3, Inr prep)"
      "upstream_reserve env path auth prep g3 = (g4, Inr ())" "upstream_send env path uri hs d prep g4 = (g5, Inl x)"
      "g' = on_rr (release_all ps (dp_permit d)) g5"
  | (answered) g1 p g2 d g3 prep g4 g5 a s where "upstream_plan env method path auth body g = (g1, Inr p)"
      "upstream_select env path (fst ps) p g1 = (g2, Inr d)" "upstream_prepare env path auth d g2 = (g3, Inr prep)"
      "upstream_reserve env path auth prep g3 = (g4, Inr ())" "upstream_send env path uri hs d prep g4 = (g5, Inr a)"
      "s = fst (respond_buffered env path d a (False, g5)) \<or> s = fst (respond_stream env path polls d a (False, g5))"
      "g' = guard_drop env (format_from_path path) ps d (an_status a) s"
proof -
  obtain g1 o1 where 1: "upstream_plan env method path auth body g = (g1, o1)" by fastforce
  show thesis
  proof (cases o1)
    case (Inl x)
    then show thesis using refused [of g1 x] run 1 by (simp add: proxy_upstream_def)
  next
    case p: (Inr p)
    obtain g2 o2 where 2: "upstream_select env path (fst ps) p g1 = (g2, o2)" by fastforce
    show thesis
    proof (cases o2)
      case (Inl x)
      then show thesis using unrouted [of g1 p g2 x] run 1 2 p by (simp add: proxy_upstream_def)
    next
      case d: (Inr d)
      obtain g3 o3 where 3: "upstream_prepare env path auth d g2 = (g3, o3)" by fastforce
      show thesis
      proof (cases o3)
        case (Inl x)
        then show thesis using unprepared [of g1 p g2 d g3 x] run 1 2 3 p d by (simp add: proxy_upstream_def)
      next
        case q: (Inr prep)
        obtain g4 o4 where 4: "upstream_reserve env path auth prep g3 = (g4, o4)" by fastforce
        show thesis
        proof (cases o4)
          case (Inl x)
          then show thesis using unreserved [of g1 p g2 d g3 prep g4 x] run 1 2 3 4 p d q by (simp add: proxy_upstream_def)
        next
          case u: (Inr u)
          obtain g5 o5 where 5: "upstream_send env path uri hs d prep g4 = (g5, o5)" by fastforce
          show thesis
          proof (cases o5)
            case (Inl x)
            then show thesis using failed [of g1 p g2 d g3 prep g4 g5 x] run 1 2 3 4 5 p d q u by (simp add: proxy_upstream_def)
          next
            case a: (Inr a)
            show thesis
              by (rule answered [OF 1 [unfolded p] 2 [unfolded d] 3 [unfolded q] _ 5 [unfolded a],
                    of "if (answer_is_json (ve_web env) a \<and> \<not> answer_is_sse (ve_web env) a)
                          \<or> (is_anthropic (format_from_path path) \<and> \<not> is_success (an_status a))
                        then fst (respond_buffered env path d a (False, g5)) else fst (respond_stream env path polls d a (False, g5))"])
                (use run 1 2 3 4 5 p d q u a in \<open>auto simp: proxy_upstream_def Let_def split: prod.splits sum.splits if_splits\<close>)
          qed
        qed
      qed
    qed
  qed
qed

lemma answered_guarded:
  assumes "s = fst (respond_buffered env path d a (False, g)) \<or> s = fst (respond_stream env path polls d a (False, g))"
    "calm env" "holds q (gw_rr g)"
  shows "guarded q g s"
proof -
  have "guarded q g (False, g)" using assms(3) by (simp add: guarded_def quiet_def)
  then show ?thesis using assms(1,2) buffered_guarded stream_guarded by blast
qed



text \<open>
  What a request that was sent with \<open>headers\<close> and body \<open>out\<close> to \<open>url\<close> of target \<open>t\<close> has passed, when it came in
  with \<open>body\<close> in state \<open>g\<close> and its account is \<open>u\<close> in the end.
\<close>

definition usable_window :: "rr \<Rightarrow> resolved_target \<Rightarrow> nat option" where
  "usable_window r t = (case known_context r t of Some c \<Rightarrow> if c = 0 then None else Some c | None \<Rightarrow> None)"

definition checked_forward ::
  "upstream_env \<Rightarrow> string \<Rightarrow> auth_context \<Rightarrow> headers \<Rightarrow> string \<Rightarrow> nat + bytes \<Rightarrow> gateway
    \<Rightarrow> resolved_target \<times> string \<times> headers \<times> bytes \<Rightarrow> observation \<Rightarrow> bool" where
  "checked_forward env path auth hs uri body g sent u \<longleftrightarrow> (case sent of (t, url, headers, out) \<Rightarrow>
    \<exists>bytes requested workload resolution window prep. body = Inr bytes
    \<and> requested_model_from_body (ve_parse env) bytes = Inr requested
    \<and> workload = map_option vm_workload (vector_request_metadata_of (ve_parse env) path bytes)
    \<and> resolution = ve_resolve env requested workload
    \<and> still_authorized auth (rq_config resolution) path \<and> still_authorized auth (ve_config env) path
    \<and> validate (ve_parse env) path bytes = None
    \<and> t \<in> set (rq_candidates resolution)
    \<and> vector_endpoint_matches_target workload (rv_workload t)
    \<and> (\<exists>c \<in> set (rq_candidates resolution). rv_id c = rv_id t
         \<and> probed_ready (ve_now env) (gw_rr g) c \<and> eligible (ve_now env) (rr_targets (gw_rr g)) (routing_candidate_of c))
    \<and> window = usable_window (gw_rr g) t
    \<and> prepare (ve_parse env) (ve_print env) (ve_send env t) (ve_props env t) (quota_config auth (rq_config resolution))
        (ud_key_id (ob_record (fst (gw_usage g)))) path
        (fst (request_stream_usage (ve_parse env) (ve_print env)
           (rewrite_request_model (ve_parse env) (ve_print env) bytes (rv_upstream_model_id t)) path))
        window = Inr prep
    \<and> (case window of None \<Rightarrow> True | Some w \<Rightarrow>
         (case (case pp_context_check prep of
                  Some c \<Rightarrow> Some c
                | None \<Rightarrow> context_limit_violation (ve_parse env) (ve_print env) (ve_send env t)
                            (rq_config resolution) path (pp_body prep) w) of
            None \<Rightarrow> True | Some c \<Rightarrow> \<not> exceeded c))
    \<and> out = pp_body prep \<and> url = target_url t uri
    \<and> headers = apply_target_request_headers (ve_web env) [(''accept-encoding'', ''identity'')] hs t
    \<and> was_forwarded u
    \<and> (pp_reservation prep \<noteq> None \<longrightarrow> (\<exists>q. ob_quota u = Some q \<and> qt_forwarded q
         \<and> qt_id q = ud_request_id (ob_record u))))"

lemma known_window_usable: "known_window now r t = usable_window r t"
  by (auto simp: known_window_def usable_window_def known_context_def target_snapshot_def or_else_def
      Let_def target_runtime_default_def target_capabilities_default_def split: option.splits)

lemma usable_window_cong:
  assumes "known_context r' t = known_context r t"
  shows "usable_window r' t = usable_window r t"
  using assms by (simp add: usable_window_def)

lemma acquire_context:
  assumes "select_and_acquire_target now now' cs strategy key r = (r', Inr (c, tp))"
    and "rr_targets r2 = rr_targets r'"
  shows "known_context r2 t = known_context r t"
proof -
  obtain r1 s where s: "select_target now cs strategy key r = (r1, Some c)"
    "with_target (rc_instance_id c) (\<lambda>t. t\<lparr>tr_active_requests := tr_active_requests t + 1\<rparr>) r1 = (r', s)"
    using assms(1) by (rule acquire_split)
  have r1: "rr_targets r1 = rr_targets r" using select_target_cases [OF s(1)] by blast
  show ?thesis
    using with_target_get [of "rc_instance_id c" "\<lambda>t. t\<lparr>tr_active_requests := tr_active_requests t + 1\<rparr>" r1 "rv_id t"]
    unfolding s(2) fst_conv r1
    by (auto simp: known_context_def assms(2) target_runtime_default_def target_capabilities_default_def
        split: option.splits if_splits)
qed

lemma select_window:
  assumes "upstream_select env path i p g = (g2, Inr d)"
  shows "dp_context_window d = usable_window (gw_rr g) (dp_target d)"
proof -
  define sched where "sched = map routing_candidate_of
    (filter (probed_ready (ve_now env) (gw_rr g)) (rq_candidates (rp_resolution p)))"
  obtain r1 c tp where a: "select_and_acquire_target (ve_now env) (ve_now env) sched
      (pc_routing_strategy (rq_config (rp_resolution p))) (routing_group_key (rp_requested p) (plan_workload p)) (gw_rr g)
      = (r1, Inr (c, tp))"
    using assms by (auto simp: upstream_select_def Let_def sched_def split: prod.splits sum.splits target_admission_error.splits)
  have "rr_targets (gw_rr g2) = rr_targets r1"
    using assms a by (auto simp: upstream_select_def Let_def sched_def [symmetric] split: prod.splits if_splits)
  then have "usable_window (gw_rr g2) (dp_target d) = usable_window (gw_rr g) (dp_target d)"
    by (intro usable_window_cong acquire_context [OF a])
  then show ?thesis
    using select_body(2) [OF assms] by (simp add: known_window_usable)
qed

lemma plan_key_id:
  assumes "upstream_plan env method path auth body g = (g1, Inr p)"
  shows "ud_key_id (ob_record (fst (gw_usage g1))) = ud_key_id (ob_record (fst (gw_usage g)))"
proof -
  obtain bytes where "gw_usage g1 = gw_usage (on_usage (usage_request (ve_parse env) bytes) g)"
    using assms by (auto simp: upstream_plan_def Let_def split: if_splits sum.splits option.splits)
  then show ?thesis by (simp add: usage_request_def split: option.splits)
qed

lemma select_key_id:
  assumes "upstream_select env path i p g = (g2, Inr d)"
  shows "ud_key_id (ob_record (fst (gw_usage g2))) = ud_key_id (ob_record (fst (gw_usage g)))"
  using assms
  by (auto simp: upstream_select_def usage_target_def Let_def
      split: prod.splits sum.splits target_admission_error.splits if_splits)

lemma forwarded_facts:
  fixes ps :: "u64 \<times> nat"
  assumes "calm env" and sent: "gw_sent g' = gw_sent g @ [(t, url, headers, out)]"
    and st: "upstream_plan env method path auth body g = (g1, Inr p)" "upstream_select env path (fst ps) p g1 = (g2, Inr d)"
      "upstream_prepare env path auth d g2 = (g3, Inr prep)" "upstream_reserve env path auth prep g3 = (g4, Inr ())"
      "upstream_send env path uri hs d prep g4 = (g5, res)"
    and end': "gw_sent g' = gw_sent g5" "account (fst (gw_usage g')) = account (fst (gw_usage g5))"
  shows "checked_forward env path auth hs uri body g (t, url, headers, out) (fst (gw_usage g'))"
proof -
  obtain bytes where b: "body = Inr bytes" "rp_body p = bytes" "requested_model_from_body (ve_parse env) bytes = Inr (rp_requested p)"
    "rp_metadata p = vector_request_metadata_of (ve_parse env) path bytes"
    "rp_resolution p = ve_resolve env (rp_requested p) (plan_workload p)"
    "still_authorized auth (rq_config (rp_resolution p)) path" "validate (ve_parse env) path bytes = None"
    using plan_accepts [OF st(1)] by blast
  note rest = plan_stage [OF st(1)] select_chosen [OF st(2)] select_body(1) [OF st(2)]
    prepare_stage [OF st(3) assms(1)] reserve_stage [OF st(4) assms(1)] send_stage [OF st(5) assms(1)]
  have "gw_sent g4 = gw_sent g" using rest by (simp add: quiet_def)
  then have x: "t = dp_target d" "url = target_url t uri" "out = pp_body prep"
    "headers = apply_target_request_headers (ve_web env) [(''accept-encoding'', ''identity'')] hs t"
    using rest sent end' by auto
  have acc: "account (fst (gw_usage g')) = account (usage_forwarded (fst (gw_usage g4)))" using rest end' by simp
  have id: "ud_request_id (ob_record (fst (gw_usage g'))) = ud_request_id (ob_record (fst (gw_usage g3)))"
    "was_forwarded (fst (gw_usage g'))"
    "ob_quota (fst (gw_usage g')) = map_option permit_forwarded (ob_quota (fst (gw_usage g4)))"
    using acc rest by (simp_all add: account_def usage_forwarded_def was_forwarded_def)
  have q: "\<exists>q. ob_quota (fst (gw_usage g')) = Some q \<and> qt_forwarded q
      \<and> qt_id q = ud_request_id (ob_record (fst (gw_usage g')))" if "pp_reservation prep \<noteq> None"
  proof -
    obtain q where "ob_quota (fst (gw_usage g4)) = Some q" "qt_id q = ud_request_id (ob_record (fst (gw_usage g3)))"
      using rest(6) \<open>pp_reservation prep \<noteq> None\<close> by blast
    then show ?thesis by (simp add: id permit_forwarded_def)
  qed
  have rr: "gw_rr g1 = gw_rr g" using rest(1) by simp
  have chosen: "t \<in> set (rq_candidates (rp_resolution p)) \<and> vector_endpoint_matches_target (plan_workload p) (rv_workload t)
    \<and> (\<exists>c \<in> set (rq_candidates (rp_resolution p)). rv_id c = rv_id t
       \<and> probed_ready (ve_now env) (gw_rr g) c \<and> eligible (ve_now env) (rr_targets (gw_rr g)) (routing_candidate_of c))"
    and dp: "dp_plan d = p"
    using rest(3) unfolding rr x(1) [symmetric] by blast+
  have workload: "plan_workload p = map_option vm_workload (vector_request_metadata_of (ve_parse env) path bytes)"
    using b(4) by (simp add: plan_workload_def)
  have window: "dp_context_window d = usable_window (gw_rr g) t"
    using select_window [OF st(2)] unfolding rr x(1) .
  have "prepare_request env path auth d (fst (gw_usage g2)) = Inr prep"
    "\<forall>c. context_check env path d prep = Some c \<longrightarrow> \<not> exceeded c" using rest(5) by blast+
  then have prep: "prepare (ve_parse env) (ve_print env) (ve_send env t) (ve_props env t)
        (quota_config auth (rq_config (rp_resolution p))) (ud_key_id (ob_record (fst (gw_usage g)))) path
        (fst (request_stream_usage (ve_parse env) (ve_print env)
           (rewrite_request_model (ve_parse env) (ve_print env) bytes (rv_upstream_model_id t)) path))
        (usable_window (gw_rr g) t) = Inr prep"
    and checked: "case usable_window (gw_rr g) t of None \<Rightarrow> True | Some w \<Rightarrow>
         (case (case pp_context_check prep of
                  Some c \<Rightarrow> Some c
                | None \<Rightarrow> context_limit_violation (ve_parse env) (ve_print env) (ve_send env t)
                            (rq_config (rp_resolution p)) path (pp_body prep) w) of
            None \<Rightarrow> True | Some c \<Rightarrow> \<not> exceeded c)"
    using rest(4) plan_key_id [OF st(1)] select_key_id [OF st(2)] b(2)
    by (simp_all add: prepare_request_def context_check_def quota_identity_def dp window x(1) split: option.splits)
  have auth2: "still_authorized auth (ve_config env) path" using rest(6) by blast
  show ?thesis
    unfolding checked_forward_def prod.case
    by (rule exI [of _ bytes], rule exI [of _ "rp_requested p"], rule exI [of _ "plan_workload p"],
        rule exI [of _ "rp_resolution p"], rule exI [of _ "usable_window (gw_rr g) t"], rule exI [of _ prep],
        intro conjI impI) (use b(1,3,5-7) workload chosen prep checked auth2 x id(2) q in \<open>blast+\<close>)
qed

text \<open>
  C25. Whatever the router forwards has passed every check: the body parsed, the key was authorized
  under the configuration of the routing and again under the one read after the body was prepared
  and checked, before the quota is asked; the tool history is valid, the target is one of the
  resolved candidates, was not known to be unready and was within its limits, its workload fits the
  endpoint; the body was prepared for the key of the request and the context window the target is
  known to have, and when there is one the check against it found no overflow; and a request
  that needs a reservation holds a quota permit with its own id, marked as forwarded.  The bytes sent are the prepared body with the target's model name, to the
  URL of the target and with the filtered headers.
\<close>

theorem upstream_forward_safe:
  assumes "calm env" and run: "proxy_upstream env method path uri hs auth (Some ps) body polls g = (g', r)"
    and sent: "gw_sent g' = gw_sent g @ [(t, url, headers, out)]"
  shows "checked_forward env path auth hs uri body g (t, url, headers, out) (fst (gw_usage g'))"
  using run
proof (cases rule: upstream_stages)
  case (refused g1 x)
  then show ?thesis using plan_stage [OF refused(1)] sent by (simp add: quiet_def)
next
  case (unrouted g1 p g2 x)
  then show ?thesis using plan_stage [OF unrouted(1)] select_refused [OF unrouted(2)] sent by (simp add: quiet_def)
next
  case (unprepared g1 p g2 d g3 x)
  then show ?thesis
    using plan_stage [OF unprepared(1)] select_chosen(1) [OF unprepared(2)] prepare_stage [OF unprepared(3) assms(1)] sent
    by (simp add: quiet_def)
next
  case (unreserved g1 p g2 d g3 prep g4 x)
  then show ?thesis
    using plan_stage [OF unreserved(1)] select_chosen(1) [OF unreserved(2)] prepare_stage [OF unreserved(3) assms(1)]
      reserve_stage [OF unreserved(4) assms(1)] sent by (simp add: quiet_def)
next
  case (failed g1 p g2 d g3 prep g4 g5 x)
  then show ?thesis using forwarded_facts [OF assms(1) sent failed(1-5)] by simp
next
  case (answered g1 p g2 d g3 prep g4 g5 a s)
  have "guarded (dp_permit d) g5 s"
    using answered_guarded [OF answered(6) assms(1), of "dp_permit d"] select_chosen(1) [OF answered(2)]
      prepare_stage [OF answered(3) assms(1), of "dp_permit d"] reserve_stage [OF answered(4) assms(1), of "dp_permit d"]
      send_stage [OF answered(5) assms(1), of "dp_permit d"] by simp
  then show ?thesis using forwarded_facts [OF assms(1) sent answered(1-5)] guard_closes answered(7) by (simp add: quiet_def)
qed

section \<open>The envelope of a failure\<close>

abbreviation enveloped :: "upstream_env \<Rightarrow> string \<Rightarrow> response \<Rightarrow> bool" where
  "enveloped env path r \<equiv> error_ok (wb_header_ok (ve_web env)) (ve_rid env) (format_from_path path) r"

lemma failure_response_ok: "error_ok ok rid f (failure_response ok rid rid2 e f)"
  using coded_error_response_ok [of ok rid f rid2]
  by (cases f) (auto simp: failure_response_def error_ok_def Let_def request_id_name_def ANTHROPIC_FORMAT_HEADER_def is_anthropic_def)

lemma local_error_ok: "error_ok (wb_header_ok (ve_web env)) (ve_rid env) f (local_error env f status message)"
  by (simp add: local_error_def error_response_ok)

lemmas refusals_ok = local_error_ok coded_error_response_ok checkpoint_response_ok context_response_ok failure_response_ok

lemma quota_refused_ok: "quota_refused env f e g = (g', r) \<Longrightarrow> error_ok (wb_header_ok (ve_web env)) (ve_rid env) f r"
  by (auto simp: quota_refused_def quota_error_response_def coded_error_response_ok)

lemma plan_refusal_ok: "upstream_plan env method path auth body g = (g', Inl r) \<Longrightarrow> enveloped env path r"
  by (auto simp: upstream_plan_def Let_def refusals_ok split: if_splits sum.splits option.splits)

lemma select_refusal_ok: "upstream_select env path i p g = (g', Inl r) \<Longrightarrow> enveloped env path r"
  by (auto simp: upstream_select_def Let_def refusals_ok
      split: prod.splits sum.splits target_admission_error.splits if_splits)

lemma prepare_refusal_ok: "upstream_prepare env path auth d g = (g', Inl r) \<Longrightarrow> enveloped env path r"
  by (auto simp: upstream_prepare_def Let_def refusals_ok
      split: sum.splits option.splits if_splits prod.splits dest: quota_refused_ok)

lemma reserve_refusal_ok: "upstream_reserve env path auth prep g = (g', Inl r) \<Longrightarrow> enveloped env path r"
  by (auto simp: upstream_reserve_def Let_def refusals_ok
      split: sum.splits option.splits if_splits prod.splits dest: quota_refused_ok)

lemma call_failed_ok: "call_failed env path d code message g = (g', Inl r) \<Longrightarrow> enveloped env path r"
  by (auto simp: call_failed_def Let_def refusals_ok)

lemma send_refusal_ok: "upstream_send env path uri hs d prep g = (g', Inl r) \<Longrightarrow> enveloped env path r"
  by (auto simp: upstream_send_def Let_def split: call_result.splits dest: call_failed_ok)

lemma buffered_refusal_ok: "respond_buffered env path d a s = (s', Inl r) \<Longrightarrow> enveloped env path r"
  by (auto simp: respond_buffered_def Let_def refusals_ok split: if_splits sum.splits option.splits)

text \<open>A failed upstream answer that is buffered gets the envelope and is declared as JSON.\<close>

lemma hdr_append_get: "hm_get hs k = None \<Longrightarrow> hm_get (hdr_append k v hs) k = Some v"
  by (simp add: hdr_append_def map_add_def)

lemma hdr_append_other: "hm_get hs k = Some v \<Longrightarrow> hm_get (hdr_append n w hs) k = Some v"
  by (simp add: hdr_append_def)

lemma filter_get_None: "\<forall>v. \<not> P (k, v) \<Longrightarrow> hm_get (filter P hs) k = None"
  by (auto simp: map_of_eq_None_iff)

lemma failed_content_type:
  assumes "\<not> is_success (an_status a)" "answer_is_json w a \<or> is_anthropic f"
  shows "hm_get (response_headers w f a) ''content-type'' = Some ''application/json''"
proof -
  have low: "ascii_lowercase ''content-type'' = ''content-type''" by code_simp
  show ?thesis
    using assms by (simp add: response_headers_def Let_def hdr_append_get filter_get_None low)
qed

lemma format_headers_get:
  "hm_get (format_headers f hs) ''content-type'' = hm_get hs ''content-type''"
  by (simp add: format_headers_def ANTHROPIC_FORMAT_HEADER_def)

lemma buffered_headers_form:
  assumes "buffered_headers env f a body = Some hs"
  shows "\<exists>h. hs = format_headers f h \<and> (h = response_headers (ve_web env) f a
    \<or> (\<exists>i. h = hdr_append ''request-id'' i (response_headers (ve_web env) f a)))"
  using assms by (auto simp: buffered_headers_def Let_def split: option.splits if_splits)

lemma buffered_reply:
  assumes "respond_buffered env path d a s = (s', Inr x)"
    and "answer_is_json (ve_web env) a \<or> is_anthropic (format_from_path path)"
  shows "ry_status x = an_status a \<and> (\<not> is_success (an_status a) \<longrightarrow>
      hm_get (ry_headers x) ''content-type'' = Some ''application/json''
      \<and> (\<exists>body v. ry_body x = print_or (ve_print env) body v \<and> envelope_ok (format_from_path path) v))"
proof -
  let ?f = "format_from_path path"
  obtain body where x: "ry_status x = an_status a" "ry_body x = rewrite_json_response (ve_parse env) (ve_print env)
      (ve_reason env) (ve_rid env) body (dp_response_model d) ?f (an_status a)"
    "buffered_headers env ?f a (ry_body x) = Some (ry_headers x)"
    using assms(1) by (auto simp: respond_buffered_def Let_def split: if_splits sum.splits option.splits)
  have "hm_get (ry_headers x) ''content-type'' = Some ''application/json''"
    if failed: "\<not> is_success (an_status a)"
  proof -
    obtain hs where "ry_headers x = format_headers ?f hs"
      "hs = response_headers (ve_web env) ?f a \<or> (\<exists>i. hs = hdr_append ''request-id'' i (response_headers (ve_web env) ?f a))"
      using buffered_headers_form [OF x(3)] by blast
    then show ?thesis
      using failed_content_type [OF failed assms(2)] by (auto simp: format_headers_get hdr_append_other)
  qed
  moreover have "\<exists>v. ry_body x = print_or (ve_print env) body v \<and> envelope_ok ?f v" if "\<not> is_success (an_status a)"
    unfolding x(2) using error_envelopes [OF that] by blast
  ultimately show ?thesis using x(1) by blast
qed

text \<open>
  C19. Every failure has the error envelope of the client's API format, with one exception that is
  stated.  Whatever the router answers itself carries the envelope, the request identifier, the
  format marker and a diagnostic category.  An upstream failure that is buffered (every one for an
  Anthropic client, and the JSON ones for an OpenAI client) is replaced by or completed to the
  envelope and declared as JSON.  The only failures that are relayed as they come are those an
  OpenAI client gets from an upstream whose answer is not JSON or is an event stream.
\<close>

theorem failures_enveloped:
  assumes "proxy_upstream env method path uri hs auth permits body polls g = (g', r)"
  shows "case r of
      Local x \<Rightarrow> error_ok (wb_header_ok (ve_web env)) (ve_rid env) (format_from_path path) x
    | Buffered x \<Rightarrow> is_success (ry_status x)
        \<or> hm_get (ry_headers x) ''content-type'' = Some ''application/json''
          \<and> (\<exists>body v. ry_body x = print_or (ve_print env) body v \<and> envelope_ok (format_from_path path) v)
    | Relayed x \<Rightarrow> is_success (rl_status x)
        \<or> format_from_path path = OpenAi
          \<and> (\<exists>a t url sent out.
               ve_call env t url sent out = Answered (an_status a) (an_headers a) (an_length a) (an_events a)
               \<and> rl_status x = an_status a
               \<and> (\<not> answer_is_json (ve_web env) a \<or> answer_is_sse (ve_web env) a))"
proof (cases permits)
  case None
  then show ?thesis using assms by (auto simp: proxy_upstream_def Let_def local_error_ok)
next
  case (Some ps)
  let ?json = "\<lambda>a. answer_is_json (ve_web env) a" and ?sse = "\<lambda>a. answer_is_sse (ve_web env) a"
  let ?buffer = "\<lambda>a. ?json a \<and> \<not> ?sse a \<or> is_anthropic (format_from_path path) \<and> \<not> is_success (an_status a)"
  have ok: "enveloped env path x" if "r = Local x" for x
    using assms that unfolding proxy_upstream_def Some Let_def option.case
    by (auto split: prod.splits sum.splits if_splits dest: plan_refusal_ok select_refusal_ok prepare_refusal_ok
        reserve_refusal_ok send_refusal_ok buffered_refusal_ok)
  have buffered: "\<exists>d a s s'. respond_buffered env path d a s = (s', Inr x) \<and> ?buffer a" if "r = Buffered x" for x
    using assms that unfolding proxy_upstream_def Some Let_def option.case
    by (auto split: prod.splits sum.splits if_splits) blast+
  have relayed: "\<exists>d a s s' uri hs prep g4 g5. respond_stream env path polls d a s = (s', x) \<and> \<not> ?buffer a
      \<and> upstream_send env path uri hs d prep g4 = (g5, Inr a)" if "r = Relayed x" for x
    using assms that unfolding proxy_upstream_def Some Let_def option.case
    by (auto split: prod.splits sum.splits if_splits) blast+
  have answered: "\<exists>t url sent out.
      ve_call env t url sent out = Answered (an_status a) (an_headers a) (an_length a) (an_events a)"
    if "upstream_send env path uri hs d prep g4 = (g5, Inr a)" for uri hs d prep g4 g5 a
    using that by (auto simp: upstream_send_def call_failed_def Let_def split: call_result.splits) blast
  have status: "rl_status x = an_status a" if "respond_stream env path polls d a s = (s', x)" for d a s s' x
    using that by (auto simp: respond_stream_def Let_def split: prod.splits)
  show ?thesis
  proof (cases r)
    case (Local x)
    then show ?thesis using ok by simp
  next
    case (Buffered x)
    then obtain d a s s' where b: "respond_buffered env path d a s = (s', Inr x)" "?buffer a"
      using buffered by blast
    then show ?thesis using buffered_reply [OF b(1)] Buffered by auto
  next
    case (Relayed x)
    then obtain d a s s' uri hs prep g4 g5 where b: "respond_stream env path polls d a s = (s', x)" "\<not> ?buffer a"
      "upstream_send env path uri hs d prep g4 = (g5, Inr a)"
      using relayed by blast
    obtain t url sent out where c: "ve_call env t url sent out
        = Answered (an_status a) (an_headers a) (an_length a) (an_events a)"
      using answered [OF b(3)] by blast
    have "is_success (an_status a) \<or> format_from_path path = OpenAi \<and> (\<not> ?json a \<or> ?sse a)"
      using b(2) by (cases "format_from_path path") (auto simp: is_anthropic_def)
    then show ?thesis using status [OF b(1)] c unfolding Relayed reply.case by metis
  qed
qed

section \<open>Relayed streams\<close>

text \<open>
  What a relay takes from its events: the good ones up to the first bad one and that one, as far
  as the client polls.
\<close>

definition relay_consumed :: "('e \<Rightarrow> string + bytes) \<Rightarrow> nat \<Rightarrow> 'e list \<Rightarrow> 'e list" where
  "relay_consumed out polls es =
     take polls (takeWhile (\<lambda>e. \<not> isl (out e)) es @ take 1 (dropWhile (\<lambda>e. \<not> isl (out e)) es))"

lemma relay_consumed_simps [simp]:
  "relay_consumed out 0 es = []" "relay_consumed out n [] = []"
  "relay_consumed out (Suc n) (e # es) = e # (if isl (out e) then [] else relay_consumed out n es)"
  by (simp_all add: relay_consumed_def)

lemma relay_run_spec:
  assumes "\<And>e s. fst (turn e s) = out e \<and> fst (snd (turn e s)) = isl (out e) \<and> ob (snd (snd (turn e s))) = f e (ob s)"
    "\<And>s. ob (fin s) = ob s"
  shows "fst (relay_run turn fin n es s) = map out (relay_consumed out n es)
    \<and> ob (snd (relay_run turn fin n es s)) = fold f (relay_consumed out n es) (ob s)"
proof (induction n arbitrary: es s)
  case 0
  then show ?case by simp
next
  case (Suc n)
  show ?case
  proof (cases es)
    case Nil
    then show ?thesis by (simp add: assms(2))
  next
    case (Cons e es')
    obtain x b s' where t: "turn e s = (x, b, s')" using prod_cases3 by blast
    then have "x = out e" "b = isl (out e)" "ob s' = f e (ob s)" using assms(1) [of e s] by simp_all
    then show ?thesis using Suc.IH [of es' s'] t by (auto simp: Cons split: prod.splits)
  qed
qed

fun sse_out :: "upstream_env \<Rightarrow> api_format \<Rightarrow> dispatch \<Rightarrow> line_event \<Rightarrow> string + bytes" where
  "sse_out env format d (Line row) = Inr (sse_line_out env format d row)"
| "sse_out env format d (LineError e) = Inl e"
| "sse_out env format d LineIdle = Inl (idle_message d)"

fun raw_out :: "dispatch \<Rightarrow> body_event \<Rightarrow> string + bytes" where
  "raw_out d (Chunk b) = Inr b"
| "raw_out d (BodyError e) = Inl e"
| "raw_out d IdleTimeout = Inl (idle_message d)"

fun sse_account :: "upstream_env \<Rightarrow> line_event \<Rightarrow> observation \<Rightarrow> observation" where
  "sse_account env (Line row) = usage_sse (ve_parse env) (ve_elapsed env) row"
| "sse_account env (LineError e) = usage_fail ''stream'' ''stream_interrupted''"
| "sse_account env LineIdle = usage_fail ''stream'' ''stream_timeout''"

fun raw_account :: "body_event \<Rightarrow> observation \<Rightarrow> observation" where
  "raw_account (Chunk b) = id"
| "raw_account (BodyError e) = usage_fail ''upstream'' ''response_error''"
| "raw_account IdleTimeout = usage_fail ''upstream'' ''upstream_timeout''"

lemma record_once_usage [simp]: "gw_usage (snd (record_once env format d st e s)) = gw_usage (snd s)"
  by (cases s) (simp add: record_once_def add_telemetry_def)

lemma sse_turn_out:
  "fst (sse_turn env format d st e s) = sse_out env format d e \<and> fst (snd (sse_turn env format d st e s)) = isl (sse_out env format d e)
    \<and> fst (gw_usage (snd (snd (snd (sse_turn env format d st e s))))) = sse_account env e (fst (gw_usage (snd s)))"
  by (cases e) (simp_all add: relay_failed_def)

lemma raw_turn_out:
  "fst (raw_turn env format d st e s) = raw_out d e \<and> fst (snd (raw_turn env format d st e s)) = isl (raw_out d e)
    \<and> fst (gw_usage (snd (snd (snd (raw_turn env format d st e s))))) = raw_account e (fst (gw_usage (snd s)))"
  by (cases e) (simp_all add: relay_failed_def)

text \<open>
  C27. A relayed answer is the upstream's answer: the items the client gets are, in order, the
  rewritten lines (or the unchanged chunks) up to the first error, and then the error, as far as
  the client polls; and the account of the request has seen exactly these lines and that error.
\<close>

theorem stream_relayed:
  "rl_items (snd (respond_stream env path polls d a s)) =
     (if answer_is_sse (ve_web env) a
      then map (sse_out env (format_from_path path) d) (relay_consumed (sse_out env (format_from_path path) d) polls (ve_lines env (an_events a)))
      else map (raw_out d) (relay_consumed (raw_out d) polls (an_events a)))
   \<and> fst (gw_usage (snd (fst (respond_stream env path polls d a s)))) =
     (if answer_is_sse (ve_web env) a
      then fold (sse_account env) (relay_consumed (sse_out env (format_from_path path) d) polls (ve_lines env (an_events a)))
             (usage_start_stream (fst (gw_usage (snd s))))
      else fold raw_account (relay_consumed (raw_out d) polls (an_events a)) (fst (gw_usage (snd s))))"
proof -
  let ?st = "an_status a" and ?f = "format_from_path path"
  let ?fin = "record_once env ?f d ?st (status_error ?st)"
  note sse = relay_run_spec [of "sse_turn env ?f d ?st" "sse_out env ?f d" "\<lambda>s. fst (gw_usage (snd s))" "sse_account env" ?fin polls,
      OF sse_turn_out, simplified]
  note raw = relay_run_spec [of "raw_turn env ?f d ?st" "raw_out d" "\<lambda>s. fst (gw_usage (snd s))" "raw_account" ?fin polls,
      OF raw_turn_out, simplified]
  show ?thesis
    using sse [of "ve_lines env (an_events a)" "(fst s, on_usage usage_start_stream (snd s))"] raw [of "an_events a" s]
    by (cases "answer_is_sse (ve_web env) a") (simp_all add: respond_stream_def Let_def case_prod_unfold)
qed

text \<open>
  When the memory for a buffered answer is exhausted, the router answers 503 itself, but the
  telemetry record says that the client disconnected.
\<close>

lemma exhausted_budget_reported:
  assumes "\<not> ve_resize env 0" "respond_buffered env path d a (False, g) = (s, res)"
  shows "res = Inl (local_error env (format_from_path path) 503 ''router response memory budget exceeded'')"
    and "map tm_error_text (gw_telemetry (guard_drop env (format_from_path path) ps d (an_status a) s))
      = map tm_error_text (gw_telemetry g) @ [Some ''client disconnected before upstream stream completed'']"
  using assms by (auto simp: respond_buffered_def guard_drop_def record_once_def telemetry_of_def)

section \<open>A concrete request\<close>

definition demo_target :: resolved_target where
  "demo_target = \<lparr> rv_public = proxy_target_from_instance ''g'' (demo_instance ''first'') True, rv_engine_kind = LlamaCpp,
     rv_upstream_model_id = ''first'', rv_api_key = [], rv_api_prefix = [], rv_scheme = ''http'',
     rv_configured_context_length = None, rv_telemetry_session_id = None, rv_workload = Inference,
     rv_route_priority = 0, rv_route_weight = 1, rv_route_max_concurrent_requests = 0 \<rparr>"

definition demo_upstream :: upstream_env where
  "demo_upstream = \<lparr> ve_web = demo_web, ve_parse = demo_parse, ve_print = (\<lambda>_. None), ve_reason = (\<lambda>_. None), ve_rid = ''req_1'',
     ve_rid2 = ''req_2'', ve_resolve = (\<lambda>_ _. \<lparr> rq_config = proxy_config_default, rq_candidates = [demo_target],
       rq_checkpoint_phase = None, rq_empty_failure = RouteUnavailable \<rparr>), ve_config = proxy_config_default,
     ve_others = (\<lambda>_ r. r), ve_others_ledger = (\<lambda>l. l), ve_send = (\<lambda>_ _ _. None), ve_props = (\<lambda>_. None),
     ve_call = (\<lambda>_ _ _ _. Answered 200 [(''content-type'', ''text/event-stream'')] None [Chunk ''a'']),
     ve_lines = (\<lambda>es. map (\<lambda>e. case e of Chunk b \<Rightarrow> Line b | _ \<Rightarrow> LineIdle) es), ve_resize = (\<lambda>_. True), ve_seed = 7, ve_now = 9,
     ve_now_ms = 9, ve_elapsed = 1, ve_latency = 1, ve_faults = (\<lambda>_. None), ve_month_start = (\<lambda>_. Inr 0) \<rparr>"

definition demo_auth :: auth_context where
  "demo_auth = \<lparr> au_client_id = [], au_requests_per_minute = 0, au_scopes = [], au_policy = None \<rparr>"

definition demo_gateway :: gateway where
  "demo_gateway = \<lparr> gw_rr = rr_default, gw_ledger = \<lparr> lg_periods = [], lg_requests = [] \<rparr>, gw_usage = (demo_handle, usage_out_empty),
     gw_telemetry = [], gw_sent = [], gw_task = 0 \<rparr>"

lemma demo_calm: "calm demo_upstream" by (simp add: calm_def demo_upstream_def)



definition demo_request_plan :: request_plan where
  "demo_request_plan = \<lparr> rp_body = ''q'', rp_requested = None, rp_metadata = None, rp_streaming = False,
     rp_resolution = ve_resolve demo_upstream None None \<rparr>"

lemma demo_plan:
  "upstream_plan demo_upstream ''POST'' ''/v1/completions'' demo_auth (Inr ''q'') demo_gateway
    = (on_usage (usage_request demo_parse ''q'') demo_gateway, Inr demo_request_plan)"
  by (simp add: upstream_plan_def demo_upstream_def Let_def format_from_path_def requested_model_from_body_def demo_parse_def
    vector_request_metadata_of_def classify_vector_endpoint_def request_uses_streaming_def json_field_def
    still_authorized_def demo_auth_def proxy_config_default_def validate_def demo_request_plan_def)

lemma demo_acquire:
  "\<exists>r1 tp t. select_and_acquire_target 9 9 [routing_candidate_of demo_target] strategy key rr_default
     = (r1, Inr (routing_candidate_of demo_target, tp))
     \<and> hm_get (rr_targets r1) ''g'' = Some t \<and> cap_context_length (tr_capabilities t) = None"
  by (auto simp: select_and_acquire_target_def select_target_def Let_def best_tier_def eligible_def demo_target_def routing_candidate_of_def
     proxy_target_from_instance_def rr_default_def with_target_def next_scheduling_ticket_def target_runtime_default_def
     target_capabilities_default_def split: prod.splits)

lemma demo_select:
  "\<exists>g2 d. upstream_select demo_upstream ''/v1/completions'' 0 demo_request_plan (on_usage (usage_request demo_parse ''q'') demo_gateway)
       = (g2, Inr d) \<and> dp_context_window d = None"
proof -
  let ?cs = "[routing_candidate_of demo_target]"
  have c: "probed_ready 9 rr_default demo_target" "rc_instance_id (routing_candidate_of demo_target) = rv_id demo_target"
    "rv_id demo_target = ''g''"
    by (simp_all add: probed_ready_def demo_target_def routing_candidate_of_def proxy_target_from_instance_def)
  have env: "ve_now demo_upstream = 9" "ve_seed demo_upstream = 7" "rp_resolution demo_request_plan = \<lparr> rq_config = proxy_config_default,
      rq_candidates = [demo_target], rq_checkpoint_phase = None, rq_empty_failure = RouteUnavailable \<rparr>"
    "rp_requested demo_request_plan = None" "plan_workload demo_request_plan = None"
    "gw_rr demo_gateway = rr_default"
    by (simp_all add: demo_upstream_def demo_request_plan_def plan_workload_def demo_gateway_def)
  obtain r1 tp t where a: "select_and_acquire_target 9 9 ?cs (pc_routing_strategy proxy_config_default)
      (routing_group_key None None) rr_default = (r1, Inr (routing_candidate_of demo_target, tp))"
    and t: "hm_get (rr_targets r1) ''g'' = Some t" "cap_context_length (tr_capabilities t) = None"
    using demo_acquire by blast
  have "known_window 9 (r1\<lparr> rr_admission := adm \<rparr>) demo_target = None" for adm
    using t by (simp add: known_window_def target_snapshot_def c(3) demo_target_def Let_def proxy_target_from_instance_def)
  moreover have "vector_endpoint_matches_target None (rv_workload demo_target)"
    by (simp add: vector_endpoint_matches_target_def demo_target_def)
  ultimately show ?thesis
    using a c by (simp add: upstream_select_def env Let_def case_prod_unfold)
qed


lemma demo_unmetered:
  assumes "dp_plan d = demo_request_plan"
  shows "prepare_request demo_upstream ''/v1/completions'' demo_auth d ob = Inr \<lparr> pp_body = dp_body d, pp_context_check = None, pp_reservation = None \<rparr>"
  by (simp add: prepare_request_def prepare_def quota_config_def demo_auth_def count_path_def)

abbreviation demo_run :: "nat \<Rightarrow> gateway \<times> reply" where
  "demo_run polls \<equiv> proxy_upstream demo_upstream ''POST'' ''/v1/completions'' ''/v1/completions'' [] demo_auth (Some (0, 0))
     (Inr ''q'') polls demo_gateway"

text \<open>The concrete request is forwarded.\<close>

lemma demo_sent:
  assumes run: "demo_run polls = (g', r)"
  shows "gw_sent g' = gw_sent demo_gateway @ [(demo_target, target_url demo_target ''/v1/completions'', [(''accept-encoding'', ''identity'')], ''q'')]"
proof -
  obtain g2 d where s: "upstream_select demo_upstream ''/v1/completions'' 0 demo_request_plan
      (on_usage (usage_request demo_parse ''q'') demo_gateway) = (g2, Inr d)" "dp_context_window d = None"
    using demo_select by blast
  have d: "dp_plan d = demo_request_plan" "dp_target d = demo_target"
    using select_chosen(2) [of _ _ "(0, 0)", simplified, OF s(1)] by (auto simp: demo_request_plan_def demo_upstream_def)
  have "dp_body d = ''q''"
    using select_body(1) [OF s(1)]
    by (simp add: d demo_request_plan_def demo_upstream_def request_stream_usage_def rewrite_request_model_def demo_parse_def)
  note demo = d \<open>dp_body d = ''q''\<close> s(2)
  have p: "upstream_prepare demo_upstream ''/v1/completions'' demo_auth d g2
      = (suspend demo_upstream 1 (suspend demo_upstream 0 g2), Inr \<lparr> pp_body = ''q'', pp_context_check = None, pp_reservation = None \<rparr>)"
    by (simp add: upstream_prepare_def demo_unmetered demo context_check_def note_budget_def)
  have q: "\<exists>h. upstream_reserve demo_upstream ''/v1/completions'' demo_auth \<lparr> pp_body = ''q'', pp_context_check = None, pp_reservation = None \<rparr> k
      = (h, Inr ())" for k
    by (simp add: upstream_reserve_def demo_auth_def demo_upstream_def still_authorized_def proxy_config_default_def admit_def)
  have hs: "apply_target_request_headers (ve_web demo_upstream) [(''accept-encoding'', ''identity'')] [] demo_target = [(''accept-encoding'', ''identity'')]"
    by (simp add: apply_target_request_headers_def demo_target_def)
  let ?sent = "gw_sent demo_gateway @ [(demo_target, target_url demo_target ''/v1/completions'', [(''accept-encoding'', ''identity'')], ''q'')]"
  have sent: "gw_sent g5 = ?sent"
    if "upstream_reserve demo_upstream ''/v1/completions'' demo_auth prep (suspend demo_upstream 1 (suspend demo_upstream 0 g2)) = (g4, Inr ())"
      "upstream_send demo_upstream ''/v1/completions'' ''/v1/completions'' [] d prep g4 = (g5, res)" "pp_body prep = ''q''" for prep g4 g5 res
    using reserve_stage [OF that(1) demo_calm] send_stage [OF that(2) demo_calm] select_chosen(1) [of _ _ "(0, 0)", simplified, OF s(1)]
    by (simp add: that(3) demo hs quiet_def)
  show ?thesis
    using run
  proof (cases rule: upstream_stages)
    case (refused g1 x)
    then show ?thesis using demo_plan by simp
  next
    case (unrouted g1 p g2 x)
    then show ?thesis using demo_plan s by simp
  next
    case (unprepared g1 p h2 d' g3 x)
    then show ?thesis using demo_plan s p by simp
  next
    case (unreserved g1 p h2 d' g3 prep g4 x)
    then show ?thesis using demo_plan s p q [of "suspend demo_upstream 1 (suspend demo_upstream 0 g2)"] by auto
  next
    case (failed g1 p h2 d' g3 prep g4 g5 x)
    then show ?thesis using demo_plan s p sent by auto
  next
    case (answered g1 p h2 d' g3 prep g4 g5 a st)
    then have eq: "h2 = g2" "d' = d" "g3 = suspend demo_upstream 1 (suspend demo_upstream 0 g2)" "pp_body prep = ''q''"
      using demo_plan s p by auto
    note answered = answered [unfolded eq(1-3)]
    have "holds (dp_permit d) (gw_rr g5)"
      using select_chosen(1) [OF answered(2)] prepare_stage [OF answered(3) demo_calm, of "dp_permit d"]
        reserve_stage [OF answered(4) demo_calm, of "dp_permit d"] send_stage [OF answered(5) demo_calm, of "dp_permit d"] by simp
    then have "quiet g5 g'"
      using answered_guarded [OF answered(6) demo_calm] guard_closes unfolding answered(7) by blast
    then show ?thesis using sent [OF answered(4,5) eq(4)] by (simp add: quiet_def)
  qed
qed


theorem upstream_forward_safe_witness:
  "was_forwarded (fst (gw_usage (fst (demo_run 5))))"
proof -
  obtain g' r where run: "demo_run 5 = (g', r)" by fastforce
  show ?thesis using upstream_forward_safe [OF demo_calm run demo_sent [OF run]] run by (auto simp: checked_forward_def)
qed

theorem failures_enveloped_witness:
  "\<exists>g' x. proxy_upstream demo_upstream ''GET'' ''/v1/messages'' ''/v1/messages'' [] demo_auth (Some (0, 0))
       (Inr ''q'') 5 demo_gateway = (g', Local x)
     \<and> error_ok (wb_header_ok (ve_web demo_upstream)) (ve_rid demo_upstream) Anthropic x"
proof -
  have f: "format_from_path ''/v1/messages'' = Anthropic" by (simp add: format_from_path_def)
  obtain g' x where run: "proxy_upstream demo_upstream ''GET'' ''/v1/messages'' ''/v1/messages'' [] demo_auth
      (Some (0, 0)) (Inr ''q'') 5 demo_gateway = (g', Local x)"
    by (simp add: proxy_upstream_def upstream_plan_def f is_anthropic_def Let_def)
  show ?thesis using failures_enveloped [OF run] run by (simp add: f)
qed

end
