(* ===== verification/Usage_Tables.thy ===== *)
theory Usage_Tables
  imports Usage_Record Usage_Histogram
begin

text \<open>
  The usage database (\<open>src-tauri/src/commands/usage_store.rs\<close> and the writing half of
  \<open>usage_performance.rs\<close>): the events, the daily summaries and the performance tables that one
  transaction keeps in step, deletion and retention.

  A table with a primary key is an association list; the key of the aggregate tables, the JSON text
  of bucket and labels, is the record of these.  Records and aggregates are stored as such, not as
  JSON text.  A transaction that fails leaves no trace; a failing commit may have been durable.
\<close>

section \<open>Summaries\<close>

definition DETAIL_DAYS :: int where "DETAIL_DAYS = 90"
definition SUMMARY_DAYS :: int where "SUMMARY_DAYS = 365"
definition HOURLY_DAYS :: int where "HOURLY_DAYS = 30"
definition HOUR_MS :: int where "HOUR_MS = 3600000"

record usage_summary =
  sm_requests :: nat
  sm_forwarded :: nat
  sm_success :: nat
  sm_failed :: nat
  sm_rejected :: nat
  sm_cancelled :: nat
  sm_incomplete :: nat
  sm_complete :: nat
  sm_partial :: nat
  sm_unknown :: nat
  sm_not_applicable :: nat
  sm_input :: nat
  sm_output :: nat
  sm_cached :: nat
  sm_cache_input :: nat
  sm_input_known :: nat
  sm_output_known :: nat
  sm_cache_known :: nat
  sm_items :: nat
  sm_duration_ms :: nat
  sm_queue_ms :: nat
  sm_first_output_ms :: nat
  sm_first_output_count :: nat
  sm_last_used :: int

definition summary_default :: usage_summary where
  "summary_default = \<lparr> sm_requests = 0, sm_forwarded = 0, sm_success = 0, sm_failed = 0, sm_rejected = 0, sm_cancelled = 0,
     sm_incomplete = 0, sm_complete = 0, sm_partial = 0, sm_unknown = 0, sm_not_applicable = 0, sm_input = 0, sm_output = 0,
     sm_cached = 0, sm_cache_input = 0, sm_input_known = 0, sm_output_known = 0, sm_cache_known = 0, sm_items = 0,
     sm_duration_ms = 0, sm_queue_ms = 0, sm_first_output_ms = 0, sm_first_output_count = 0, sm_last_used = 0 \<rparr>"

abbreviation plus64 :: "nat \<Rightarrow> nat \<Rightarrow> nat" where
  "plus64 \<equiv> sat_add u64_max"

definition summary_add :: "usage_summary \<Rightarrow> usage_summary \<Rightarrow> usage_summary" where
  "summary_add a b =
     \<lparr> sm_requests = plus64 (sm_requests a) (sm_requests b),
       sm_forwarded = plus64 (sm_forwarded a) (sm_forwarded b),
       sm_success = plus64 (sm_success a) (sm_success b),
       sm_failed = plus64 (sm_failed a) (sm_failed b),
       sm_rejected = plus64 (sm_rejected a) (sm_rejected b),
       sm_cancelled = plus64 (sm_cancelled a) (sm_cancelled b),
       sm_incomplete = plus64 (sm_incomplete a) (sm_incomplete b),
       sm_complete = plus64 (sm_complete a) (sm_complete b),
       sm_partial = plus64 (sm_partial a) (sm_partial b),
       sm_unknown = plus64 (sm_unknown a) (sm_unknown b),
       sm_not_applicable = plus64 (sm_not_applicable a) (sm_not_applicable b),
       sm_input = plus64 (sm_input a) (sm_input b),
       sm_output = plus64 (sm_output a) (sm_output b),
       sm_cached = plus64 (sm_cached a) (sm_cached b),
       sm_cache_input = plus64 (sm_cache_input a) (sm_cache_input b),
       sm_input_known = plus64 (sm_input_known a) (sm_input_known b),
       sm_output_known = plus64 (sm_output_known a) (sm_output_known b),
       sm_cache_known = plus64 (sm_cache_known a) (sm_cache_known b),
       sm_items = plus64 (sm_items a) (sm_items b),
       sm_duration_ms = plus64 (sm_duration_ms a) (sm_duration_ms b),
       sm_queue_ms = plus64 (sm_queue_ms a) (sm_queue_ms b),
       sm_first_output_ms = plus64 (sm_first_output_ms a) (sm_first_output_ms b),
       sm_first_output_count = plus64 (sm_first_output_count a) (sm_first_output_count b),
       sm_last_used = max (sm_last_used a) (sm_last_used b) \<rparr>"

definition one_if :: "bool \<Rightarrow> nat" where
  "one_if b = (if b then 1 else 0)"

definition or_default :: "nat option \<Rightarrow> nat" where
  "or_default x = (case x of None \<Rightarrow> 0 | Some n \<Rightarrow> n)"

definition summary_record :: "usage_record \<Rightarrow> usage_summary" where
  "summary_record r =
     (let paired = (case (tk_cached (ud_tokens r), tk_input (ud_tokens r)) of
                      (Some c, Some i) \<Rightarrow> Some (c, i) | _ \<Rightarrow> None)
      in \<lparr> sm_requests = 1, sm_forwarded = one_if (ud_forwarded r), sm_success = one_if (ud_outcome r = ''success''),
           sm_failed = one_if (ud_outcome r = ''failed''), sm_rejected = one_if (ud_outcome r = ''rejected''),
           sm_cancelled = one_if (ud_outcome r = ''cancelled''), sm_incomplete = one_if (ud_outcome r = ''incomplete''),
           sm_complete = one_if (ud_quality r = ''complete''), sm_partial = one_if (ud_quality r = ''partial''),
           sm_unknown = one_if (ud_quality r = ''unknown''), sm_not_applicable = one_if (ud_quality r = ''not_applicable''),
           sm_input = or_default (tk_input (ud_tokens r)), sm_output = or_default (tk_output (ud_tokens r)),
           sm_cached = or_default (map_option fst paired), sm_cache_input = or_default (map_option snd paired),
           sm_input_known = one_if (tk_input (ud_tokens r) \<noteq> None), sm_output_known = one_if (tk_output (ud_tokens r) \<noteq> None),
           sm_cache_known = one_if (paired \<noteq> None), sm_items = or_default (ud_items r), sm_duration_ms = ud_duration_ms r,
           sm_queue_ms = ud_queue_ms r, sm_first_output_ms = or_default (ud_first_output_ms r),
           sm_first_output_count = one_if (ud_first_output_ms r \<noteq> None), sm_last_used = ud_completed_at r \<rparr>)"

section \<open>Performance aggregates\<close>

record aggregate =
  ag_requests :: nat
  ag_success :: nat
  ag_first_record_at :: int
  ag_last_record_at :: int
  ag_duration :: histogram
  ag_queue :: histogram
  ag_first_output :: histogram

definition aggregate_default :: aggregate where
  "aggregate_default = \<lparr> ag_requests = 0, ag_success = 0, ag_first_record_at = 0, ag_last_record_at = 0,
     ag_duration = histogram_default, ag_queue = histogram_default, ag_first_output = histogram_default \<rparr>"

definition aggregate_record :: "usage_record \<Rightarrow> aggregate" where
  "aggregate_record r =
     (let ok = (ud_forwarded r \<and> ud_outcome r = ''success'');
          a0 = aggregate_default\<lparr> ag_requests := 1, ag_success := one_if ok, ag_first_record_at := ud_completed_at r,
                 ag_last_record_at := ud_completed_at r \<rparr>;
          a1 = (if ud_queue_entered r then a0\<lparr> ag_queue := observe (ud_queue_ms r) (ag_queue a0) \<rparr> else a0)
      in if ok
         then (let a2 = a1\<lparr> ag_duration := observe (ud_duration_ms r) (ag_duration a1) \<rparr>
               in case ud_first_output_ms r of
                    None \<Rightarrow> a2
                  | Some ms \<Rightarrow> a2\<lparr> ag_first_output := observe ms (ag_first_output a2) \<rparr>)
         else a1)"

definition aggregate_merge :: "aggregate \<Rightarrow> aggregate \<Rightarrow> aggregate" where
  "aggregate_merge a b =
     \<lparr> ag_requests = plus64 (ag_requests a) (ag_requests b),
       ag_success = plus64 (ag_success a) (ag_success b),
       ag_first_record_at =
         (if ag_first_record_at a = 0 \<or> (0 < ag_first_record_at b \<and> ag_first_record_at b < ag_first_record_at a)
          then ag_first_record_at b else ag_first_record_at a),
       ag_last_record_at = max (ag_last_record_at a) (ag_last_record_at b),
       ag_duration = merge (ag_duration b) (ag_duration a),
       ag_queue = merge (ag_queue b) (ag_queue a),
       ag_first_output = merge (ag_first_output b) (ag_first_output a) \<rparr>"

section \<open>Tables\<close>

record usage_cell =
  ce_bucket :: int
  ce_key_id :: string
  ce_model :: string
  ce_instance_id :: string
  ce_endpoint :: string
  ce_kind :: string

record event_row =
  ev_rowid :: nat
  ev_day :: int
  ev_record :: usage_record

record writer_row =
  wt_updated :: int
  wt_dropped :: int
  wt_errors :: int
  wt_last_error :: "string option"

record session_row =
  se_updated :: int
  se_closed :: bool
  se_pending :: nat
  se_last_commit :: "int option"
  se_write_delay :: "int option"

type_synonym 'a cells = "(usage_cell, string \<times> 'a) hmap"

record usage_db =
  db_events :: "event_row list"
  db_daily :: "usage_summary cells"
  db_perf_daily :: "aggregate cells"
  db_perf_hourly :: "aggregate cells"
  db_deletions :: "(int \<times> int \<times> int) list"
  db_writers :: "(string, writer_row) hmap"
  db_sessions :: "(string, session_row) hmap"

definition usage_db_empty :: usage_db where
  "usage_db_empty = \<lparr> db_events = [], db_daily = [], db_perf_daily = [], db_perf_hourly = [], db_deletions = [],
     db_writers = [], db_sessions = [] \<rparr>"

definition bucket_of :: "int \<Rightarrow> usage_record \<Rightarrow> int" where
  "bucket_of width r = ud_completed_at r div width * width"

definition cell_of :: "int \<Rightarrow> usage_record \<Rightarrow> usage_cell" where
  "cell_of width r = \<lparr> ce_bucket = bucket_of width r, ce_key_id = ud_key_id r, ce_model = ud_model r,
     ce_instance_id = ud_instance_id r, ce_endpoint = ud_endpoint r, ce_kind = ud_kind r \<rparr>"

text \<open>
  One row of an aggregate table: the stored value (or the default) is read, the record is added,
  and the row is written back; the name of the key is that of the latest record.
\<close>

definition add_to_cell :: "('a \<Rightarrow> 'a \<Rightarrow> 'a) \<Rightarrow> 'a \<Rightarrow> ('a \<Rightarrow> int) \<Rightarrow> int \<Rightarrow> 'a \<Rightarrow> usage_record \<Rightarrow> 'a cells \<Rightarrow> 'a cells" where
  "add_to_cell add zero newest width update r table =
     (let cell = cell_of width r;
          previous = (case hm_get table cell of None \<Rightarrow> zero | Some (_, v) \<Rightarrow> v);
          latest_name = (newest previous \<le> ud_completed_at r);
          value = add previous update
      in case hm_get table cell of
           None \<Rightarrow> hm_insert cell (ud_key_name r, value) table
         | Some (name, _) \<Rightarrow> hm_insert cell (if latest_name then ud_key_name r else name, value) table)"

definition performance_record :: "usage_record \<Rightarrow> usage_db \<Rightarrow> usage_db" where
  "performance_record r db =
     (if ud_kind r = ''count'' then db
      else (let update = aggregate_record r; into = add_to_cell aggregate_merge aggregate_default ag_last_record_at
            in db\<lparr> db_perf_daily := into DAY_MS update r (db_perf_daily db),
                   db_perf_hourly := into HOUR_MS update r (db_perf_hourly db) \<rparr>))"

section \<open>Writing\<close>

datatype usage_table = Daily | PerfDaily | PerfHourly

datatype usage_call = ReadDeletions | InsertEvent | ReadCell usage_table | WriteCell usage_table

type_synonym usage_faults = "usage_call \<Rightarrow> string option"

text \<open>The first failing call of a sequence.\<close>

definition first_fault :: "usage_faults \<Rightarrow> usage_call list \<Rightarrow> string option" where
  "first_fault faults calls = (case List.map_filter faults calls of [] \<Rightarrow> None | e # _ \<Rightarrow> Some e)"

definition cell_calls :: "usage_record \<Rightarrow> usage_call list" where
  "cell_calls r = [ReadCell Daily, WriteCell Daily]
     @ (if ud_kind r = ''count'' then [] else [ReadCell PerfDaily, WriteCell PerfDaily, ReadCell PerfHourly, WriteCell PerfHourly])"

definition is_deleted :: "usage_db \<Rightarrow> usage_record \<Rightarrow> bool" where
  "is_deleted db r \<longleftrightarrow>
     list_ex (\<lambda>(from_day, to_day, cleared_at). from_day \<le> bucket_of DAY_MS r \<and> bucket_of DAY_MS r < to_day
                \<and> ud_completed_at r \<le> cleared_at) (db_deletions db)"

definition has_event :: "usage_db \<Rightarrow> string \<Rightarrow> bool" where
  "has_event db i \<longleftrightarrow> list_ex (\<lambda>e. ud_request_id (ev_record e) = i) (db_events db)"

text \<open>SQLite gives a new row the row id after the largest one.\<close>

definition next_rowid :: "usage_db \<Rightarrow> nat" where
  "next_rowid db = Suc (fold max (map ev_rowid (db_events db)) 0)"

definition insert_event :: "usage_record \<Rightarrow> usage_db \<Rightarrow> usage_db" where
  "insert_event r db = db\<lparr> db_events := db_events db
     @ [\<lparr> ev_rowid = next_rowid db, ev_day = bucket_of DAY_MS r, ev_record = r \<rparr>] \<rparr>"

definition daily_record :: "usage_record \<Rightarrow> usage_db \<Rightarrow> usage_db" where
  "daily_record r db =
     db\<lparr> db_daily := add_to_cell summary_add summary_default sm_last_used DAY_MS (summary_record r) r (db_daily db) \<rparr>"

definition usage_insert :: "usage_faults \<Rightarrow> usage_record \<Rightarrow> usage_db \<Rightarrow> string + usage_db" where
  "usage_insert faults r db =
     (case faults ReadDeletions of
        Some e \<Rightarrow> Inl e
      | None \<Rightarrow>
          if is_deleted db r then Inr db
          else case faults InsertEvent of
            Some e \<Rightarrow> Inl e
          | None \<Rightarrow>
              if has_event db (ud_request_id r) then Inr db
              else case first_fault faults (cell_calls r) of
                Some e \<Rightarrow> Inl e
              | None \<Rightarrow> Inr (performance_record r (daily_record r (insert_event r db))))"

text \<open>How a commit ends; an error does not tell whether the changes are durable.\<close>

datatype commit_outcome = Committed | NotCommitted string | Uncertain string

fun transaction :: "string option \<Rightarrow> commit_outcome \<Rightarrow> (usage_db \<Rightarrow> string + usage_db) \<Rightarrow> usage_db \<Rightarrow> usage_db \<times> (string + unit)" where
  "transaction (Some e) commit body db = (db, Inl e)"
| "transaction None commit body db =
     (case body db of
        Inl e \<Rightarrow> (db, Inl e)
      | Inr db' \<Rightarrow>
          (case commit of
             Committed \<Rightarrow> (db', Inr ())
           | NotCommitted e \<Rightarrow> (db, Inl e)
           | Uncertain e \<Rightarrow> (db', Inl e)))"

record batch_env =
  be_begin :: "string option"
  be_insert :: "nat \<Rightarrow> usage_faults"
  be_commit :: commit_outcome

fun insert_batch :: "(nat \<Rightarrow> usage_faults) \<Rightarrow> nat \<Rightarrow> usage_record list \<Rightarrow> usage_db \<Rightarrow> string + usage_db" where
  "insert_batch faults i [] db = Inr db"
| "insert_batch faults i (r # rs) db =
     (case usage_insert (faults i) r db of Inl e \<Rightarrow> Inl e | Inr db' \<Rightarrow> insert_batch faults (Suc i) rs db')"

definition write_batch :: "batch_env \<Rightarrow> usage_record list \<Rightarrow> usage_db \<Rightarrow> usage_db \<times> (string + unit)" where
  "write_batch be rs db = transaction (be_begin be) (be_commit be) (insert_batch (be_insert be) 0 rs) db"

section \<open>Retention and deletion\<close>

definition delete_cells :: "(int \<Rightarrow> bool) \<Rightarrow> 'a cells \<Rightarrow> 'a cells" where
  "delete_cells gone table = filter (\<lambda>(cell, _). \<not> gone (ce_bucket cell)) table"

definition performance_clear :: "int \<Rightarrow> int \<Rightarrow> usage_db \<Rightarrow> usage_db" where
  "performance_clear from_day to_day db =
     (let gone = (\<lambda>b. from_day \<le> b \<and> b < to_day)
      in db\<lparr> db_perf_daily := delete_cells gone (db_perf_daily db), db_perf_hourly := delete_cells gone (db_perf_hourly db) \<rparr>)"

definition performance_prune :: "int \<Rightarrow> usage_db \<Rightarrow> usage_db" where
  "performance_prune day db =
     db\<lparr> db_perf_daily := delete_cells (\<lambda>b. b < day - 365 * DAY_MS) (db_perf_daily db),
         db_perf_hourly := delete_cells (\<lambda>b. b < day - HOURLY_DAYS * DAY_MS) (db_perf_hourly db) \<rparr>"

definition usage_prune :: "string option \<Rightarrow> commit_outcome \<Rightarrow> int \<Rightarrow> usage_db \<Rightarrow> usage_db \<times> (string + unit)" where
  "usage_prune begin_error commit now db =
     (let day = now div DAY_MS * DAY_MS
      in transaction begin_error commit (\<lambda>db. Inr (performance_prune day (db\<lparr>
           db_events := filter (\<lambda>e. \<not> ev_day e < day - DETAIL_DAYS * DAY_MS) (db_events db),
           db_daily := delete_cells (\<lambda>b. b < day - SUMMARY_DAYS * DAY_MS) (db_daily db) \<rparr>))) db)"

record usage_query =
  uq_from :: int
  uq_to :: int
  uq_key_id :: "string option"
  uq_model :: "string option"
  uq_instance_id :: "string option"
  uq_endpoint :: "string option"
  uq_kind :: "string option"

datatype usage_error = InvalidRange | FilterTooLong | TooManyRows | TooManyGroups | InvalidCursor | StorageError string

definition validate_range :: "bool \<Rightarrow> usage_query \<Rightarrow> usage_error option" where
  "validate_range aligned q =
     (if uq_from q < 0 \<or> uq_to q \<le> uq_from q \<or> SUMMARY_DAYS * DAY_MS < uq_to q - uq_from q
         \<or> (aligned \<and> (uq_from q mod DAY_MS \<noteq> 0 \<or> uq_to q mod DAY_MS \<noteq> 0))
      then Some InvalidRange
      else if list_ex (\<lambda>s. 1024 < length s)
                (List.map_filter id [uq_key_id q, uq_model q, uq_instance_id q, uq_endpoint q, uq_kind q])
      then Some FilterTooLong
      else None)"

definition clear_router_usage ::
  "string option \<Rightarrow> commit_outcome \<Rightarrow> int \<Rightarrow> int \<Rightarrow> int \<Rightarrow> usage_db \<Rightarrow> usage_db \<times> (usage_error + unit)" where
  "clear_router_usage begin_error commit now from_day to_day db =
     (case validate_range True \<lparr> uq_from = from_day, uq_to = to_day, uq_key_id = None, uq_model = None, uq_instance_id = None,
             uq_endpoint = None, uq_kind = None \<rparr> of
        Some e \<Rightarrow> (db, Inl e)
      | None \<Rightarrow>
          (let gone = (\<lambda>b. from_day \<le> b \<and> b < to_day)
           in case transaction begin_error commit (\<lambda>db. Inr (performance_clear from_day to_day (db\<lparr>
                     db_deletions := db_deletions db @ [(from_day, to_day, now)],
                     db_events := filter (\<lambda>e. \<not> gone (ev_day e)) (db_events db),
                     db_daily := delete_cells gone (db_daily db) \<rparr>))) db of
                (db', Inl e) \<Rightarrow> (db', Inl (StorageError e))
              | (db', Inr u) \<Rightarrow> (db', Inr u)))"


section \<open>Sums of rows\<close>

lemma plus64_assoc: "plus64 (plus64 a b) c = plus64 a (plus64 b c)"
  by (simp add: sat_add_def)

lemma plus64_commute: "plus64 a b = plus64 b a"
  by (simp add: sat_add_def add.commute)

interpretation summaries: accumulation summary_add summary_default "\<lambda>_. True"
proof (unfold_locales, goal_cases)
  case (1 a b c)
  show ?case by (simp add: summary_add_def plus64_assoc max.assoc)
next
  case (2 a b)
  show ?case by (simp add: summary_add_def plus64_commute max.commute)
qed (simp_all add: summary_add_def summary_default_def sat_add_def)

definition aggregate_ok :: "aggregate \<Rightarrow> bool" where
  "aggregate_ok a \<longleftrightarrow> histogram_ok (ag_duration a) \<and> histogram_ok (ag_queue a) \<and> histogram_ok (ag_first_output a)
     \<and> 0 \<le> ag_first_record_at a"

interpretation aggregates: accumulation aggregate_merge aggregate_default aggregate_ok
proof (unfold_locales, goal_cases)
  case (1 a b c)
  then show ?case
    by (auto simp: aggregate_ok_def aggregate_merge_def plus64_assoc max.assoc histograms.add_assoc)
next
  case (2 a b)
  then show ?case
    by (auto simp: aggregate_ok_def aggregate_merge_def plus64_commute max.commute histograms.add_commute)
next
  case 3
  show ?case using histograms.zero_zero by (simp add: aggregate_merge_def aggregate_default_def sat_add_def)
next
  case 4
  show ?case using histograms.ok_zero by (simp add: aggregate_ok_def aggregate_default_def)
next
  case (5 a b)
  then show ?case by (simp add: aggregate_ok_def aggregate_merge_def histograms.ok_add)
qed

lemma aggregate_record_ok: "0 \<le> ud_completed_at r \<Longrightarrow> aggregate_ok (aggregate_record r)"
  using histograms.ok_zero
  by (auto simp: aggregate_ok_def aggregate_record_def aggregate_default_def Let_def observe_ok split: option.splits)

section \<open>Aggregate tables follow the events\<close>

text \<open>The records of a cell, and what a table says about them from bucket \<open>low\<close> on.\<close>

definition cell_records :: "(usage_record \<Rightarrow> bool) \<Rightarrow> int \<Rightarrow> usage_cell \<Rightarrow> usage_record list \<Rightarrow> usage_record list" where
  "cell_records sel width cell rs = filter (\<lambda>r. sel r \<and> cell_of width r = cell) rs"

definition cells_match ::
  "('a \<Rightarrow> 'a \<Rightarrow> 'a) \<Rightarrow> 'a \<Rightarrow> (usage_record \<Rightarrow> 'a) \<Rightarrow> (usage_record \<Rightarrow> bool) \<Rightarrow> int \<Rightarrow> int \<Rightarrow> 'a cells \<Rightarrow> usage_record list \<Rightarrow> bool" where
  "cells_match add zero value sel width low table rs \<longleftrightarrow> hm_ok table \<and>
     (\<forall>cell. low \<le> ce_bucket cell \<longrightarrow> map_option snd (hm_get table cell) =
        (case cell_records sel width cell rs of [] \<Rightarrow> None | rs' \<Rightarrow> Some (accumulate add zero (map value rs'))))"

lemma cell_of_bucket [simp]: "ce_bucket (cell_of width r) = bucket_of width r"
  by (simp add: cell_of_def)

lemma add_to_cell_get:
  "map_option snd (hm_get (add_to_cell add zero newest width v r table) cell) =
     (if cell = cell_of width r
      then Some (add (case hm_get table cell of None \<Rightarrow> zero | Some (_, w) \<Rightarrow> w) v) else map_option snd (hm_get table cell))"
  by (auto simp: add_to_cell_def Let_def split: option.splits)

lemma add_to_cell_ok: "hm_ok table \<Longrightarrow> hm_ok (add_to_cell add zero newest width v r table)"
  by (auto simp: add_to_cell_def Let_def split: option.splits)

lemma case_snoc: "(case xs @ [x] of [] \<Rightarrow> a | y # ys \<Rightarrow> f (y # ys)) = f (xs @ [x])"
  by (cases xs) simp_all

lemma cells_match_add:
  assumes "cells_match add zero value sel width low table rs" "sel r"
  shows "cells_match add zero value sel width low (add_to_cell add zero newest width (value r) r table) (rs @ [r])"
  unfolding cells_match_def
proof (intro conjI allI impI)
  show "hm_ok (add_to_cell add zero newest width (value r) r table)"
    using assms(1) by (simp add: cells_match_def add_to_cell_ok)
  fix cell :: usage_cell assume cell: "low \<le> ce_bucket cell"
  let ?rs = "cell_records sel width cell rs"
  have old: "map_option snd (hm_get table cell) = (case ?rs of [] \<Rightarrow> None | rs' \<Rightarrow> Some (accumulate add zero (map value rs')))"
    using assms(1) cell by (simp add: cells_match_def)
  have new: "cell_records sel width cell (rs @ [r]) = ?rs @ (if cell = cell_of width r then [r] else [])"
    using assms(2) by (auto simp: cell_records_def)
  show "map_option snd (hm_get (add_to_cell add zero newest width (value r) r table) cell)
    = (case cell_records sel width cell (rs @ [r]) of [] \<Rightarrow> None | rs' \<Rightarrow> Some (accumulate add zero (map value rs')))"
  proof (cases "cell = cell_of width r")
    case False
    then show ?thesis using old by (simp add: add_to_cell_get new)
  next
    case True
    have "(case hm_get table cell of None \<Rightarrow> zero | Some (_, w) \<Rightarrow> w) = accumulate add zero (map value ?rs)"
      using old by (auto split: option.splits list.splits)
    then have "map_option snd (hm_get (add_to_cell add zero newest width (value r) r table) cell)
      = Some (accumulate add zero (map value (?rs @ [r])))" using True by (simp add: add_to_cell_get)
    moreover have "cell_records sel width cell (rs @ [r]) = ?rs @ [r]" unfolding new using True by simp
    ultimately show ?thesis by (simp only: case_snoc [where f = "\<lambda>rs'. Some (accumulate add zero (map value rs'))"])
  qed
qed

lemma cells_match_skip:
  "cells_match add zero value sel width low table rs \<Longrightarrow> \<not> sel r \<Longrightarrow> cells_match add zero value sel width low table (rs @ [r])"
  by (simp add: cells_match_def cell_records_def)

lemma delete_cells_get: "hm_get (delete_cells gone table) cell = (if gone (ce_bucket cell) then None else hm_get table cell)"
  by (induction table) (auto simp: delete_cells_def)

lemma delete_cells_ok: "hm_ok table \<Longrightarrow> hm_ok (delete_cells gone table)"
  unfolding delete_cells_def by (induction table) auto

text \<open>Deleting the rows and the events of some buckets; retention may delete more events below the new \<open>low\<close>.\<close>

lemma cells_match_delete:
  assumes "cells_match add zero value sel width low table rs" "low \<le> low'"
    and "\<And>r. r \<in> set rs \<Longrightarrow> low' \<le> bucket_of width r \<Longrightarrow> keep r \<longleftrightarrow> \<not> gone (bucket_of width r)"
  shows "cells_match add zero value sel width low' (delete_cells gone table) (filter keep rs)"
  unfolding cells_match_def
proof (intro conjI allI impI)
  show "hm_ok (delete_cells gone table)" using assms(1) by (simp add: cells_match_def delete_cells_ok)
  fix cell :: usage_cell assume cell: "low' \<le> ce_bucket cell"
  have "cell_records sel width cell (filter keep rs) = (if gone (ce_bucket cell) then [] else cell_records sel width cell rs)"
    using assms(3) cell by (auto simp: cell_records_def filter_empty_conv intro!: filter_cong)
  then show "map_option snd (hm_get (delete_cells gone table) cell)
    = (case cell_records sel width cell (filter keep rs) of [] \<Rightarrow> None | rs' \<Rightarrow> Some (accumulate add zero (map value rs')))"
    using assms(1,2) cell by (simp add: cells_match_def delete_cells_get)
qed

section \<open>Buckets\<close>

lemma bucket_ge_iff:
  assumes "0 < width" "a mod width = 0"
  shows "a \<le> bucket_of width r \<longleftrightarrow> a \<le> ud_completed_at r"
proof -
  let ?c = "ud_completed_at r"
  obtain k where a: "a = k * width" using assms(2) by (metis mod_0_imp_dvd dvdE mult.commute)
  have "?c div width * width \<le> ?c" "?c < ?c div width * width + width"
    using div_mult_mod_eq [of ?c width] pos_mod_bound [OF assms(1), of ?c] pos_mod_sign [OF assms(1), of ?c] by linarith+
  moreover have "k * width \<le> ?c div width * width" if "k \<le> ?c div width"
    using that assms(1) by (simp add: mult_right_mono)
  moreover have "?c div width * width + width \<le> k * width" if "\<not> k \<le> ?c div width"
    using that assms(1) mult_right_mono [of "?c div width + 1" k width] by (simp add: distrib_right)
  ultimately have "k \<le> ?c div width \<longleftrightarrow> k * width \<le> ?c" by linarith
  then show ?thesis using assms(1) by (simp add: bucket_of_def a)
qed


text \<open>Days consist of whole hours.\<close>

lemma day_hour: "a mod DAY_MS = 0 \<Longrightarrow> a mod HOUR_MS = 0"
  using mod_mod_cancel [of HOUR_MS DAY_MS a] by (simp add: DAY_MS_def HOUR_MS_def)

lemma day_positive: "0 < DAY_MS" "0 < HOUR_MS"
  by (simp_all add: DAY_MS_def HOUR_MS_def)

lemma day_bucket_aligned: "bucket_of DAY_MS r mod DAY_MS = 0" "now div DAY_MS * DAY_MS mod DAY_MS = 0"
  by (simp_all add: bucket_of_def)

lemma day_hour_bucket: "a mod DAY_MS = 0 \<Longrightarrow> a \<le> bucket_of HOUR_MS r \<longleftrightarrow> a \<le> bucket_of DAY_MS r"
  by (simp add: bucket_ge_iff day_hour day_positive)

section \<open>Inserting\<close>

definition absorbed :: "usage_db \<Rightarrow> usage_record \<Rightarrow> bool" where
  "absorbed db r \<longleftrightarrow> is_deleted db r \<or> has_event db (ud_request_id r)"

text \<open>What inserting does when no call fails.\<close>

definition apply_insert :: "usage_record \<Rightarrow> usage_db \<Rightarrow> usage_db" where
  "apply_insert r db = (if absorbed db r then db else performance_record r (daily_record r (insert_event r db)))"

lemma usage_insert_Inr: "usage_insert faults r db = Inr db' \<Longrightarrow> db' = apply_insert r db"
  by (auto simp: usage_insert_def apply_insert_def absorbed_def split: option.splits if_splits)

lemma usage_insert_ok: "usage_insert (\<lambda>_. None) r db = Inr (apply_insert r db)"
  by (simp add: usage_insert_def apply_insert_def absorbed_def first_fault_def map_filter_def)

lemma insert_batch_Inr: "insert_batch faults i rs db = Inr db' \<Longrightarrow> db' = fold apply_insert rs db"
  by (induction rs arbitrary: i db) (auto dest: usage_insert_Inr split: sum.splits)

lemma insert_batch_ok: "insert_batch (\<lambda>_ _. None) i rs db = Inr (fold apply_insert rs db)"
  by (induction rs arbitrary: i db) (simp_all add: usage_insert_ok)

lemma record_events [simp]:
  "db_events (daily_record r db) = db_events db" "db_deletions (daily_record r db) = db_deletions db"
  "db_events (performance_record r db) = db_events db" "db_deletions (performance_record r db) = db_deletions db"
  "db_deletions (insert_event r db) = db_deletions db"
  by (simp_all add: daily_record_def performance_record_def insert_event_def Let_def)

lemma insert_events:
  "\<not> absorbed db r \<Longrightarrow> db_events (apply_insert r db)
     = db_events db @ [\<lparr> ev_rowid = next_rowid db, ev_day = bucket_of DAY_MS r, ev_record = r \<rparr>]"
  "db_deletions (apply_insert r db) = db_deletions db"
  by (simp_all add: apply_insert_def insert_event_def [of r db])

lemma absorbed_insert: "absorbed (apply_insert r db) r" "absorbed db r' \<Longrightarrow> absorbed (apply_insert r db) r'"
  by (cases "absorbed db r", simp add: apply_insert_def, simp add: absorbed_def insert_events has_event_def)
    (cases "absorbed db r", simp add: apply_insert_def,
      auto simp: absorbed_def insert_events has_event_def is_deleted_def)

lemma absorbed_batch: "r \<in> set rs \<or> absorbed db r \<Longrightarrow> absorbed (fold apply_insert rs db) r"
  by (induction rs arbitrary: db) (auto simp: absorbed_insert)

lemma batch_absorbed: "\<forall>r \<in> set rs. absorbed db r \<Longrightarrow> fold apply_insert rs db = db"
  by (induction rs) (simp_all add: apply_insert_def)

lemma batch_idempotent: "fold apply_insert rs (fold apply_insert rs db) = fold apply_insert rs db"
  by (rule batch_absorbed) (simp add: absorbed_batch)

lemma transaction_cases:
  assumes "transaction b c body db = (db', res)"
  obtains "db' = db" "\<exists>e. res = Inl e" | "body db = Inr db'" "b = None" "(res = Inr ()) = (c = Committed)"
  using assms by (cases b) (auto split: sum.splits commit_outcome.splits)


section \<open>The invariant of the database\<close>

definition db_records :: "usage_db \<Rightarrow> usage_record list" where
  "db_records db = map ev_record (db_events db)"

abbreviation daily_matches :: "int \<Rightarrow> usage_db \<Rightarrow> bool" where
  "daily_matches low db \<equiv> cells_match summary_add summary_default summary_record (\<lambda>_. True) DAY_MS low (db_daily db) (db_records db)"

abbreviation not_count :: "usage_record \<Rightarrow> bool" where
  "not_count r \<equiv> ud_kind r \<noteq> ''count''"

abbreviation perf_matches :: "int \<Rightarrow> int \<Rightarrow> aggregate cells \<Rightarrow> usage_db \<Rightarrow> bool" where
  "perf_matches width low table db \<equiv>
     cells_match aggregate_merge aggregate_default aggregate_record not_count width low table (db_records db)"

definition events_ok :: "usage_db \<Rightarrow> bool" where
  "events_ok db \<longleftrightarrow> sorted_wrt (<) (map ev_rowid (db_events db)) \<and> distinct (map ud_request_id (db_records db))
     \<and> (\<forall>e \<in> set (db_events db). ev_day e = bucket_of DAY_MS (ev_record e) \<and> 0 < ev_rowid e \<and> \<not> is_deleted db (ev_record e))"

text \<open>
  \<open>low\<close> and \<open>low_hour\<close> are the days before which retention may have deleted events and
  hourly rows.
\<close>

definition db_inv :: "int \<times> int \<times> usage_db \<Rightarrow> bool" where
  "db_inv s = (case s of (low, low_hour, db) \<Rightarrow>
     low mod DAY_MS = 0 \<and> low_hour mod DAY_MS = 0 \<and> low \<le> low_hour \<and> events_ok db
     \<and> daily_matches low db \<and> perf_matches DAY_MS low (db_perf_daily db) db
     \<and> perf_matches HOUR_MS low_hour (db_perf_hourly db) db)"

lemma rowid_fresh: "e \<in> set (db_events db) \<Longrightarrow> ev_rowid e < next_rowid db"
proof -
  have "x \<le> fold max xs a" if "x \<in> set xs \<or> x \<le> a" for x a :: nat and xs
    using that
  proof (induction xs arbitrary: a)
    case (Cons y xs)
    show ?case using Cons.prems by (auto intro!: Cons.IH)
  qed simp
  then show "e \<in> set (db_events db) \<Longrightarrow> ?thesis" by (simp add: next_rowid_def less_Suc_eq_le)
qed

lemma insert_inv:
  assumes "db_inv (low, low_hour, db)"
  shows "db_inv (low, low_hour, apply_insert r db)"
proof (cases "absorbed db r")
  case True
  then show ?thesis using assms by (simp add: apply_insert_def)
next
  case False
  let ?db = "apply_insert r db"
  have rs: "db_records ?db = db_records db @ [r]" using False by (simp add: db_records_def insert_events)
  have "daily_matches low ?db"
    using assms False rs cells_match_add [of summary_add summary_default summary_record "\<lambda>_. True" DAY_MS low "db_daily db"]
    by (simp add: db_inv_def apply_insert_def daily_record_def performance_record_def insert_event_def Let_def)
  moreover have "perf_matches DAY_MS low (db_perf_daily ?db) ?db" "perf_matches HOUR_MS low_hour (db_perf_hourly ?db) ?db"
    using assms False rs
    by (auto simp: db_inv_def apply_insert_def daily_record_def performance_record_def insert_event_def Let_def
      intro: cells_match_skip cells_match_add)
  moreover have "events_ok ?db"
    using assms False rowid_fresh
    by (auto simp: db_inv_def events_ok_def insert_events rs sorted_wrt_append is_deleted_def absorbed_def has_event_def
      db_records_def list_ex_iff next_rowid_def)
  ultimately show ?thesis using assms by (simp add: db_inv_def)
qed

lemma batch_inv: "db_inv (low, low_hour, db) \<Longrightarrow> db_inv (low, low_hour, fold apply_insert rs db)"
  by (induction rs arbitrary: db) (simp_all add: insert_inv)


lemma records_filter: "db_records (db\<lparr> db_events := filter P (db_events db) \<rparr>) = map ev_record (filter P (db_events db))"
  by (simp add: db_records_def)

text \<open>Deleting the events of some days is deleting their records.\<close>

lemma filter_days:
  assumes "\<forall>e \<in> set es. ev_day e = bucket_of DAY_MS (ev_record e)"
  shows "map ev_record (filter (\<lambda>e. \<not> gone (ev_day e)) es) = filter (\<lambda>r. \<not> gone (bucket_of DAY_MS r)) (map ev_record es)"
  using assms by (induction es) auto

lemma events_ok_filter:
  assumes "events_ok db" "\<And>e. e \<in> set (db_events db) \<Longrightarrow> P e \<Longrightarrow> \<not> is_deleted db' (ev_record e)"
    "db_events db' = filter P (db_events db)"
  shows "events_ok db'"
proof -
  have "distinct (map f (filter P xs))" if "distinct (map f xs)" for f :: "event_row \<Rightarrow> string" and xs
    using that by (induction xs) auto
  moreover have "sorted_wrt (<) (map f (filter P xs))" if "sorted_wrt (<) (map f xs)" for f :: "event_row \<Rightarrow> nat" and xs
    using that by (induction xs) auto
  ultimately show ?thesis using assms by (auto simp: events_ok_def db_records_def)
qed

lemma clear_inv:
  assumes "db_inv (low, low_hour, db)" "validate_range True q = None" "uq_from q = from_day" "uq_to q = to_day"
    "gone = (\<lambda>b. from_day \<le> b \<and> b < to_day)"
  shows "db_inv (low, low_hour, db\<lparr> db_deletions := db_deletions db @ [(from_day, to_day, now)],
     db_events := filter (\<lambda>e. \<not> gone (ev_day e)) (db_events db), db_daily := delete_cells gone (db_daily db),
     db_perf_daily := delete_cells gone (db_perf_daily db), db_perf_hourly := delete_cells gone (db_perf_hourly db) \<rparr>)"
    (is "db_inv (_, _, ?db)")
proof -
  note inv = assms(1) [unfolded db_inv_def, simplified]
  have days: "\<forall>e \<in> set (db_events db). ev_day e = bucket_of DAY_MS (ev_record e)" using inv by (simp add: events_ok_def)
  have rs: "db_records ?db = filter (\<lambda>r. \<not> gone (bucket_of DAY_MS r)) (db_records db)"
    using filter_days [OF days, of gone] by (simp add: db_records_def)
  have aligned: "from_day mod DAY_MS = 0" "to_day mod DAY_MS = 0"
    using assms(2-4) by (simp_all add: validate_range_def split: if_splits)
  have hours: "gone (bucket_of DAY_MS r) = gone (bucket_of HOUR_MS r)" for r
    using day_hour_bucket [OF aligned(1), of r] day_hour_bucket [OF aligned(2), of r] unfolding assms(5) by linarith
  have "daily_matches low ?db"
    unfolding rs using inv by (auto intro!: cells_match_delete)
  moreover have "perf_matches DAY_MS low (db_perf_daily ?db) ?db"
    unfolding rs using inv by (auto intro!: cells_match_delete)
  moreover have "perf_matches HOUR_MS low_hour (db_perf_hourly ?db) ?db"
    unfolding rs hours using inv by (auto intro!: cells_match_delete)
  moreover have "events_ok ?db"
  proof (rule events_ok_filter [of db "\<lambda>e. \<not> gone (ev_day e)"])
    show "events_ok db" using inv by simp
    fix e assume "e \<in> set (db_events db)" "\<not> gone (ev_day e)"
    then show "\<not> is_deleted ?db (ev_record e)"
      using inv days by (auto simp: events_ok_def is_deleted_def assms(5))
  qed simp
  ultimately show ?thesis using inv by (simp add: db_inv_def)
qed

lemma raise_inv:
  "db_inv (low, low_hour, db) \<Longrightarrow> low \<le> low' \<Longrightarrow> low_hour \<le> low_hour' \<Longrightarrow> low' mod DAY_MS = 0 \<Longrightarrow> low_hour' mod DAY_MS = 0 \<Longrightarrow>
    low' \<le> low_hour' \<Longrightarrow> db_inv (low', low_hour', db)"
  by (auto simp: db_inv_def cells_match_def)

lemma prune_days:
  assumes "db_inv (low, low_hour, db)" "day = now div DAY_MS * DAY_MS"
  shows "max low (day - DETAIL_DAYS * DAY_MS) mod DAY_MS = 0" "max low_hour (day - HOURLY_DAYS * DAY_MS) mod DAY_MS = 0"
    "max low (day - DETAIL_DAYS * DAY_MS) \<le> max low_hour (day - HOURLY_DAYS * DAY_MS)"
proof -
  have "(day - k * DAY_MS) mod DAY_MS = 0" for k using day_bucket_aligned(2) [of now] by (simp add: assms(2) mod_diff_eq [symmetric])
  moreover have "day - DETAIL_DAYS * DAY_MS \<le> day - HOURLY_DAYS * DAY_MS"
    by (simp add: DETAIL_DAYS_def HOURLY_DAYS_def DAY_MS_def)
  ultimately show "max low (day - DETAIL_DAYS * DAY_MS) mod DAY_MS = 0"
    "max low_hour (day - HOURLY_DAYS * DAY_MS) mod DAY_MS = 0"
    "max low (day - DETAIL_DAYS * DAY_MS) \<le> max low_hour (day - HOURLY_DAYS * DAY_MS)"
    using assms(1) by (auto simp: db_inv_def max_def)
qed

lemma prune_inv:
  assumes "db_inv (low, low_hour, db)" "day = now div DAY_MS * DAY_MS"
  shows "db_inv (max low (day - DETAIL_DAYS * DAY_MS), max low_hour (day - HOURLY_DAYS * DAY_MS), db\<lparr>
     db_events := filter (\<lambda>e. \<not> ev_day e < day - DETAIL_DAYS * DAY_MS) (db_events db),
     db_daily := delete_cells (\<lambda>b. b < day - SUMMARY_DAYS * DAY_MS) (db_daily db),
     db_perf_daily := delete_cells (\<lambda>b. b < day - 365 * DAY_MS) (db_perf_daily db),
     db_perf_hourly := delete_cells (\<lambda>b. b < day - HOURLY_DAYS * DAY_MS) (db_perf_hourly db) \<rparr>)"
    (is "db_inv (?low, ?low_hour, ?db)")
proof -
  note inv = assms(1) [unfolded db_inv_def, simplified]
  have days: "\<forall>e \<in> set (db_events db). ev_day e = bucket_of DAY_MS (ev_record e)" using inv by (simp add: events_ok_def)
  have rs: "db_records ?db = filter (\<lambda>r. \<not> bucket_of DAY_MS r < day - DETAIL_DAYS * DAY_MS) (db_records db)"
    using filter_days [OF days, of "\<lambda>b. b < day - DETAIL_DAYS * DAY_MS"] by (simp add: db_records_def)
  have d: "day - SUMMARY_DAYS * DAY_MS \<le> day - DETAIL_DAYS * DAY_MS" "day - 365 * DAY_MS \<le> day - DETAIL_DAYS * DAY_MS"
    "day - DETAIL_DAYS * DAY_MS \<le> day - HOURLY_DAYS * DAY_MS"
    by (simp_all add: SUMMARY_DAYS_def DETAIL_DAYS_def HOURLY_DAYS_def DAY_MS_def)
  note low = prune_days [OF assms]
  have hour: "?low_hour \<le> bucket_of HOUR_MS r \<longleftrightarrow> ?low_hour \<le> bucket_of DAY_MS r" for r
    by (rule day_hour_bucket [OF low(2)])
  have "daily_matches ?low ?db"
    unfolding rs using inv d by (auto intro!: cells_match_delete)
  moreover have "perf_matches DAY_MS ?low (db_perf_daily ?db) ?db"
    unfolding rs using inv d by (auto intro!: cells_match_delete)
  moreover have "perf_matches HOUR_MS ?low_hour (delete_cells (\<lambda>b. b < day - HOURLY_DAYS * DAY_MS) (db_perf_hourly db)) ?db"
    unfolding rs
  proof (rule cells_match_delete [OF _ max.cobounded1])
    show "perf_matches HOUR_MS low_hour (db_perf_hourly db) db" using inv by simp
    fix r assume "?low_hour \<le> bucket_of HOUR_MS r"
    then show "(\<not> bucket_of DAY_MS r < day - DETAIL_DAYS * DAY_MS) = (\<not> bucket_of HOUR_MS r < day - HOURLY_DAYS * DAY_MS)"
      using hour [of r] d(3) by linarith
  qed
  moreover have "events_ok ?db"
    by (rule events_ok_filter [of db]) (use inv in \<open>auto simp: events_ok_def is_deleted_def\<close>)
  ultimately show ?thesis using low by (simp add: db_inv_def)
qed

section \<open>The life of the database\<close>

inductive db_step :: "int \<times> int \<times> usage_db \<Rightarrow> int \<times> int \<times> usage_db \<Rightarrow> bool" where
  step_write: "db_step (low, low_hour, db) (low, low_hour, fst (write_batch be rs db))"
| step_clear: "db_step (low, low_hour, db) (low, low_hour, fst (clear_router_usage b c now from_day to_day db))"
| step_prune: "db_step (low, low_hour, db)
    (max low (now div DAY_MS * DAY_MS - DETAIL_DAYS * DAY_MS), max low_hour (now div DAY_MS * DAY_MS - HOURLY_DAYS * DAY_MS),
     fst (usage_prune b c now db))"
| step_health: "db_step (low, low_hour, db) (low, low_hour, db\<lparr> db_writers := ws, db_sessions := ss \<rparr>)"

definition db_init :: "int \<times> int \<times> usage_db \<Rightarrow> bool" where
  "db_init s \<longleftrightarrow> s = (0, 0, usage_db_empty)"


lemma db_step_inv: "db_step s t \<Longrightarrow> db_inv s \<Longrightarrow> db_inv t"
proof (induction rule: db_step.induct)
  case (step_write low low_hour db be rs)
  obtain db' res where w: "write_batch be rs db = (db', res)" by fastforce
  then have "transaction (be_begin be) (be_commit be) (insert_batch (be_insert be) 0 rs) db = (db', res)"
    by (simp add: write_batch_def)
  then have "db' = db \<or> db' = fold apply_insert rs db"
    by (cases rule: transaction_cases) (auto dest: insert_batch_Inr)
  then show ?case using step_write w batch_inv by auto
next
  case (step_clear low low_hour db b c now from_day to_day)
  show ?case
  proof (cases "validate_range True \<lparr> uq_from = from_day, uq_to = to_day, uq_key_id = None, uq_model = None, uq_instance_id = None,
             uq_endpoint = None, uq_kind = None \<rparr>")
    case (Some e)
    then show ?thesis using step_clear by (simp add: clear_router_usage_def)
  next
    case None
    show ?thesis
      using step_clear clear_inv [OF step_clear None _ _ refl, of from_day to_day now]
      by (cases b; cases c) (simp_all add: clear_router_usage_def performance_clear_def None Let_def)
  qed
next
  case (step_prune low low_hour db now b c)
  note keep = raise_inv [OF step_prune max.cobounded1 max.cobounded1 prune_days [OF step_prune refl, of now]]
  show ?case
    using keep prune_inv [OF step_prune refl, of now] by (cases b; cases c) (simp_all add: usage_prune_def performance_prune_def Let_def)
next
  case (step_health low low_hour db ws ss)
  then show ?case by (simp add: db_inv_def events_ok_def db_records_def is_deleted_def)
qed

interpretation usage_database: invariant_system db_init db_step db_inv
proof (unfold_locales, goal_cases)
  case (1 s)
  then show ?case
    by (auto simp: db_init_def db_inv_def usage_db_empty_def events_ok_def db_records_def cells_match_def cell_records_def)
next
  case (2 s t)
  then show ?case by (rule db_step_inv)
qed


section \<open>A concrete database\<close>

definition demo_record :: usage_record where
  "demo_record = ob_record demo_handle"

definition clean_batch :: batch_env where
  "clean_batch = \<lparr> be_begin = None, be_insert = \<lambda>_ _. None, be_commit = Committed \<rparr>"

definition demo_db :: usage_db where
  "demo_db = fst (write_batch clean_batch [demo_record] usage_db_empty)"

lemma clean_write: "write_batch clean_batch rs db = (fold apply_insert rs db, Inr ())"
  by (simp add: write_batch_def clean_batch_def insert_batch_ok)

lemma demo_db_records: "db_records demo_db = [demo_record]"
  by (simp add: demo_db_def clean_write apply_insert_def absorbed_def is_deleted_def has_event_def usage_db_empty_def
    db_records_def insert_event_def)

lemma demo_db_reached: "reach db_init db_step (0, 0, demo_db)"
proof -
  have "reach db_init db_step (0, 0, usage_db_empty)" by (rule reach_init) (simp add: db_init_def)
  then show ?thesis
    using step_write [of 0 0 usage_db_empty clean_batch "[demo_record]"] by (auto simp: demo_db_def intro: reach_step)
qed

section \<open>Properties\<close>

text \<open>
  C32. In every reachable state of the usage database, whatever writes, retries, deletions and retention
  passes came before and however their commits ended, the statistics are those of the events: for
  every day and label combination that retention has not touched, the daily summary is the sum of
  the events of that day and labels (and there is no row without an event), likewise the
  daily and hourly latency aggregates, which leave out token counting requests; no request is stored
  twice, and no event lies in a range that was cleared after its completion.
\<close>

theorem usage_store_consistent:
  assumes "reach db_init db_step (low, low_hour, db)"
  shows "distinct (map ud_request_id (db_records db))
    \<and> (\<forall>cell. low \<le> ce_bucket cell \<longrightarrow> map_option snd (hm_get (db_daily db) cell) =
         (case filter (\<lambda>r. cell_of DAY_MS r = cell) (db_records db) of [] \<Rightarrow> None
          | rs \<Rightarrow> Some (accumulate summary_add summary_default (map summary_record rs))))
    \<and> (\<forall>cell. low \<le> ce_bucket cell \<longrightarrow> map_option snd (hm_get (db_perf_daily db) cell) =
         (case filter (\<lambda>r. not_count r \<and> cell_of DAY_MS r = cell) (db_records db) of [] \<Rightarrow> None
          | rs \<Rightarrow> Some (accumulate aggregate_merge aggregate_default (map aggregate_record rs))))
    \<and> (\<forall>cell. low_hour \<le> ce_bucket cell \<longrightarrow> map_option snd (hm_get (db_perf_hourly db) cell) =
         (case filter (\<lambda>r. not_count r \<and> cell_of HOUR_MS r = cell) (db_records db) of [] \<Rightarrow> None
          | rs \<Rightarrow> Some (accumulate aggregate_merge aggregate_default (map aggregate_record rs))))
    \<and> (\<forall>(from_day, to_day, cleared_at) \<in> set (db_deletions db). \<forall>r \<in> set (db_records db).
         from_day \<le> bucket_of DAY_MS r \<and> bucket_of DAY_MS r < to_day \<longrightarrow> cleared_at < ud_completed_at r)"
proof -
  note inv = usage_database.reach_inv [OF assms, unfolded db_inv_def, simplified]
  have "\<not> is_deleted db r" if "r \<in> set (db_records db)" for r
    using inv that by (auto simp: events_ok_def db_records_def)
  then have "from_day \<le> bucket_of DAY_MS r \<and> bucket_of DAY_MS r < to_day \<longrightarrow> cleared_at < ud_completed_at r"
    if "(from_day, to_day, cleared_at) \<in> set (db_deletions db)" "r \<in> set (db_records db)" for from_day to_day cleared_at r
    using that by (fastforce simp: is_deleted_def list_ex_iff)
  then show ?thesis using inv unfolding cells_match_def cell_records_def events_ok_def by auto
qed

text \<open>
  C33. Writing is safe to repeat: when a batch is written again because the first attempt reported an
  error, even if the first commit was durable after all, then after a success the database is the same
  as after writing the batch once without any fault; a failed attempt leaves no trace or the whole batch.
\<close>

theorem batch_retry:
  assumes "write_batch be rs db = (db1, Inl e)" "write_batch be' rs db1 = (db2, Inr ())"
  shows "(db1 = db \<or> write_batch clean_batch rs db = (db1, Inr ()))
    \<and> write_batch clean_batch rs db = (db2, Inr ())"
proof -
  have "db1 = db \<or> db1 = fold apply_insert rs db"
    using assms(1) [unfolded write_batch_def] by (cases rule: transaction_cases) (auto dest: insert_batch_Inr)
  moreover have "db2 = fold apply_insert rs db1"
    using assms(2) [unfolded write_batch_def] by (cases rule: transaction_cases) (auto dest: insert_batch_Inr)
  ultimately show ?thesis using clean_write batch_idempotent by auto
qed

theorem usage_store_consistent_witness:
  "map_option snd (hm_get (db_daily demo_db) (cell_of DAY_MS demo_record))
     = Some (summary_add summary_default (summary_record demo_record))"
proof -
  have "0 \<le> ce_bucket (cell_of DAY_MS demo_record)"
    by (simp add: demo_record_def demo_handle_def usage_handle_new_def usage_from_path_def bucket_of_def)
  moreover have "filter (\<lambda>r. cell_of DAY_MS r = cell_of DAY_MS demo_record) (db_records demo_db) = [demo_record]"
    by (simp add: demo_db_records)
  ultimately show ?thesis
    using usage_store_consistent [OF demo_db_reached] by (simp add: accumulate_def)
qed

theorem batch_retry_witness:
  "fst (write_batch clean_batch [demo_record]
     (fst (write_batch (clean_batch\<lparr> be_commit := Uncertain ''disk I/O error'' \<rparr>) [demo_record] usage_db_empty))) = demo_db"
proof -
  let ?be = "clean_batch\<lparr> be_commit := Uncertain ''disk I/O error'' \<rparr>"
  have first: "write_batch ?be [demo_record] usage_db_empty = (fold apply_insert [demo_record] usage_db_empty, Inl ''disk I/O error'')"
    unfolding write_batch_def by (simp add: clean_batch_def insert_batch_ok del: insert_batch.simps)
  show ?thesis
    using batch_retry [OF first clean_write] first by (simp add: demo_db_def clean_write)
qed

end
