(* ===== verification/Usage_Reports.thy ===== *)
theory Usage_Reports
  imports Usage_Tables "HOL-Library.Product_Lexorder"
begin

text \<open>
  What the router tells about its usage: the usage report (\<open>query\<close> of
  \<open>src-tauri/src/commands/usage_store.rs\<close>), the latency report (\<open>usage_performance.rs\<close>), the
  token budgets (\<open>usage_budgets.rs\<close>), the pages of single requests (\<open>usage_requests.rs\<close>) and the
  health of the writers (\<open>usage_health.rs\<close>), over the tables of \<open>Usage_Tables\<close>.  A report reads one
  snapshot of the database.  Where SQL leaves the order of rows open, it is that of the table.
\<close>

section \<open>Selection\<close>

definition opt_matches :: "string option \<Rightarrow> string \<Rightarrow> bool" where
  "opt_matches wanted s \<longleftrightarrow> (case wanted of None \<Rightarrow> True | Some w \<Rightarrow> s = w)"

text \<open>The condition \<open>FILTER\<close> of the statements.\<close>

definition selects :: "usage_query \<Rightarrow> usage_cell \<Rightarrow> bool" where
  "selects q cell \<longleftrightarrow> uq_from q \<le> ce_bucket cell \<and> ce_bucket cell < uq_to q
     \<and> opt_matches (uq_key_id q) (ce_key_id cell) \<and> opt_matches (uq_model q) (ce_model cell)
     \<and> opt_matches (uq_instance_id q) (ce_instance_id cell) \<and> opt_matches (uq_endpoint q) (ce_endpoint cell)
     \<and> (case uq_kind q of None \<Rightarrow> ce_kind cell \<noteq> ''count'' | Some k \<Rightarrow> ce_kind cell = k)"

section \<open>Health of the writers\<close>

record usage_health =
  uh_pending_records :: nat
  uh_last_commit_at :: "int option"
  uh_write_delay_ms :: "int option"
  uh_interrupted_sessions :: nat
  uh_last_interruption_at :: "int option"

definition usage_health_default :: usage_health where
  "usage_health_default = \<lparr> uh_pending_records = 0, uh_last_commit_at = None, uh_write_delay_ms = None,
     uh_interrupted_sessions = 0, uh_last_interruption_at = None \<rparr>"

text \<open>\<open>Option\<close>'s order: nothing is before everything.\<close>

definition opt_less :: "int option \<Rightarrow> int option \<Rightarrow> bool" where
  "opt_less a b \<longleftrightarrow> (case b of None \<Rightarrow> False | Some y \<Rightarrow> (case a of None \<Rightarrow> True | Some x \<Rightarrow> x < y))"

text \<open>
  \<open>probe\<close> tells whether the lock of a session is held, or the error of looking; \<open>reread\<close> is the state
  of the session read after its lock was found free.
\<close>

fun inspect_sessions ::
  "(string \<Rightarrow> string + bool) \<Rightarrow> (string \<Rightarrow> bool) \<Rightarrow> (string \<times> session_row) list \<Rightarrow> usage_health \<Rightarrow> string + usage_health" where
  "inspect_sessions probe reread [] h = Inr h"
| "inspect_sessions probe reread ((i, s) # rows) h =
     (let h1 = (if opt_less (uh_last_commit_at h) (se_last_commit s)
                then h\<lparr> uh_last_commit_at := se_last_commit s, uh_write_delay_ms := se_write_delay s \<rparr> else h)
      in if se_closed s then inspect_sessions probe reread rows h1
         else case probe i of
           Inl e \<Rightarrow> Inl e
         | Inr True \<Rightarrow>
             inspect_sessions probe reread rows (h1\<lparr> uh_pending_records := plus64 (uh_pending_records h1) (se_pending s) \<rparr>)
         | Inr False \<Rightarrow>
             if reread i then inspect_sessions probe reread rows h1
             else inspect_sessions probe reread rows (h1\<lparr> uh_interrupted_sessions := uh_interrupted_sessions h1 + 1,
                    uh_last_interruption_at := Some (max (case uh_last_interruption_at h1 of None \<Rightarrow> 0 | Some t \<Rightarrow> t) (se_updated s)) \<rparr>))"

definition inspect_health :: "(string \<Rightarrow> string + bool) \<Rightarrow> (string \<Rightarrow> bool) \<Rightarrow> usage_db \<Rightarrow> string + usage_health" where
  "inspect_health probe reread db = inspect_sessions probe reread (db_sessions db) usage_health_default"

section \<open>The usage report\<close>

record usage_group =
  gp_id :: string
  gp_name :: string
  gp_summary :: usage_summary

type_synonym group_map = "(string \<times> string \<times> usage_summary) list"

definition show_int :: "int \<Rightarrow> string" where
  "show_int i = (if i < 0 then ''-'' @ show_nat (nat (- i)) else show_nat (nat i))"

text \<open>Into the group of a label: the latest name wins, the summary is added.\<close>

definition group_entry :: "string \<Rightarrow> usage_summary \<Rightarrow> (string \<times> usage_summary) option \<Rightarrow> string \<times> usage_summary" where
  "group_entry name s old =
     (case old of
        None \<Rightarrow> (name, summary_add summary_default s)
      | Some (n, g) \<Rightarrow> (if sm_last_used g \<le> sm_last_used s then name else n, summary_add g s))"

fun add_groups :: "(string \<times> string) list \<Rightarrow> usage_summary \<Rightarrow> group_map list \<Rightarrow> usage_error + group_map list" where
  "add_groups ((i, name) # labels) s (g # gs) =
     (if 4096 \<le> length g \<and> i \<notin> fst ` set g then Inl TooManyGroups
      else case add_groups labels s gs of
             Inl e \<Rightarrow> Inl e
           | Inr gs' \<Rightarrow> Inr (bm_entry i (group_entry name s) g # gs'))"
| "add_groups labels s gs = Inr gs"

definition row_labels :: "usage_cell \<Rightarrow> string \<Rightarrow> (string \<times> string) list" where
  "row_labels cell name =
     [(ce_key_id cell, name), (ce_model cell, ce_model cell), (ce_instance_id cell, ce_instance_id cell),
      (show_int (ce_bucket cell), show_int (ce_bucket cell)), (ce_endpoint cell, ce_endpoint cell)]"

fun report_rows ::
  "nat \<Rightarrow> (usage_cell \<times> string \<times> usage_summary) list \<Rightarrow> usage_summary \<times> group_map list
    \<Rightarrow> usage_error + usage_summary \<times> group_map list" where
  "report_rows index [] acc = Inr acc"
| "report_rows index ((cell, name, s) # rows) (tot, groups) =
     (if 100000 \<le> index then Inl TooManyRows
      else case add_groups (row_labels cell name) s groups of
             Inl e \<Rightarrow> Inl e
           | Inr groups' \<Rightarrow> report_rows (Suc index) rows (summary_add tot s, groups'))"

record usage_report_t =
  rp_summary :: usage_summary
  rp_groups :: "usage_group list list"
  rp_recent :: "usage_record list"
  rp_recent_truncated :: bool
  rp_dropped_records :: nat
  rp_write_errors :: nat
  rp_last_write_error :: "string option"
  rp_updated_at :: int
  rp_detail_days :: int
  rp_summary_days :: int
  rp_storage :: usage_health

definition latest_first :: "usage_record list \<Rightarrow> usage_record list" where
  "latest_first rs = rev (sort_key (\<lambda>r. (ud_completed_at r, ud_request_id r)) rs)"

definition selected_events :: "usage_query \<Rightarrow> usage_db \<Rightarrow> usage_record list" where
  "selected_events q db =
     map ev_record (filter (\<lambda>e. selects q ((cell_of DAY_MS (ev_record e))\<lparr> ce_bucket := ev_day e \<rparr>)) (db_events db))"

definition writer_errors :: "usage_db \<Rightarrow> nat \<times> nat \<times> string option" where
  "writer_errors db =
     (let ws = map snd (db_writers db)
      in (nat (max 0 (sum_list (map wt_dropped ws))), nat (max 0 (sum_list (map wt_errors ws))),
          (case rev (sort_key wt_updated (filter (\<lambda>w. wt_last_error w \<noteq> None) ws)) of
             [] \<Rightarrow> None | w # _ \<Rightarrow> wt_last_error w)))"

definition usage_report_query :: "int \<Rightarrow> usage_query \<Rightarrow> usage_db \<Rightarrow> usage_error + usage_report_t" where
  "usage_report_query now q db =
     (case report_rows 0 (filter (\<lambda>(cell, _). selects q cell) (db_daily db)) (summary_default, replicate 5 []) of
        Inl e \<Rightarrow> Inl e
      | Inr (tot, groups) \<Rightarrow>
          (let recent = take 101 (latest_first (selected_events q db));
               (dropped, errors, last_error) = writer_errors db
           in Inr \<lparr> rp_summary = tot,
                rp_groups = map (map (\<lambda>(i, name, s). \<lparr> gp_id = i, gp_name = name, gp_summary = s \<rparr>)) groups,
                rp_recent = take 100 recent, rp_recent_truncated = (100 < length recent), rp_dropped_records = dropped,
                rp_write_errors = errors, rp_last_write_error = last_error, rp_updated_at = now,
                rp_detail_days = DETAIL_DAYS, rp_summary_days = SUMMARY_DAYS, rp_storage = usage_health_default \<rparr>))"

definition get_router_usage ::
  "(string \<Rightarrow> string + bool) \<Rightarrow> (string \<Rightarrow> bool) \<Rightarrow> int \<Rightarrow> usage_query \<Rightarrow> usage_db \<Rightarrow> usage_error + usage_report_t" where
  "get_router_usage probe reread now q db =
     (case validate_range True q of
        Some e \<Rightarrow> Inl e
      | None \<Rightarrow>
          (case usage_report_query now q db of
             Inl e \<Rightarrow> Inl e
           | Inr rep \<Rightarrow>
               (case inspect_health probe reread db of
                  Inl e \<Rightarrow> Inl (StorageError e)
                | Inr h \<Rightarrow> Inr (rep\<lparr> rp_storage := h \<rparr>))))"

section \<open>The latency report\<close>

record performance_summary =
  pf_requests :: nat
  pf_success :: nat
  pf_first_record_at :: "int option"
  pf_duration :: percentiles
  pf_queue :: percentiles
  pf_first_output :: percentiles

definition aggregate_view :: "aggregate \<Rightarrow> performance_summary" where
  "aggregate_view a = \<lparr> pf_requests = ag_requests a, pf_success = ag_success a,
     pf_first_record_at = (if 0 < ag_requests a then Some (ag_first_record_at a) else None),
     pf_duration = view (ag_duration a), pf_queue = view (ag_queue a), pf_first_output = view (ag_first_output a) \<rparr>"

record performance_group =
  pg_id :: string
  pg_name :: string
  pg_summary :: performance_summary

record performance_report =
  pp_summary :: performance_summary
  pp_groups :: "performance_group list list"
  pp_periods :: "performance_group list"
  pp_period_ms :: int
  pp_baseline :: performance_summary
  pp_baseline_from :: int
  pp_baseline_to :: int
  pp_elevated :: "string list"
  pp_updated_at :: int

definition performance_rows :: "aggregate cells \<Rightarrow> usage_query \<Rightarrow> usage_error + (usage_cell \<times> string \<times> aggregate) list" where
  "performance_rows table q =
     (let rows = take 10001 (filter (\<lambda>(cell, _). selects q cell) table)
      in if 10000 < length rows then Inl TooManyRows else Inr rows)"

definition performance_entry :: "string \<Rightarrow> aggregate \<Rightarrow> (string \<times> aggregate) option \<Rightarrow> string \<times> aggregate" where
  "performance_entry name a old =
     (case old of
        None \<Rightarrow> (name, aggregate_merge aggregate_default a)
      | Some (n, g) \<Rightarrow> (if ag_last_record_at g \<le> ag_last_record_at a then name else n, aggregate_merge g a))"

definition period_entry :: "aggregate \<Rightarrow> aggregate option \<Rightarrow> aggregate" where
  "period_entry a old = aggregate_merge (case old of None \<Rightarrow> aggregate_default | Some g \<Rightarrow> g) a"

definition performance_groups ::
  "(usage_cell \<Rightarrow> string \<Rightarrow> string \<times> string) \<Rightarrow> (usage_cell \<times> string \<times> aggregate) list \<Rightarrow> performance_group list" where
  "performance_groups label rows =
     map (\<lambda>(i, name, a). \<lparr> pg_id = i, pg_name = name, pg_summary = aggregate_view a \<rparr>)
       (fold (\<lambda>(cell, name, a). bm_entry (fst (label cell name)) (performance_entry (snd (label cell name)) a)) rows [])"

definition elevated :: "percentiles \<Rightarrow> percentiles \<Rightarrow> bool" where
  "elevated a b \<longleftrightarrow> 20 \<le> ps_samples a \<and> 20 \<le> ps_samples b
     \<and> (case (ps_p95 a, ps_p95 b) of
          (Some now, Some before) \<Rightarrow> 0 < before \<and> sat_mul u64_max before 2 < now
        | _ \<Rightarrow> False)"

definition period_width :: "int \<Rightarrow> usage_query \<Rightarrow> int" where
  "period_width now q =
     (let hourly = (uq_to q - uq_from q \<le> 14 * DAY_MS \<and> now div DAY_MS * DAY_MS - HOURLY_DAYS * DAY_MS \<le> uq_from q)
      in if \<not> hourly then DAY_MS else if uq_to q - uq_from q \<le> 2 * DAY_MS then HOUR_MS else 6 * HOUR_MS)"

definition performance_query :: "int \<Rightarrow> usage_query \<Rightarrow> usage_db \<Rightarrow> usage_error + performance_report" where
  "performance_query now q db =
     (case performance_rows (db_perf_daily db) q of
        Inl e \<Rightarrow> Inl e
      | Inr days \<Rightarrow>
          (let width = period_width now q;
               baseline_from = max (uq_from q - 7 * DAY_MS) 0
           in case (if width = DAY_MS then Inr days else performance_rows (db_perf_hourly db) q) of
                Inl e \<Rightarrow> Inl e
              | Inr rows \<Rightarrow>
                  (case performance_rows (db_perf_daily db) (q\<lparr> uq_from := baseline_from, uq_to := uq_from q \<rparr>) of
                     Inl e \<Rightarrow> Inl e
                   | Inr before \<Rightarrow>
                       (let tot = fold (\<lambda>(_, _, a) t. aggregate_merge t a) days aggregate_default;
                            periods = fold (\<lambda>(cell, _, a). bm_entry (ce_bucket cell div width * width) (period_entry a)) rows [];
                            current = aggregate_view tot;
                            reference = aggregate_view (fold (\<lambda>(_, _, a) t. aggregate_merge t a) before aggregate_default)
                        in Inr \<lparr> pp_summary = current,
                             pp_groups = map (\<lambda>label. performance_groups label days)
                               [\<lambda>cell name. (ce_key_id cell, name), \<lambda>cell name. (ce_model cell, ce_model cell),
                                \<lambda>cell name. (ce_instance_id cell, ce_instance_id cell)],
                             pp_periods = map (\<lambda>(b, a). \<lparr> pg_id = show_int b, pg_name = show_int b, pg_summary = aggregate_view a \<rparr>) periods,
                             pp_period_ms = width, pp_baseline = reference, pp_baseline_from = baseline_from,
                             pp_baseline_to = uq_from q,
                             pp_elevated = map fst (filter (\<lambda>(_, a, b). elevated a b)
                               [(''duration'', pf_duration current, pf_duration reference),
                                (''queue'', pf_queue current, pf_queue reference),
                                (''firstOutput'', pf_first_output current, pf_first_output reference)]),
                             pp_updated_at = now \<rparr>))))"

definition get_router_performance :: "int \<Rightarrow> usage_query \<Rightarrow> usage_db \<Rightarrow> usage_error + performance_report" where
  "get_router_performance now q db =
     (case validate_range True q of Some e \<Rightarrow> Inl e | None \<Rightarrow> performance_query now q db)"

section \<open>Budgets\<close>

record period_usage =
  pu_used :: nat
  pu_partial :: nat
  pu_unknown :: nat

definition period_usage_default :: period_usage where
  "period_usage_default = \<lparr> pu_used = 0, pu_partial = 0, pu_unknown = 0 \<rparr>"

definition period_usage_add :: "period_usage \<Rightarrow> usage_summary \<Rightarrow> period_usage" where
  "period_usage_add p s = \<lparr> pu_used = plus64 (plus64 (pu_used p) (sm_input s)) (sm_output s),
     pu_partial = plus64 (pu_partial p) (sm_partial s), pu_unknown = plus64 (pu_unknown p) (sm_unknown s) \<rparr>"

record budget_key =
  bk_id :: string
  bk_name :: string
  bk_enabled :: bool
  bk_daily_budget :: nat
  bk_monthly_budget :: nat
  bk_day :: period_usage
  bk_month :: period_usage
  bk_quota :: key_quota

record quota_storage =
  qs_database_bytes :: nat
  qs_wal_bytes :: nat
  qs_reusable_bytes :: nat
  qs_retention_days :: int

text \<open>
  The files of the ledger: \<open>pages\<close> and \<open>page_size\<close> are what SQLite reports, \<open>len\<close> the length of
  the database file and of its write-ahead log, absent or unreadable files included.
\<close>

definition inspect_storage ::
  "bool \<Rightarrow> string + int \<Rightarrow> string + int \<Rightarrow> (string \<Rightarrow> string + nat option) \<Rightarrow> string + quota_storage" where
  "inspect_storage exists pages page_size len =
     (if \<not> exists
      then Inr \<lparr> qs_database_bytes = 0, qs_wal_bytes = 0, qs_reusable_bytes = 0, qs_retention_days = RETENTION_DAYS \<rparr>
      else case pages of
        Inl e \<Rightarrow> Inl e
      | Inr free \<Rightarrow>
          (case page_size of
             Inl e \<Rightarrow> Inl e
           | Inr width \<Rightarrow>
               (case (len '''', len ''-wal'') of
                  (Inl e, _) \<Rightarrow> Inl e
                | (Inr d, Inl e) \<Rightarrow> Inl e
                | (Inr d, Inr w) \<Rightarrow>
                    Inr \<lparr> qs_database_bytes = or_default d, qs_wal_bytes = or_default w,
                      qs_reusable_bytes = sat_mul i64_max (nat (max free 0)) (nat (max width 0)),
                      qs_retention_days = RETENTION_DAYS \<rparr>)))"

record budget_report =
  br_keys :: "budget_key list"
  br_day_from :: int
  br_month_from :: int
  br_updated_at :: int
  br_dropped_records :: nat
  br_write_errors :: nat
  br_health :: usage_health
  br_quota_storage :: quota_storage

definition key_quota_default :: key_quota where
  "key_quota_default =
     (let none = \<lparr> qp_settled = 0, qp_held = 0, qp_pending = 0, qp_uncertain = 0 \<rparr>
      in \<lparr> kq_daily_limit = 0, kq_monthly_limit = 0, kq_day = none, kq_month = none \<rparr>)"

fun budget_rows ::
  "int \<Rightarrow> (usage_cell \<times> string \<times> usage_summary) list \<Rightarrow> (string, period_usage \<times> period_usage) hmap
    \<Rightarrow> (string, period_usage \<times> period_usage) hmap" where
  "budget_rows day [] totals = totals"
| "budget_rows day ((cell, _, s) # rows) totals =
     (let (d, m) = hm_get_or (period_usage_default, period_usage_default) totals (ce_key_id cell);
          d' = (if ce_bucket cell = day then period_usage_add d s else d)
      in budget_rows day rows (hm_insert (ce_key_id cell) (d', period_usage_add m s) totals))"

fun budget_keys :: "proxy_api_key list \<Rightarrow> (string, period_usage \<times> period_usage) hmap \<Rightarrow> budget_key list" where
  "budget_keys [] totals = []"
| "budget_keys (key # keys) totals =
     (let (d, m) = hm_get_or (period_usage_default, period_usage_default) totals (ak_id key)
      in \<lparr> bk_id = ak_id key, bk_name = ak_name key, bk_enabled = ak_enabled key, bk_daily_budget = ak_daily_token_budget key,
           bk_monthly_budget = ak_monthly_token_budget key, bk_day = d, bk_month = m, bk_quota = key_quota_default \<rparr>
         # budget_keys keys (hm_remove (ak_id key) totals))"

definition budget_query :: "proxy_api_key list \<Rightarrow> int \<Rightarrow> int \<Rightarrow> usage_db \<Rightarrow> budget_key list" where
  "budget_query keys day month db =
     budget_keys keys (budget_rows day
       (filter (\<lambda>(cell, _). month \<le> ce_bucket cell \<and> ce_bucket cell < day + DAY_MS \<and> ce_kind cell \<noteq> ''count'') (db_daily db)) [])"

text \<open>\<open>storage\<close> is what \<open>inspect_storage\<close> finds.\<close>

definition get_router_budgets ::
  "(int \<Rightarrow> string + int) \<Rightarrow> (string \<Rightarrow> string + bool) \<Rightarrow> (string \<Rightarrow> bool) \<Rightarrow> string + quota_storage \<Rightarrow> proxy_api_key list \<Rightarrow> int
    \<Rightarrow> ledger \<Rightarrow> usage_db \<Rightarrow> string + budget_report" where
  "get_router_budgets month_start probe reread storage keys now lg db =
     (case periods month_start now of
        Inl e \<Rightarrow> Inl e
      | Inr (day, month) \<Rightarrow>
          (let rows = budget_query keys day month db;
               (dropped, errors, _) = writer_errors db
           in case report month_start lg keys now of
                Inl e \<Rightarrow> Inl e
              | Inr quotas \<Rightarrow>
                  (case inspect_health probe reread db of
                     Inl e \<Rightarrow> Inl e
                   | Inr h \<Rightarrow>
                       (case storage of
                          Inl e \<Rightarrow> Inl e
                        | Inr sizes \<Rightarrow>
                            Inr \<lparr> br_keys = map2 (\<lambda>row quota. row\<lparr> bk_quota := quota \<rparr>) rows quotas @ drop (length quotas) rows,
                              br_day_from = day, br_month_from = month, br_updated_at = now,
                              br_dropped_records = dropped, br_write_errors = errors, br_health = h,
                              br_quota_storage = sizes \<rparr>))))"

section \<open>Pages of requests\<close>

record request_cursor =
  cu_completed_at :: int
  cu_request_id :: string
  cu_snapshot_row_id :: int

record request_query =
  qy_filters :: usage_query
  qy_outcome :: "string option"
  qy_failure_code :: "string option"
  qy_request_id :: "string option"
  qy_min_duration_ms :: "nat option"
  qy_min_queue_ms :: "nat option"
  qy_min_first_output_ms :: "nat option"
  qy_cursor :: "request_cursor option"

record request_page =
  pa_records :: "usage_record list"
  pa_next_cursor :: "request_cursor option"
  pa_first_cursor :: request_cursor

definition validate_requests :: "request_query \<Rightarrow> usage_error option" where
  "validate_requests q =
     (case validate_range False (qy_filters q) of
        Some e \<Rightarrow> Some e
      | None \<Rightarrow>
          if list_ex (\<lambda>s. 128 < length s) (List.map_filter id [qy_outcome q, qy_failure_code q, qy_request_id q])
          then Some FilterTooLong
          else if (case qy_cursor q of
                     None \<Rightarrow> False
                   | Some c \<Rightarrow> cu_snapshot_row_id c < 0 \<or> 128 < length (cu_request_id c)
                       \<or> cu_completed_at c < uq_from (qy_filters q) \<or> uq_to (qy_filters q) < cu_completed_at c)
          then Some InvalidCursor
          else None)"

definition at_least :: "nat option \<Rightarrow> nat option \<Rightarrow> bool" where
  "at_least minimum value \<longleftrightarrow>
     (case minimum of None \<Rightarrow> True | Some m \<Rightarrow> (case value of None \<Rightarrow> False | Some v \<Rightarrow> m \<le> v))"

definition request_key :: "usage_record \<Rightarrow> int \<times> string" where
  "request_key r = (ud_completed_at r, ud_request_id r)"

text \<open>The conditions of \<open>statement\<close>, except that on the row id.\<close>

definition request_matches :: "request_query \<Rightarrow> usage_record \<Rightarrow> bool" where
  "request_matches q r \<longleftrightarrow>
     (let f = qy_filters q
      in uq_from f \<le> ud_completed_at r \<and> ud_completed_at r < uq_to f
         \<and> opt_matches (uq_key_id f) (ud_key_id r) \<and> opt_matches (uq_model f) (ud_model r)
         \<and> opt_matches (uq_instance_id f) (ud_instance_id r) \<and> opt_matches (uq_endpoint f) (ud_endpoint r)
         \<and> (case uq_kind f of None \<Rightarrow> ud_kind r \<noteq> ''count'' | Some k \<Rightarrow> ud_kind r = k)
         \<and> opt_matches (qy_outcome q) (ud_outcome r)
         \<and> (case qy_failure_code q of None \<Rightarrow> True | Some c \<Rightarrow> map_option uf_code (ud_failure r) = Some c)
         \<and> (case qy_request_id q of
              None \<Rightarrow> True
            | Some i \<Rightarrow> ud_request_id r = i \<or> ud_response_request_id r = Some i \<or> ud_response_x_request_id r = Some i
                \<or> ud_upstream_request_id r = Some i)
         \<and> (case qy_cursor q of None \<Rightarrow> True | Some c \<Rightarrow> request_key r < (cu_completed_at c, cu_request_id c))
         \<and> at_least (qy_min_duration_ms q) (Some (ud_duration_ms r))
         \<and> (qy_min_queue_ms q \<noteq> None \<longrightarrow> ud_queue_entered r \<and> at_least (qy_min_queue_ms q) (Some (ud_queue_ms r)))
         \<and> at_least (qy_min_first_output_ms q) (ud_first_output_ms r))"

definition request_snapshot :: "request_query \<Rightarrow> usage_db \<Rightarrow> int" where
  "request_snapshot q db =
     (case qy_cursor q of Some c \<Rightarrow> cu_snapshot_row_id c | None \<Rightarrow> int (fold max (map ev_rowid (db_events db)) 0))"

definition requests_page :: "request_query \<Rightarrow> usage_db \<Rightarrow> request_page" where
  "requests_page q db =
     (let snapshot = request_snapshot q db;
          rows = take 51 (latest_first (filter (request_matches q)
                   (map ev_record (filter (\<lambda>e. int (ev_rowid e) \<le> snapshot) (db_events db)))));
          more = (50 < length rows); records = take 50 rows
      in \<lparr> pa_records = records,
           pa_next_cursor =
             (if more \<and> records \<noteq> []
              then Some \<lparr> cu_completed_at = ud_completed_at (last records), cu_request_id = ud_request_id (last records),
                          cu_snapshot_row_id = snapshot \<rparr>
              else None),
           pa_first_cursor = \<lparr> cu_completed_at = uq_to (qy_filters q), cu_request_id = [], cu_snapshot_row_id = snapshot \<rparr> \<rparr>)"

definition get_router_usage_requests :: "request_query \<Rightarrow> usage_db \<Rightarrow> usage_error + request_page" where
  "get_router_usage_requests q db = (case validate_requests q of Some e \<Rightarrow> Inl e | None \<Rightarrow> Inr (requests_page q db))"

section \<open>Sums over selected rows\<close>

context accumulation
begin

lemma cells_sum:
  assumes "cells_match add zero value sel width low table rs" "\<And>cell. P cell \<Longrightarrow> low \<le> ce_bucket cell"
    "list_all ok (map value rs)"
  shows "accumulate add zero (map (\<lambda>(_, _, v). v) (filter (\<lambda>(cell, _). P cell) table))
    = accumulate add zero (map value (filter (\<lambda>r. sel r \<and> P (cell_of width r)) rs))"
proof -
  let ?T = "filter (\<lambda>(cell, _). P cell) table" and ?xs = "filter (\<lambda>r. sel r \<and> P (cell_of width r)) rs"
  have m: "hm_ok table" "map_option snd (hm_get table cell) =
        (case cell_records sel width cell rs of [] \<Rightarrow> None | rs' \<Rightarrow> Some (accumulate add zero (map value rs')))" if "P cell" for cell
    using assms(1,2) that by (simp_all add: cells_match_def)
  have hm: "hm_ok table" using assms(1) by (simp add: cells_match_def)
  have cells: "cell_records sel width cell rs = filter (\<lambda>r. cell_of width r = cell) ?xs" if "P cell" for cell
    using that by (auto simp: cell_records_def intro!: filter_cong)
  have row: "v = accumulate add zero (map value (filter (\<lambda>r. cell_of width r = cell) ?xs))" if "(cell, name, v) \<in> set ?T" for cell name v
    using that m(2) [of cell] cells [of cell] hm by (auto split: list.splits)
  have "map (\<lambda>(_, _, v). v) ?T = map (\<lambda>k. accumulate add zero (map value (filter (\<lambda>r. cell_of width r = k) ?xs))) (map fst ?T)"
    using row by (auto simp: case_prod_beta)
  moreover have "distinct (map fst ?T)" using hm by (simp add: distinct_map_filter)
  moreover have "cell_of width ` set ?xs \<subseteq> set (map fst ?T)"
  proof
    fix cell assume "cell \<in> cell_of width ` set ?xs"
    then obtain r where r: "r \<in> set rs" "sel r" "P cell" "cell = cell_of width r" by auto
    then have "cell_records sel width cell rs \<noteq> []" by (auto simp: cell_records_def filter_empty_conv)
    then obtain nv where "hm_get table cell = Some nv" using m(2) [OF r(3)] by (auto split: list.splits)
    then show "cell \<in> set (map fst ?T)" using r(3) by (force dest: map_of_SomeD)
  qed
  moreover have "list_all ok (map value ?xs)" using assms(3) by (auto simp: list_all_iff)
  ultimately show ?thesis
    using accumulate_groups [of "value" ?xs "map fst ?T" "cell_of width"] by (simp only:)
qed

end

section \<open>Grouping rows\<close>

lemma group_fold:
  fixes key :: "'x \<Rightarrow> 'k :: linorder"
  shows "sorted_wrt (<) (map fst (fold (\<lambda>x. bm_entry (key x) (upd x)) xs [])) \<and>
    fst ` set (fold (\<lambda>x. bm_entry (key x) (upd x)) xs []) = key ` set xs \<and>
    (\<forall>k. map_of (fold (\<lambda>x. bm_entry (key x) (upd x)) xs []) k = fold (\<lambda>x v. Some (upd x v)) (filter (\<lambda>x. key x = k) xs) None)"
proof (induction xs rule: rev_induct)
  case Nil
  then show ?case by simp
next
  case (snoc x xs)
  let ?m = "fold (\<lambda>x. bm_entry (key x) (upd x)) xs []"
  have s: "sorted_wrt (<) (map fst ?m)" and m: "fst ` set ?m = key ` set xs"
    "\<And>k. map_of ?m k = fold (\<lambda>x v. Some (upd x v)) (filter (\<lambda>x. key x = k) xs) None"
    using snoc by auto
  show ?case using bm_entry_sorted [OF s] by (simp add: bm_entry_keys bm_entry_get [OF s] m)
qed

lemma sorted_map_rebuild:
  fixes m :: "('k :: linorder \<times> 'v) list"
  assumes "sorted_wrt (<) (map fst m)"
  shows "m = map (\<lambda>k. (k, the (map_of m k))) (sorted_list_of_set (fst ` set m))"
proof -
  have d: "distinct (map fst m)" "sorted (map fst m)" using assms by (auto simp: strict_sorted_iff)
  have "map fst m = sorted_list_of_set (fst ` set m)"
    using d by (metis list.set_map sorted_list_of_set.idem_if_sorted_distinct)
  moreover have "map (\<lambda>p. (fst p, the (map_of m (fst p)))) m = m"
    by (rule map_idI) (use d(1) in auto)
  then have "m = map (\<lambda>k. (k, the (map_of m k))) (map fst m)" by (simp add: comp_def)
  ultimately show ?thesis by simp
qed

text \<open>Groups whose values add up: the value of every key is the sum of its rows.\<close>

lemma group_sums:
  fixes key :: "'x \<Rightarrow> 'k :: linorder"
  assumes upd: "\<And>x v. snd (upd x v) = add (case v of None \<Rightarrow> zero | Some (_, g) \<Rightarrow> g) (value x)"
  shows "map (\<lambda>(k, v). (k, snd v)) (fold (\<lambda>x. bm_entry (key x) (upd x)) xs [])
    = map (\<lambda>k. (k, accumulate add zero (map value (filter (\<lambda>x. key x = k) xs)))) (sorted_list_of_set (key ` set xs))"
proof -
  let ?m = "fold (\<lambda>x. bm_entry (key x) (upd x)) xs []"
  note g = group_fold [of key upd xs, THEN conjunct1] group_fold [of key upd xs, THEN conjunct2, THEN conjunct1]
    group_fold [of key upd xs, THEN conjunct2, THEN conjunct2, rule_format]
  have sums: "map_option snd (fold (\<lambda>x v. Some (upd x v)) ys None) = (if ys = [] then None else Some (accumulate add zero (map value ys)))" for ys
  proof (induction ys rule: rev_induct)
    case Nil
    then show ?case by simp
  next
    case (snoc y ys)
    then show ?case by (auto simp: upd split: option.splits if_splits)
  qed
  have "snd (the (map_of ?m k)) = accumulate add zero (map value (filter (\<lambda>x. key x = k) xs))" if "k \<in> key ` set xs" for k
    using sums [of "filter (\<lambda>x. key x = k) xs"] that by (auto simp: g(3) filter_empty_conv split: if_splits)
  then show ?thesis
    by (subst sorted_map_rebuild [OF g(1)]) (auto simp: g(2))
qed

section \<open>The loop of the usage report\<close>

lemma add_groups_Inr:
  "add_groups labels s gs = Inr gs' \<Longrightarrow> length labels = length gs \<Longrightarrow>
    gs' = map2 (\<lambda>(i, name) g. bm_entry i (group_entry name s) g) labels gs"
proof (induction gs arbitrary: labels gs')
  case Nil
  then show ?case by simp
next
  case (Cons g gs)
  then obtain i name labels' where "labels = (i, name) # labels'" by (cases labels) auto
  then show ?case using Cons by (auto split: sum.splits if_splits)
qed

lemma cells_present:
  assumes "cells_match add zero val sel width low table rs" "low \<le> ce_bucket cell"
  shows "cell \<in> fst ` set table \<longleftrightarrow> (\<exists>r \<in> set rs. sel r \<and> cell_of width r = cell)"
proof -
  have "map_option snd (hm_get table cell) = None \<longleftrightarrow> cell_records sel width cell rs = []"
    using assms by (simp add: cells_match_def split: list.split)
  then show ?thesis by (auto simp: cell_records_def filter_empty_conv map_of_eq_None_iff)
qed

definition row_label :: "nat \<Rightarrow> usage_cell \<times> string \<times> usage_summary \<Rightarrow> string \<times> string" where
  "row_label i row = (case row of (cell, name, _) \<Rightarrow> row_labels cell name ! i)"

lemma row_labels_length [simp]: "length (row_labels cell name) = 5"
  by (simp add: row_labels_def)

lemma report_rows_Inr:
  "report_rows index rows (t, gs) = Inr (t', gs') \<Longrightarrow> length gs = 5 \<Longrightarrow>
    t' = fold (\<lambda>(_, _, s) t. summary_add t s) rows t \<and> length gs' = 5
    \<and> (\<forall>i < 5. gs' ! i = fold (\<lambda>row. bm_entry (fst (row_label i row)) (group_entry (snd (row_label i row)) (snd (snd row)))) rows (gs ! i))"
proof (induction rows arbitrary: index t gs)
  case Nil
  then show ?case by simp
next
  case (Cons row rows)
  obtain cell name s where row: "row = (cell, name, s)" using prod_cases3 by blast
  obtain gs1 where g: "add_groups (row_labels cell name) s gs = Inr gs1"
    and r: "report_rows (Suc index) rows (summary_add t s, gs1) = Inr (t', gs')"
    using Cons.prems by (auto simp: row split: if_splits sum.splits)
  have gs1: "gs1 = map2 (\<lambda>(i, name) g. bm_entry i (group_entry name s) g) (row_labels cell name) gs"
    using add_groups_Inr [OF g] Cons.prems(2) by simp
  then have "length gs1 = 5" using Cons.prems(2) by simp
  then show ?case
    using Cons.IH [OF r] Cons.prems(2) by (auto simp: row gs1 row_label_def case_prod_unfold)
qed

lemma group_entry_sum: "snd (group_entry name s v) = summary_add (case v of None \<Rightarrow> summary_default | Some (_, g) \<Rightarrow> g) s"
  by (auto simp: group_entry_def split: option.splits)

text \<open>The label of a record in the groups of a report, and the records a query selects.\<close>

definition record_label :: "nat \<Rightarrow> usage_record \<Rightarrow> string" where
  "record_label i r = fst (row_labels (cell_of DAY_MS r) (ud_key_name r) ! i)"

definition selected_records :: "usage_query \<Rightarrow> usage_db \<Rightarrow> usage_record list" where
  "selected_records q db = filter (\<lambda>r. selects q (cell_of DAY_MS r)) (db_records db)"

lemma row_label_id: "i < 5 \<Longrightarrow> fst (row_labels cell name ! i) = fst (row_labels cell name' ! i)"
  by (auto simp: row_labels_def less_Suc_eq numeral_eq_Suc)

lemma selected_events_records: "events_ok db \<Longrightarrow> selected_events q db = selected_records q db"
proof -
  assume ok: "events_ok db"
  have same: "(cell_of DAY_MS r)\<lparr> ce_bucket := bucket_of DAY_MS r \<rparr> = cell_of DAY_MS r" for r by (simp add: cell_of_def)
  have "\<forall>e \<in> set es. ev_day e = bucket_of DAY_MS (ev_record e) \<Longrightarrow>
    map ev_record (filter (\<lambda>e. selects q ((cell_of DAY_MS (ev_record e))\<lparr> ce_bucket := ev_day e \<rparr>)) es)
      = filter (\<lambda>r. selects q (cell_of DAY_MS r)) (map ev_record es)" for es
    by (induction es) (simp_all add: same)
  from this [of "db_events db"] show ?thesis
    using ok unfolding selected_events_def selected_records_def db_records_def by (auto simp: events_ok_def)
qed

section \<open>Walking through the pages\<close>

text \<open>
  A client asks for the first page and then, with the cursor of each page, for the next one; \<open>dbs\<close> are
  the states of the database when the pages are read.
\<close>

fun walk_pages :: "usage_db list \<Rightarrow> request_query \<Rightarrow> usage_record list" where
  "walk_pages [] q = []"
| "walk_pages (db # dbs) q =
     (let page = requests_page q db
      in pa_records page
         @ (case pa_next_cursor page of None \<Rightarrow> [] | Some c \<Rightarrow> walk_pages dbs (q\<lparr> qy_cursor := Some c \<rparr>)))"

definition rows_upto :: "int \<Rightarrow> usage_db \<Rightarrow> usage_record list" where
  "rows_upto snapshot db = map ev_record (filter (\<lambda>e. int (ev_rowid e) \<le> snapshot) (db_events db))"

lemma latest_first_filter: "latest_first (filter P rs) = filter P (latest_first rs)"
  by (simp add: latest_first_def filter_sort [symmetric] rev_filter)

lemma latest_first_strict:
  assumes "distinct (map ud_request_id rs)"
  shows "sorted_wrt (\<lambda>a b. request_key b < request_key a) (latest_first rs)"
proof -
  have "distinct (map request_key rs)"
    using assms by (auto simp: distinct_conv_nth request_key_def)
  then have "distinct (map request_key (sort_key request_key rs))"
    by (metis distinct_map distinct_sort set_sort)
  then have "sorted_wrt (<) (map request_key (sort_key request_key rs))"
    by (simp add: strict_sorted_iff)
  then show ?thesis
    by (simp add: latest_first_def request_key_def [abs_def, symmetric] sorted_wrt_rev sorted_wrt_map)
qed

text \<open>In a list in strictly falling order, what comes after an element is what is below it.\<close>

lemma drop_below:
  assumes "sorted_wrt (\<lambda>a b. f b < f a) xs" "0 < n" "n \<le> length xs"
  shows "filter (\<lambda>x. f x < (f (xs ! (n - 1)) :: 'b :: linorder)) xs = drop n xs"
proof -
  have lt: "f (xs ! j) < f (xs ! i)" if "i < j" "j < length xs" for i j
    using sorted_wrt_nth_less [OF assms(1) that] .
  have "filter (\<lambda>x. f x < f (xs ! (n - 1))) (take n xs) = []"
  proof (rule filter_False, rule ballI)
    fix x assume "x \<in> set (take n xs)"
    then obtain i where "i < n" "x = xs ! i" using assms(3) by (auto simp: in_set_conv_nth)
    then show "\<not> f x < f (xs ! (n - 1))" using lt [of i "n - 1"] assms(2,3) by (cases "i = n - 1") force+
  qed
  moreover have "filter (\<lambda>x. f x < f (xs ! (n - 1))) (drop n xs) = drop n xs"
  proof (rule filter_True, rule ballI)
    fix x assume "x \<in> set (drop n xs)"
    then obtain i where "i < length xs - n" "x = xs ! (n + i)" by (auto simp: in_set_conv_nth)
    then show "f x < f (xs ! (n - 1))" using lt [of "n - 1" "n + i"] assms(2) by simp
  qed
  ultimately show ?thesis by (metis append_take_drop_id filter_append self_append_conv2)
qed

lemma matches_cursor:
  "request_matches (q\<lparr> qy_cursor := Some c \<rparr>) r
    \<longleftrightarrow> request_matches (q\<lparr> qy_cursor := None \<rparr>) r \<and> request_key r < (cu_completed_at c, cu_request_id c)"
  by (auto simp: request_matches_def Let_def)

text \<open>One page with a cursor, from the list of all matches.\<close>

lemma page_at:
  assumes M: "M = latest_first (filter (request_matches (q\<lparr> qy_cursor := None \<rparr>)) (rows_upto snapshot db))"
    and sorted: "sorted_wrt (\<lambda>a b. request_key b < request_key a) M" and n: "0 < n" "n \<le> length M"
    and c: "c = \<lparr> cu_completed_at = ud_completed_at (M ! (n - 1)), cu_request_id = ud_request_id (M ! (n - 1)),
                 cu_snapshot_row_id = snapshot \<rparr>"
  shows "pa_records (requests_page (q\<lparr> qy_cursor := Some c \<rparr>) db) = take 50 (drop n M)"
    "pa_next_cursor (requests_page (q\<lparr> qy_cursor := Some c \<rparr>) db) =
       (if n + 50 < length M
        then Some \<lparr> cu_completed_at = ud_completed_at (M ! (n + 49)), cu_request_id = ud_request_id (M ! (n + 49)),
                    cu_snapshot_row_id = snapshot \<rparr> else None)"
proof -
  define K where "K = request_key (M ! (n - 1))"
  have "request_matches (q\<lparr> qy_cursor := Some c \<rparr>) = (\<lambda>r. request_matches (q\<lparr> qy_cursor := None \<rparr>) r \<and> request_key r < K)"
    by (rule ext) (simp add: matches_cursor c K_def request_key_def)
  then have "latest_first (filter (request_matches (q\<lparr> qy_cursor := Some c \<rparr>)) (rows_upto snapshot db)) = filter (\<lambda>r. request_key r < K) M"
    unfolding M latest_first_filter by (auto intro: filter_cong)
  then have rows: "latest_first (filter (request_matches (q\<lparr> qy_cursor := Some c \<rparr>)) (rows_upto snapshot db)) = drop n M"
    using drop_below [OF sorted n] by (simp add: K_def)
  have snap: "request_snapshot (q\<lparr> qy_cursor := Some c \<rparr>) db = snapshot" by (simp add: request_snapshot_def c)
  have page: "requests_page (q\<lparr> qy_cursor := Some c \<rparr>) db =
    (let rows = take 51 (drop n M); more = (50 < length rows); records = take 50 rows
     in \<lparr> pa_records = records,
          pa_next_cursor =
            (if more \<and> records \<noteq> []
             then Some \<lparr> cu_completed_at = ud_completed_at (last records), cu_request_id = ud_request_id (last records),
                         cu_snapshot_row_id = snapshot \<rparr>
             else None),
          pa_first_cursor = \<lparr> cu_completed_at = uq_to (qy_filters q), cu_request_id = [], cu_snapshot_row_id = snapshot \<rparr> \<rparr>)"
    using rows unfolding requests_page_def snap rows_upto_def [symmetric] Let_def by simp
  show "pa_records (requests_page (q\<lparr> qy_cursor := Some c \<rparr>) db) = take 50 (drop n M)"
    by (simp add: page Let_def)
  show "pa_next_cursor (requests_page (q\<lparr> qy_cursor := Some c \<rparr>) db) =
       (if n + 50 < length M
        then Some \<lparr> cu_completed_at = ud_completed_at (M ! (n + 49)), cu_request_id = ud_request_id (M ! (n + 49)),
                    cu_snapshot_row_id = snapshot \<rparr> else None)"
  proof (cases "n + 50 < length M")
    case True
    then have "last (take 50 (take 51 (drop n M))) = M ! (n + 49)" "take 50 (take 51 (drop n M)) \<noteq> []"
      "50 < length (take 51 (drop n M))" by (simp_all add: last_conv_nth)
    then show ?thesis using True by (simp only: page Let_def request_page.simps if_True simp_thms)
  next
    case False
    then show ?thesis by (auto simp: page Let_def)
  qed
qed


lemma walk_from:
  assumes M: "M = latest_first (filter (request_matches (q\<lparr> qy_cursor := None \<rparr>)) rs)"
    and sorted: "sorted_wrt (\<lambda>a b. request_key b < request_key a) M"
    and "\<forall>db \<in> set dbs. rows_upto snapshot db = rs" "0 < n" "n \<le> length M" "length M \<le> n + 50 * length dbs"
  shows "walk_pages dbs (q\<lparr> qy_cursor := Some \<lparr> cu_completed_at = ud_completed_at (M ! (n - 1)),
     cu_request_id = ud_request_id (M ! (n - 1)), cu_snapshot_row_id = snapshot \<rparr> \<rparr>) = drop n M"
  using assms(3-6)
proof (induction dbs arbitrary: n)
  case Nil
  then show ?case by simp
next
  case (Cons db dbs)
  have M': "M = latest_first (filter (request_matches (q\<lparr> qy_cursor := None \<rparr>)) (rows_upto snapshot db))" using M Cons.prems(1) by simp
  note page = page_at [OF M' sorted Cons.prems(2,3) refl, unfolded One_nat_def]
  show ?case
  proof (cases "n + 50 < length M")
    case False
    then show ?thesis by (simp add: page Let_def)
  next
    case True
    have "take 50 (drop n M) @ drop (n + 50) M = drop n M"
      by (metis add.commute append_take_drop_id drop_drop)
    moreover have "n + 50 - 1 = n + 49" by simp
    ultimately show ?thesis
      using Cons.IH [of "n + 50"] Cons.prems True by (simp add: page Let_def add.commute)
  qed
qed

section \<open>Writes between the pages\<close>

definition writes :: "usage_db \<Rightarrow> usage_db \<Rightarrow> bool" where
  "writes db db' \<longleftrightarrow> (\<exists>be rs. db' = fst (write_batch be rs db))"

lemma insert_rows_upto:
  assumes "snapshot < int (next_rowid db)"
  shows "rows_upto snapshot (apply_insert r db) = rows_upto snapshot db \<and> snapshot < int (next_rowid (apply_insert r db))"
proof (cases "absorbed db r")
  case True
  then show ?thesis using assms by (simp add: apply_insert_def)
next
  case False
  then show ?thesis using assms by (auto simp: rows_upto_def insert_events next_rowid_def)
qed

lemma writes_rows_upto:
  assumes "writes\<^sup>*\<^sup>* db db'" "snapshot < int (next_rowid db)"
  shows "rows_upto snapshot db' = rows_upto snapshot db \<and> snapshot < int (next_rowid db')"
  using assms(1)
proof (induction rule: rtranclp_induct)
  case base
  then show ?case using assms(2) by simp
next
  case (step db1 db2)
  have batch: "rows_upto snapshot (fold apply_insert rs db) = rows_upto snapshot db \<and> snapshot < int (next_rowid (fold apply_insert rs db))"
    if "snapshot < int (next_rowid db)" for rs db
    using that
  proof (induction rs arbitrary: db)
    case (Cons r rs)
    then show ?case using insert_rows_upto [of snapshot db r] by auto
  qed simp
  obtain be rs res where "write_batch be rs db1 = (db2, res)" using step.hyps(2) by (metis writes_def prod.exhaust_sel)
  then have "db2 = db1 \<or> db2 = fold apply_insert rs db1"
    unfolding write_batch_def by (cases rule: transaction_cases) (auto dest: insert_batch_Inr)
  then show ?case using step.IH batch [of db1 rs] by auto
qed

section \<open>Budgets are sums\<close>

definition period_usage_of :: "usage_summary \<Rightarrow> period_usage" where
  "period_usage_of s = \<lparr> pu_used = plus64 (sm_input s) (sm_output s), pu_partial = sm_partial s, pu_unknown = sm_unknown s \<rparr>"

abbreviation sum_rows :: "usage_summary list \<Rightarrow> usage_summary" where
  "sum_rows ss \<equiv> accumulate summary_add summary_default ss"

lemma period_usage_snoc: "period_usage_add (period_usage_of t) s = period_usage_of (summary_add t s)"
  by (simp add: period_usage_add_def period_usage_of_def summary_add_def sat_add_def)

lemma period_usage_default: "period_usage_of summary_default = period_usage_default"
  by (simp add: period_usage_of_def summary_default_def period_usage_default_def sat_add_def)

text \<open>The totals of the loop are those of the rows it has seen.\<close>

lemma budget_rows_get:
  assumes "\<And>k. hm_get_or (period_usage_default, period_usage_default) totals k = (period_usage_of (sum_rows (D k)), period_usage_of (sum_rows (M k)))"
  shows "hm_get_or (period_usage_default, period_usage_default) (budget_rows day rows totals) k =
    (period_usage_of (sum_rows (D k @ map (\<lambda>(_, _, s). s) (filter (\<lambda>(cell, _). ce_key_id cell = k \<and> ce_bucket cell = day) rows))),
     period_usage_of (sum_rows (M k @ map (\<lambda>(_, _, s). s) (filter (\<lambda>(cell, _). ce_key_id cell = k) rows))))"
  using assms
proof (induction rows arbitrary: totals D M)
  case Nil
  then show ?case by simp
next
  case (Cons row rows)
  obtain cell name s where row: "row = (cell, name, s)" using prod_cases3 by blast
  let ?k = "ce_key_id cell"
  define D' where "D' = (\<lambda>k. if k = ?k \<and> ce_bucket cell = day then D k @ [s] else D k)"
  define M' where "M' = (\<lambda>k. if k = ?k then M k @ [s] else M k)"
  define totals' where "totals' = hm_insert ?k (if ce_bucket cell = day then period_usage_add (period_usage_of (sum_rows (D ?k))) s
      else period_usage_of (sum_rows (D ?k)), period_usage_add (period_usage_of (sum_rows (M ?k))) s) totals"
  have step: "budget_rows day (row # rows) totals = budget_rows day rows totals'"
    by (simp add: row Cons.prems totals'_def)
  have "hm_get_or (period_usage_default, period_usage_default) totals' k = (period_usage_of (sum_rows (D' k)), period_usage_of (sum_rows (M' k)))" for k
    by (simp add: totals'_def Cons.prems D'_def M'_def period_usage_snoc)
  from Cons.IH [of totals' D' M', OF this] show ?case
    unfolding step by (auto simp: row D'_def M'_def)
qed

lemma budget_keys_map:
  "distinct (map ak_id keys) \<Longrightarrow> budget_keys keys totals = map (\<lambda>key.
     (let (d, m) = hm_get_or (period_usage_default, period_usage_default) totals (ak_id key)
      in \<lparr> bk_id = ak_id key, bk_name = ak_name key, bk_enabled = ak_enabled key, bk_daily_budget = ak_daily_token_budget key,
           bk_monthly_budget = ak_monthly_token_budget key, bk_day = d, bk_month = m, bk_quota = key_quota_default \<rparr>)) keys"
proof (induction keys arbitrary: totals)
  case Nil
  then show ?case by simp
next
  case (Cons key keys)
  have "hm_get_or x (hm_remove (ak_id key) totals) (ak_id k) = hm_get_or x totals (ak_id k)" if "k \<in> set keys" for k x
    using that Cons.prems by (auto simp: hm_get_or_remove)
  then show ?case using Cons by (auto simp: Let_def split: prod.split intro!: map_cong)
qed

section \<open>Latencies\<close>

lemma histogram_ok_observe_all: "histogram_ok (observe_all vs)"
  by (induction vs rule: rev_induct) (simp_all add: observe_all_def histograms.ok_zero observe_ok)

lemma merge_observation: "merge (observe v histogram_default) h = (if histogram_ok h then observe v h else merge (observe v histogram_default) h)"
  by (simp add: merge_def observe_def histogram_default_def sat_add_def histogram_ok_def max.commute)

lemma merge_nothing: "histogram_ok h \<Longrightarrow> merge histogram_default h = h"
  by (simp add: merge_def histogram_default_def sat_add_def histogram_ok_def)

lemma observe_snoc: "observe v (observe_all vs) = observe_all (vs @ [v])"
  by (simp add: observe_all_def)

definition served :: "usage_record \<Rightarrow> bool" where
  "served r \<longleftrightarrow> ud_forwarded r \<and> ud_outcome r = ''success''"

text \<open>The histograms of an aggregate are those of the latencies of its records.\<close>

lemma aggregate_histograms:
  "ag_duration (accumulate aggregate_merge aggregate_default (map aggregate_record rs)) = observe_all (map ud_duration_ms (filter served rs))
   \<and> ag_queue (accumulate aggregate_merge aggregate_default (map aggregate_record rs)) = observe_all (map ud_queue_ms (filter ud_queue_entered rs))
   \<and> ag_first_output (accumulate aggregate_merge aggregate_default (map aggregate_record rs))
       = observe_all (List.map_filter ud_first_output_ms (filter served rs))"
proof (induction rs rule: rev_induct)
  case Nil
  then show ?case by (simp add: aggregate_default_def observe_all_def)
next
  case (snoc r rs)
  have m: "merge (observe v histogram_default) (observe_all vs) = observe_all (vs @ [v])"
    "merge histogram_default (observe_all vs) = observe_all vs" for v vs
    using merge_observation [of v "observe_all vs"] merge_nothing [of "observe_all vs"] histogram_ok_observe_all [of vs]
    by (simp_all add: observe_snoc)
  have r: "ag_duration (aggregate_record r) = (if served r then observe (ud_duration_ms r) histogram_default else histogram_default)"
    "ag_queue (aggregate_record r) = (if ud_queue_entered r then observe (ud_queue_ms r) histogram_default else histogram_default)"
    "ag_first_output (aggregate_record r) = (case (if served r then ud_first_output_ms r else None) of
       None \<Rightarrow> histogram_default | Some ms \<Rightarrow> observe ms histogram_default)"
    by (auto simp: aggregate_record_def aggregate_default_def served_def Let_def split: option.splits)
  show ?case
    using snoc by (auto simp: aggregate_merge_def r m map_filter_def split: option.splits)
qed

text \<open>What it means for reported percentiles to be close to those of the values.\<close>

definition percentile_near :: "nat list \<Rightarrow> nat \<Rightarrow> nat option \<Rightarrow> bool" where
  "percentile_near vs percent p \<longleftrightarrow>
     (case p of
        None \<Rightarrow> vs = []
      | Some x \<Rightarrow> vs \<noteq> [] \<and> (let y = sort vs ! (div_ceil (length vs * percent) 100 - 1) in y \<le> x \<and> x \<le> y + y div 16))"

lemma percentile_near_observe:
  assumes "length vs \<le> u64_max" "\<forall>v \<in> set vs. v \<le> u64_max" "1 \<le> percent" "percent \<le> 100"
  shows "percentile_near vs percent (percentile percent (observe_all vs))"
proof (cases "vs = []")
  case True
  then show ?thesis by (simp add: percentile_near_def percentile_def observe_all_def histogram_default_def)
next
  case False
  then show ?thesis using percentile_accurate [OF False assms refl] by (auto simp: percentile_near_def Let_def)
qed

section \<open>The tables and the events\<close>

text \<open>Rows of the daily table that retention has not reached add up to the records they stand for.\<close>

lemma daily_sums:
  assumes "reach db_init db_step (low, low_hour, db)" "\<And>cell. P cell \<Longrightarrow> low \<le> ce_bucket cell"
  shows "sum_rows (map (\<lambda>(_, _, v). v) (filter (\<lambda>(cell, _). P cell) (db_daily db)))
    = sum_rows (map summary_record (filter (\<lambda>r. P (cell_of DAY_MS r)) (db_records db)))"
  using summaries.cells_sum [of summary_record "\<lambda>_. True" DAY_MS low "db_daily db" "db_records db" P]
    usage_database.reach_inv [OF assms(1), unfolded db_inv_def, simplified] assms(2)
  by (fastforce simp: list_all_iff)

lemma selected_bucket: "selects q cell \<Longrightarrow> uq_from q \<le> ce_bucket cell"
  by (simp add: selects_def)

lemma row_label_record:
  assumes "i < 5" "fst row = cell_of DAY_MS r"
  shows "fst (row_label i row) = record_label i r"
  using assms(2) row_label_id [OF assms(1)] by (cases row) (simp add: row_label_def record_label_def)

lemma report_labels:
  assumes "reach db_init db_step (low, low_hour, db)" "low \<le> uq_from q" "i < 5"
  shows "(\<lambda>row. fst (row_label i row)) ` set (filter (\<lambda>(cell, _). selects q cell) (db_daily db))
    = record_label i ` set (selected_records q db)"
proof -
  note inv = usage_database.reach_inv [OF assms(1), unfolded db_inv_def, simplified]
  let ?rows = "filter (\<lambda>(cell, _). selects q cell) (db_daily db)"
  have pres: "cell \<in> fst ` set (db_daily db) \<longleftrightarrow> cell \<in> cell_of DAY_MS ` set (db_records db)" if "selects q cell" for cell
    using cells_present [of summary_add summary_default summary_record "\<lambda>_. True" DAY_MS low "db_daily db" "db_records db" cell]
      inv assms(2) that by (auto simp: selects_def)
  have "fst ` set ?rows = {cell \<in> fst ` set (db_daily db). selects q cell}" by force
  also have "\<dots> = {cell \<in> cell_of DAY_MS ` set (db_records db). selects q cell}"
    by (rule Collect_cong) (use pres in blast)
  also have "\<dots> = cell_of DAY_MS ` set (selected_records q db)" by (auto simp: selected_records_def)
  finally have "fst ` set ?rows = cell_of DAY_MS ` set (selected_records q db)" .
  moreover have "(\<lambda>row. fst (row_label i row)) ` set ?rows = (\<lambda>cell. fst (row_labels cell [] ! i)) ` fst ` set ?rows"
    using row_label_id [OF assms(3)] by (force simp: row_label_def image_iff)
  moreover have "record_label i ` set rs = (\<lambda>cell. fst (row_labels cell [] ! i)) ` cell_of DAY_MS ` set rs" for rs
    using row_label_id [OF assms(3)] by (force simp: record_label_def image_iff)
  ultimately show ?thesis by simp
qed

lemma report_group:
  assumes "reach db_init db_step (low, low_hour, db)" "low \<le> uq_from q" "i < 5"
  defines "rows \<equiv> filter (\<lambda>(cell, _). selects q cell) (db_daily db)"
  shows "map (\<lambda>k. (k, sum_rows (map (\<lambda>(_, _, v). v) (filter (\<lambda>row. fst (row_label i row) = k) rows))))
      (sorted_list_of_set ((\<lambda>row. fst (row_label i row)) ` set rows))
    = map (\<lambda>k. (k, sum_rows (map summary_record (filter (\<lambda>r. record_label i r = k) (selected_records q db)))))
      (sorted_list_of_set (record_label i ` set (selected_records q db)))"
proof -
  have "sum_rows (map (\<lambda>(_, _, v). v) (filter (\<lambda>row. fst (row_label i row) = k) rows))
    = sum_rows (map summary_record (filter (\<lambda>r. record_label i r = k) (selected_records q db)))" for k
  proof -
    let ?P = "\<lambda>cell. selects q cell \<and> fst (row_labels cell [] ! i) = k"
    have "filter (\<lambda>row. fst (row_label i row) = k) rows = filter (\<lambda>(cell, _). ?P cell) (db_daily db)"
      using row_label_id [OF assms(3)] by (auto simp: rows_def row_label_def intro!: filter_cong)
    moreover have "filter (\<lambda>r. record_label i r = k) (selected_records q db) = filter (\<lambda>r. ?P (cell_of DAY_MS r)) (db_records db)"
      using row_label_id [OF assms(3)] by (auto simp: record_label_def selected_records_def intro!: filter_cong)
    ultimately show ?thesis
      using daily_sums [OF assms(1), of ?P] assms(2) selected_bucket by fastforce
  qed
  then show ?thesis unfolding rows_def report_labels [OF assms(1-3)] by simp
qed

lemma budget_query_exact:
  assumes "reach db_init db_step (low, low_hour, db)" "low \<le> month" "month \<le> day" "distinct (map ak_id keys)"
  defines "use_of \<equiv> \<lambda>key P. period_usage_of (sum_rows (map summary_record
     (filter (\<lambda>r. ud_key_id r = ak_id key \<and> ud_kind r \<noteq> ''count'' \<and> P (bucket_of DAY_MS r)) (db_records db))))"
  shows "budget_query keys day month db = map (\<lambda>key.
     \<lparr> bk_id = ak_id key, bk_name = ak_name key, bk_enabled = ak_enabled key, bk_daily_budget = ak_daily_token_budget key,
       bk_monthly_budget = ak_monthly_token_budget key, bk_day = use_of key (\<lambda>b. b = day),
       bk_month = use_of key (\<lambda>b. month \<le> b \<and> b < day + DAY_MS), bk_quota = key_quota_default \<rparr>) keys"
proof -
  let ?sel = "\<lambda>cell. month \<le> ce_bucket cell \<and> ce_bucket cell < day + DAY_MS \<and> ce_kind cell \<noteq> ''count''"
  let ?rows = "filter (\<lambda>(cell, _). ?sel cell) (db_daily db)"
  have sums: "sum_rows (map (\<lambda>(_, _, s). s) (filter (\<lambda>(cell, _). P cell) (db_daily db)))
    = sum_rows (map summary_record (filter (\<lambda>r. P (cell_of DAY_MS r)) (db_records db)))" if "\<And>cell. P cell \<Longrightarrow> ?sel cell" for P
    using daily_sums [OF assms(1), of P] assms(2) that by fastforce
  have get: "hm_get_or (period_usage_default, period_usage_default) (budget_rows day ?rows []) (ak_id key)
    = (use_of key (\<lambda>b. b = day), use_of key (\<lambda>b. month \<le> b \<and> b < day + DAY_MS))" for key
  proof -
    have "filter (\<lambda>(cell, _). ce_key_id cell = ak_id key \<and> ce_bucket cell = day) ?rows
      = filter (\<lambda>(cell, _). ?sel cell \<and> ce_key_id cell = ak_id key \<and> ce_bucket cell = day) (db_daily db)"
      "filter (\<lambda>(cell, _). ce_key_id cell = ak_id key) ?rows = filter (\<lambda>(cell, _). ?sel cell \<and> ce_key_id cell = ak_id key) (db_daily db)"
      by (auto intro!: filter_cong)
    moreover have "filter (\<lambda>r. ?sel (cell_of DAY_MS r) \<and> ce_key_id (cell_of DAY_MS r) = ak_id key \<and> ce_bucket (cell_of DAY_MS r) = day) (db_records db)
      = filter (\<lambda>r. ud_key_id r = ak_id key \<and> ud_kind r \<noteq> ''count'' \<and> bucket_of DAY_MS r = day) (db_records db)"
      using assms(3) day_positive by (auto simp: cell_of_def intro!: filter_cong)
    moreover have "filter (\<lambda>r. ?sel (cell_of DAY_MS r) \<and> ce_key_id (cell_of DAY_MS r) = ak_id key) (db_records db)
      = filter (\<lambda>r. ud_key_id r = ak_id key \<and> ud_kind r \<noteq> ''count'' \<and> month \<le> bucket_of DAY_MS r \<and> bucket_of DAY_MS r < day + DAY_MS) (db_records db)"
      by (auto simp: cell_of_def intro!: filter_cong)
    moreover have "hm_get_or (period_usage_default, period_usage_default) [] k
      = (period_usage_of (sum_rows []), period_usage_of (sum_rows []))" for k :: string
      by (simp add: hm_get_or_def period_usage_default)
    note budget_rows_get [of "[]" "\<lambda>_. []" "\<lambda>_. []", OF this, of day ?rows "ak_id key"]
    ultimately show ?thesis
      using sums [of "\<lambda>cell. ?sel cell \<and> ce_key_id cell = ak_id key \<and> ce_bucket cell = day"]
        sums [of "\<lambda>cell. ?sel cell \<and> ce_key_id cell = ak_id key"] by (simp add: use_of_def)
  qed
  show ?thesis unfolding budget_query_def budget_keys_map [OF assms(4)] get by simp
qed

section \<open>A concrete query\<close>

definition demo_query :: usage_query where
  "demo_query = \<lparr> uq_from = 0, uq_to = DAY_MS, uq_key_id = None, uq_model = None, uq_instance_id = None, uq_endpoint = None,
     uq_kind = None \<rparr>"

definition demo_requests :: request_query where
  "demo_requests = \<lparr> qy_filters = demo_query, qy_outcome = None, qy_failure_code = None, qy_request_id = None,
     qy_min_duration_ms = None, qy_min_queue_ms = None, qy_min_first_output_ms = None, qy_cursor = None \<rparr>"

lemma demo_record_fields:
  "ud_completed_at demo_record = 0" "ud_kind demo_record = ''generation''" "ud_duration_ms demo_record = 0"
  "ud_queue_ms demo_record = 0" "ud_first_output_ms demo_record = None" "ud_key_id demo_record = ''unauthenticated''"
  by (simp_all add: demo_record_def demo_handle_def usage_handle_new_def usage_from_path_def)

text \<open>
  A row id is used again when the latest events have been deleted: a request recorded afterwards is
  then within the snapshot of pages that were opened before the deletion.
\<close>

definition late_record :: usage_record where
  "late_record = demo_record\<lparr> ud_request_id := ''later'', ud_completed_at := 5 \<rparr>"

definition reused_db :: usage_db where
  "reused_db = fst (write_batch clean_batch [late_record] (fst (clear_router_usage None Committed 0 0 DAY_MS demo_db)))"

lemma demo_db_events:
  "db_events demo_db = [\<lparr> ev_rowid = 1, ev_day = 0, ev_record = demo_record \<rparr>]" "db_deletions demo_db = []"
  by (simp_all add: demo_db_def clean_write apply_insert_def absorbed_def is_deleted_def has_event_def usage_db_empty_def
    insert_event_def next_rowid_def bucket_of_def demo_record_fields)

lemma rowid_reused: "rows_upto (request_snapshot demo_requests demo_db) reused_db = [late_record]"
proof -
  let ?db = "fst (clear_router_usage None Committed 0 0 DAY_MS demo_db)"
  have db: "db_events ?db = []" "db_deletions ?db = [(0, DAY_MS, 0)]"
    by (simp_all add: clear_router_usage_def performance_clear_def validate_range_def demo_db_events DAY_MS_def SUMMARY_DAYS_def map_filter_def Let_def)
  then have "\<not> absorbed ?db late_record"
    by (simp add: absorbed_def is_deleted_def has_event_def late_record_def)
  then have "db_events (apply_insert late_record ?db) = [\<lparr> ev_rowid = 1, ev_day = bucket_of DAY_MS late_record, ev_record = late_record \<rparr>]"
    by (simp add: insert_events db next_rowid_def)
  then show ?thesis
    by (simp add: reused_db_def clean_write rows_upto_def request_snapshot_def demo_requests_def demo_db_events)
qed

lemma demo_query_valid: "validate_range True demo_query = None"
  by (simp add: validate_range_def demo_query_def DAY_MS_def SUMMARY_DAYS_def map_filter_def)

text \<open>A database with one record.\<close>

definition single_db :: "usage_record \<Rightarrow> usage_db" where
  "single_db r = fst (write_batch clean_batch [r] usage_db_empty)"

lemma single_db_rows:
  "db_records (single_db r) = [r]" "db_sessions (single_db r) = []" "db_writers (single_db r) = []"
  "db_daily (single_db r) = [(cell_of DAY_MS r, ud_key_name r, summary_add summary_default (summary_record r))]"
  "length (db_perf_daily (single_db r)) \<le> 1" "length (db_perf_hourly (single_db r)) \<le> 1"
  by (simp_all add: single_db_def clean_write apply_insert_def absorbed_def is_deleted_def has_event_def usage_db_empty_def
    insert_event_def daily_record_def performance_record_def add_to_cell_def db_records_def Let_def)

lemma single_db_reached: "reach db_init db_step (0, 0, single_db r)"
proof -
  have "reach db_init db_step (0, 0, usage_db_empty)" by (rule reach_init) (simp add: db_init_def)
  then show ?thesis
    using step_write [of 0 0 usage_db_empty clean_batch "[r]"] by (auto simp: single_db_def intro: reach_step)
qed

lemma performance_rows_short: "length table \<le> 1 \<Longrightarrow> performance_rows table q = Inr (filter (\<lambda>(cell, _). selects q cell) table)"
  using le_trans [OF length_filter_le [of "\<lambda>(cell, _). selects q cell" table], of 1] by (simp add: performance_rows_def Let_def)

definition served_record :: usage_record where
  "served_record = demo_record\<lparr> ud_forwarded := True, ud_outcome := ''success'', ud_duration_ms := 100, ud_quality := ''unknown'' \<rparr>"

lemma served_record_fields:
  "ud_completed_at served_record = 0" "ud_kind served_record = ''generation''" "ud_duration_ms served_record = 100"
  "ud_queue_ms served_record = 0" "ud_first_output_ms served_record = None" "ud_key_id served_record = ''unauthenticated''"
  "ud_quality served_record = ''unknown''" "ud_forwarded served_record" "ud_outcome served_record = ''success''"
  "bucket_of width served_record = 0"
  by (simp_all add: served_record_def demo_record_fields bucket_of_def)

lemma served_selected: "selected_records demo_query (single_db served_record) = [served_record]"
  by (simp add: selected_records_def single_db_rows selects_def demo_query_def cell_of_def served_record_fields
    DAY_MS_def opt_matches_def)

lemma budgets_answer:
  assumes "db_sessions db = []"
  shows "\<exists>rep. get_router_budgets (\<lambda>_. Inr 0) probe reread (Inr sizes) keys 5 lg db = Inr rep
    \<and> br_day_from rep = 0 \<and> br_month_from rep = 0"
  by (cases "writer_errors db")
    (simp add: get_router_budgets_def periods_def report_def inspect_health_def assms DAY_MS_def Let_def)

section \<open>Properties\<close>

text \<open>
  C34. The usage report is exact: from a database in any reachable state, for a range that retention has
  not reached, the totals are the sums over exactly the stored requests that the query selects, each
  of the five groupings (keys, models, instances, days, endpoints) has one group for every label
  among these requests, in order, with exactly the sum of its requests, and the list of recent requests
  has the latest hundred of them.
\<close>

theorem usage_report_exact:
  assumes "reach db_init db_step (low, low_hour, db)" and rep: "get_router_usage probe reread now q db = Inr rep" and "low \<le> uq_from q"
  defines "sum_of \<equiv> \<lambda>rs. accumulate summary_add summary_default (map summary_record rs)"
  shows "rp_summary rep = sum_of (selected_records q db)
    \<and> (\<forall>i < 5. map (\<lambda>g. (gp_id g, gp_summary g)) (rp_groups rep ! i) =
         map (\<lambda>k. (k, sum_of (filter (\<lambda>r. record_label i r = k) (selected_records q db))))
           (sorted_list_of_set (record_label i ` set (selected_records q db))))
    \<and> rp_recent rep = take 100 (latest_first (selected_records q db))"
proof -
  note inv = usage_database.reach_inv [OF assms(1), unfolded db_inv_def, simplified]
  let ?rows = "filter (\<lambda>(cell, _). selects q cell) (db_daily db)"
  obtain t gs where loop: "report_rows 0 ?rows (summary_default, replicate 5 []) = Inr (t, gs)"
    and r: "rp_summary rep = t" "rp_groups rep = map (map (\<lambda>(i, name, s). \<lparr> gp_id = i, gp_name = name, gp_summary = s \<rparr>)) gs"
      "rp_recent rep = take 100 (latest_first (selected_events q db))"
    using rep by (auto simp: get_router_usage_def usage_report_query_def Let_def split: option.splits sum.splits prod.splits)
  note spec = report_rows_Inr [OF loop]
  have tot: "t = sum_of (selected_records q db)"
    using spec daily_sums [OF assms(1), of "selects q"] assms(3) selected_bucket [of q]
    by (fastforce simp: selected_records_def sum_of_def accumulate_def fold_map comp_def case_prod_unfold)
  have group: "map (\<lambda>g. (gp_id g, gp_summary g)) (rp_groups rep ! i) =
         map (\<lambda>k. (k, sum_of (filter (\<lambda>r. record_label i r = k) (selected_records q db))))
           (sorted_list_of_set (record_label i ` set (selected_records q db)))" if i: "i < 5" for i
  proof -
    have "map (\<lambda>g. (gp_id g, gp_summary g)) (rp_groups rep ! i) = map (\<lambda>(k, v). (k, snd v)) (gs ! i)"
      using spec i by (simp add: r(2) comp_def case_prod_unfold)
    also have "\<dots> = map (\<lambda>k. (k, sum_rows (map (\<lambda>(_, _, v). v) (filter (\<lambda>row. fst (row_label i row) = k) ?rows))))
      (sorted_list_of_set ((\<lambda>row. fst (row_label i row)) ` set ?rows))"
      using spec i group_sums [of "\<lambda>row. group_entry (snd (row_label i row)) (snd (snd row))" summary_add summary_default
          "\<lambda>(_, _, v). v" "\<lambda>row. fst (row_label i row)" ?rows]
      by (simp add: group_entry_sum case_prod_unfold)
    finally show ?thesis using report_group [OF assms(1,3) i] by (simp add: sum_of_def)
  qed
  show ?thesis using r(1,3) tot group selected_events_records inv by simp
qed

text \<open>
  C35. Paging is exact: a client that follows the cursors gets every request that matched when it read
  the first page exactly once, latest first, although requests are recorded between the pages; enough
  pages are one for every fifty matches.
\<close>

theorem pages_complete:
  assumes "reach db_init db_step (low, low_hour, db)" "qy_cursor q = None" "\<forall>db' \<in> set dbs. writes\<^sup>*\<^sup>* db db'"
    and enough: "length (filter (request_matches q) (db_records db)) \<le> 50 * Suc (length dbs)"
  shows "walk_pages (db # dbs) q = latest_first (filter (request_matches q) (db_records db))
    \<and> sorted_wrt (\<lambda>a b. request_key b < request_key a) (walk_pages (db # dbs) q)"
proof -
  note inv = usage_database.reach_inv [OF assms(1), unfolded db_inv_def, simplified]
  let ?M = "latest_first (filter (request_matches q) (db_records db))"
  define snapshot where "snapshot = request_snapshot q db"
  have fresh: "snapshot < int (next_rowid db)" by (simp add: snapshot_def request_snapshot_def assms(2) next_rowid_def)
  have all: "rows_upto snapshot db = db_records db"
    using rowid_fresh [of _ db] by (auto simp: rows_upto_def db_records_def snapshot_def request_snapshot_def assms(2)
      next_rowid_def less_Suc_eq_le intro!: arg_cong [where f = "map ev_record"] filter_True)
  have q: "q\<lparr> qy_cursor := None \<rparr> = q" using assms(2) by simp
  have "distinct (map ud_request_id (filter (request_matches q) (db_records db)))"
    using inv by (simp add: events_ok_def distinct_map_filter)
  then have sorted: "sorted_wrt (\<lambda>a b. request_key b < request_key a) ?M" by (rule latest_first_strict)
  have len: "length ?M = length (filter (request_matches q) (db_records db))" by (simp add: latest_first_def)
  have later: "\<forall>db' \<in> set dbs. rows_upto snapshot db' = db_records db"
    using writes_rows_upto [OF _ fresh] assms(3) all by simp
  have rows: "take 51 (latest_first (filter (request_matches q) (rows_upto snapshot db))) = take 51 ?M" by (simp add: all)
  have "walk_pages (db # dbs) q = ?M"
  proof (cases "50 < length ?M")
    case False
    then show ?thesis
      by (simp add: requests_page_def snapshot_def [symmetric] rows_upto_def [symmetric] all Let_def)
  next
    case True
    have "take 50 ?M \<noteq> []" using True by (cases ?M) auto
    then have last: "last (take 50 ?M) = ?M ! 49" using True by (simp add: last_conv_nth)
    have "walk_pages dbs (q\<lparr> qy_cursor := Some \<lparr> cu_completed_at = ud_completed_at (?M ! (50 - 1)),
       cu_request_id = ud_request_id (?M ! (50 - 1)), cu_snapshot_row_id = snapshot \<rparr> \<rparr>) = drop 50 ?M"
      by (rule walk_from [OF _ sorted later]) (use q True len enough in auto)
    then show ?thesis
      using True last by (simp add: requests_page_def snapshot_def [symmetric] rows_upto_def [symmetric] all Let_def)
  qed
  then show ?thesis using sorted by simp
qed

text \<open>
  C36. The budget report is exact: for keys with distinct ids and a month that retention has not
  reached, every key is listed in order, its use today and this month is the saturating sum of the
  tokens of exactly its stored requests of that period, token counting requests left out, and its quota
  shows the periods of the ledger for the same day and month.
\<close>

theorem budgets_exact:
  assumes "reach db_init db_step (low, low_hour, db)" "distinct (map ak_id keys)"
    and rep: "get_router_budgets month_start probe reread storage keys now lg db = Inr rep"
    and "low \<le> br_month_from rep" "br_month_from rep \<le> br_day_from rep"
  defines "use_of \<equiv> \<lambda>key P. period_usage_of (sum_rows (map summary_record
     (filter (\<lambda>r. ud_key_id r = ak_id key \<and> ud_kind r \<noteq> ''count'' \<and> P (bucket_of DAY_MS r)) (db_records db))))"
  shows "br_keys rep = map (\<lambda>key.
     \<lparr> bk_id = ak_id key, bk_name = ak_name key, bk_enabled = ak_enabled key, bk_daily_budget = ak_daily_token_budget key,
       bk_monthly_budget = ak_monthly_token_budget key, bk_day = use_of key (\<lambda>b. b = br_day_from rep),
       bk_month = use_of key (\<lambda>b. br_month_from rep \<le> b \<and> b < br_day_from rep + DAY_MS),
       bk_quota = \<lparr> kq_daily_limit = ak_daily_token_limit key, kq_monthly_limit = ak_monthly_token_limit key,
         kq_day = period lg (ak_id key) ''day'' (br_day_from rep), kq_month = period lg (ak_id key) ''month'' (br_month_from rep) \<rparr> \<rparr>) keys"
proof -
  obtain day month where p: "periods month_start now = Inr (day, month)"
    using rep by (auto simp: get_router_budgets_def split: sum.splits)
  have from_to: "br_day_from rep = day" "br_month_from rep = month"
    and br_keys: "br_keys rep = map2 (\<lambda>row quota. row\<lparr> bk_quota := quota \<rparr>) (budget_query keys day month db)
      (map (\<lambda>key. \<lparr> kq_daily_limit = ak_daily_token_limit key, kq_monthly_limit = ak_monthly_token_limit key,
         kq_day = period lg (ak_id key) ''day'' day, kq_month = period lg (ak_id key) ''month'' month \<rparr>) keys)
      @ drop (length keys) (budget_query keys day month db)"
    using rep by (auto simp: get_router_budgets_def p report_def Let_def split: sum.splits prod.splits)
  show ?thesis
    using budget_query_exact [OF assms(1) _ _ assms(2), of month day] assms(4,5)
    by (simp add: br_keys from_to use_of_def zip_map_map zip_same_conv_map)
qed

text \<open>
  C37. The latency report is accurate: for a range that retention has not reached, the reported median
  and 95th percentile of the durations and first outputs of the successful requests, and of the
  waiting times of the queued ones, are the exact order statistics over exactly the stored requests that
  the query selects, rounded up by at most one sixteenth, although the report is merged from daily
  histograms; a percentile is absent only when there is no such request.
\<close>

theorem latency_report_accurate:
  assumes "reach db_init db_step (low, low_hour, db)" and rep: "get_router_performance now q db = Inr rep" and "low \<le> uq_from q"
    and records: "\<forall>r \<in> set (db_records db). 0 \<le> ud_completed_at r \<and> ud_duration_ms r \<le> u64_max \<and> ud_queue_ms r \<le> u64_max
      \<and> (\<forall>ms. ud_first_output_ms r = Some ms \<longrightarrow> ms \<le> u64_max)" "length (db_records db) \<le> u64_max"
    and percent: "(percent, p) \<in> {(50, ps_p50), (95, ps_p95)}"
  shows "percentile_near (map ud_duration_ms (filter served (filter not_count (selected_records q db)))) percent (p (pf_duration (pp_summary rep)))
    \<and> percentile_near (map ud_queue_ms (filter ud_queue_entered (filter not_count (selected_records q db)))) percent (p (pf_queue (pp_summary rep)))
    \<and> percentile_near (List.map_filter ud_first_output_ms (filter served (filter not_count (selected_records q db)))) percent
        (p (pf_first_output (pp_summary rep)))"
proof -
  note inv = usage_database.reach_inv [OF assms(1), unfolded db_inv_def, simplified]
  let ?rows = "filter (\<lambda>(cell, _). selects q cell) (db_perf_daily db)"
  let ?rs = "filter not_count (selected_records q db)"
  have "pp_summary rep = aggregate_view (fold (\<lambda>(_, _, a) t. aggregate_merge t a) ?rows aggregate_default)"
    using rep by (auto simp: get_router_performance_def performance_query_def performance_rows_def Let_def
      split: option.splits sum.splits if_splits)
  moreover have "fold (\<lambda>(_, _, a) t. aggregate_merge t a) ?rows aggregate_default
    = accumulate aggregate_merge aggregate_default (map (\<lambda>(_, _, v). v) ?rows)"
    by (simp add: accumulate_def fold_map comp_def case_prod_unfold)
  moreover have "accumulate aggregate_merge aggregate_default (map (\<lambda>(_, _, v). v) ?rows)
    = accumulate aggregate_merge aggregate_default (map aggregate_record ?rs)"
  proof -
    have "list_all aggregate_ok (map aggregate_record (db_records db))"
      using records(1) by (simp add: list_all_iff aggregate_record_ok)
    then have "accumulate aggregate_merge aggregate_default (map (\<lambda>(_, _, v). v) ?rows)
      = accumulate aggregate_merge aggregate_default (map aggregate_record (filter (\<lambda>r. not_count r \<and> selects q (cell_of DAY_MS r)) (db_records db)))"
      using aggregates.cells_sum [of aggregate_record not_count DAY_MS low "db_perf_daily db" "db_records db" "selects q"] inv assms(3)
      by (fastforce simp: selects_def)
    then show ?thesis by (simp add: selected_records_def conj_commute)
  qed
  ultimately have view: "pp_summary rep = aggregate_view (accumulate aggregate_merge aggregate_default (map aggregate_record ?rs))" by simp
  have sub: "set ?rs \<subseteq> set (db_records db)" "length ?rs \<le> u64_max"
    using records(2) le_trans [OF length_filter_le le_trans [OF length_filter_le records(2)]] by (auto simp: selected_records_def)
  have near: "percentile_near vs percent (p (view (observe_all vs)))" if "length vs \<le> u64_max" "\<forall>v \<in> set vs. v \<le> u64_max" for vs
    using percentile_near_observe [OF that, of percent] percent by (auto simp: view_def)
  have len: "length (List.map_filter f xs) \<le> length xs" for f :: "usage_record \<Rightarrow> nat option" and xs
    by (induction xs) (auto simp: map_filter_simps split: option.split)
  show ?thesis
    unfolding view aggregate_view_def performance_summary.simps aggregate_histograms [THEN conjunct1]
      aggregate_histograms [THEN conjunct2, THEN conjunct1] aggregate_histograms [THEN conjunct2, THEN conjunct2]
  proof (intro conjI near)
    show "length (map ud_duration_ms (filter served ?rs)) \<le> u64_max" using le_trans [OF length_filter_le sub(2)] by simp
    show "length (map ud_queue_ms (filter ud_queue_entered ?rs)) \<le> u64_max" using le_trans [OF length_filter_le sub(2)] by simp
    show "length (List.map_filter ud_first_output_ms (filter served ?rs)) \<le> u64_max"
      using le_trans [OF len le_trans [OF length_filter_le sub(2)]] .
  qed (use records(1) sub(1) in \<open>auto simp: map_filter_def\<close>)
qed


theorem usage_report_exact_witness:
  "\<exists>rep. get_router_usage (\<lambda>_. Inr True) (\<lambda>_. False) 9 demo_query (single_db served_record) = Inr rep
     \<and> rp_summary rep = summary_add summary_default (summary_record served_record)"
proof -
  have "\<exists>t gs. report_rows 0 (filter (\<lambda>(cell, _). selects demo_query cell) (db_daily (single_db served_record)))
    (summary_default, replicate 5 []) = Inr (t, gs)"
  proof -
    have five: "replicate 5 [] = ([[], [], [], [], []] :: group_map list)" by (simp add: eval_nat_numeral)
    show ?thesis unfolding five by (simp add: single_db_rows row_labels_def)
  qed
  then obtain rep where rep: "get_router_usage (\<lambda>_. Inr True) (\<lambda>_. False) 9 demo_query (single_db served_record) = Inr rep"
    by (auto simp: get_router_usage_def usage_report_query_def demo_query_valid writer_errors_def inspect_health_def single_db_rows Let_def)
  show ?thesis
    using usage_report_exact [OF single_db_reached rep] rep
    by (simp add: demo_query_def served_selected [unfolded demo_query_def] accumulate_def)
qed

theorem pages_complete_witness: "walk_pages [demo_db, demo_db] demo_requests = latest_first [demo_record]"
proof -
  have "filter (request_matches demo_requests) (db_records demo_db) = [demo_record]"
    by (simp add: demo_db_records request_matches_def demo_requests_def demo_query_def demo_record_fields DAY_MS_def opt_matches_def
      at_least_def)
  then show ?thesis
    using pages_complete [OF demo_db_reached, of demo_requests "[demo_db]"] by (simp add: demo_requests_def)
qed

abbreviation no_files :: "string + quota_storage" where
  "no_files \<equiv> inspect_storage False (Inr 0) (Inr 0) (\<lambda>_. Inr None)"

theorem budgets_exact_witness:
  "\<exists>rep. get_router_budgets (\<lambda>_. Inr 0) (\<lambda>_. Inr True) (\<lambda>_. False) no_files
       [(proxy_api_key_default ''k'')\<lparr> ak_id := ''unauthenticated'' \<rparr>] 5 \<lparr> lg_periods = [], lg_requests = [] \<rparr> (single_db served_record) = Inr rep
     \<and> map (\<lambda>b. bk_day b) (br_keys rep) = [period_usage_of (summary_add summary_default (summary_record served_record))]"
proof -
  define keys where "keys = [(proxy_api_key_default ''k'')\<lparr> ak_id := ''unauthenticated'' \<rparr>]"
  define lg :: ledger where "lg = \<lparr> lg_periods = [], lg_requests = [] \<rparr>"
  define use_today where "use_today = (\<lambda>i. period_usage_of (sum_rows (map summary_record
    (filter (\<lambda>r. ud_key_id r = i \<and> ud_kind r \<noteq> ''count'' \<and> bucket_of DAY_MS r = 0) (db_records (single_db served_record))))))"
  have ids: "map ak_id keys = [''unauthenticated'']" by (simp add: keys_def)
  have "\<exists>sizes. no_files = Inr sizes" by (simp add: inspect_storage_def)
  then obtain sizes where sizes: "no_files = Inr sizes" ..
  obtain rep where rep: "get_router_budgets (\<lambda>_. Inr 0) (\<lambda>_. Inr True) (\<lambda>_. False) no_files keys 5 lg
      (single_db served_record) = Inr rep" "br_day_from rep = 0" "br_month_from rep = 0"
    using budgets_answer [OF single_db_rows(2)] unfolding sizes by metis
  have d: "distinct (map ak_id keys)" by (simp add: ids)
  have m: "0 \<le> br_month_from rep" "br_month_from rep \<le> br_day_from rep" by (simp_all add: rep(2,3))
  have "map (\<lambda>b. bk_day b) (br_keys rep) = map (\<lambda>key. use_today (ak_id key)) keys"
    unfolding budgets_exact [OF single_db_reached d rep(1) m] rep(2) use_today_def map_map comp_def budget_key.simps ..
  also have "\<dots> = map use_today (map ak_id keys)" by simp
  also have "\<dots> = [use_today ''unauthenticated'']" unfolding ids list.map ..
  also have "use_today ''unauthenticated'' = period_usage_of (summary_add summary_default (summary_record served_record))"
  proof -
    have chosen: "filter (\<lambda>r. ud_key_id r = ''unauthenticated'' \<and> ud_kind r \<noteq> ''count'' \<and> bucket_of DAY_MS r = 0)
      (db_records (single_db served_record)) = [served_record]"
      by (simp add: served_record_fields single_db_rows(1))
    have added: "sum_rows (map summary_record [served_record]) = summary_add summary_default (summary_record served_record)"
      by (simp add: accumulate_def)
    show ?thesis unfolding use_today_def chosen added ..
  qed
  finally show ?thesis
    by (intro exI [where x = rep] conjI) (simp only: rep(1) [unfolded keys_def lg_def])
qed

theorem latency_report_accurate_witness:
  "\<exists>rep ms. get_router_performance 9 demo_query (single_db served_record) = Inr rep
     \<and> ps_p95 (pf_duration (pp_summary rep)) = Some ms \<and> 100 \<le> ms \<and> ms \<le> 106"
proof -
  let ?db = "single_db served_record"
  have width: "period_width 9 demo_query = HOUR_MS" "HOUR_MS \<noteq> DAY_MS"
    by (simp_all add: period_width_def demo_query_def DAY_MS_def HOUR_MS_def HOURLY_DAYS_def)
  obtain rep where rep: "get_router_performance 9 demo_query ?db = Inr rep"
    by (simp add: get_router_performance_def performance_query_def demo_query_valid
      performance_rows_short [OF single_db_rows(5)] performance_rows_short [OF single_db_rows(6)] width Let_def)
  have "percentile_near [100] 95 (ps_p95 (pf_duration (pp_summary rep)))"
    using latency_report_accurate [OF single_db_reached rep, of 95 ps_p95]
    by (simp add: demo_query_def served_selected [unfolded demo_query_def] single_db_rows served_record_fields served_def)
  then show ?thesis
    using rep by (auto simp: percentile_near_def div_ceil_def split: option.splits)
qed

end
