(* ===== verification/Usage_Writer.thy ===== *)
theory Usage_Writer
  imports Usage_Tables Atomic_Budget
begin

text \<open>
  The writer of the usage database (\<open>src-tauri/src/commands/usage_store.rs\<close>): \<open>begin_recording\<close>, \<open>record\<close>,
  \<open>flush\<close> and \<open>shutdown\<close> on any number of threads, the bounded queue, and the writer thread with its
  batches, retries, counters and the row of its session (\<open>usage_health.rs\<close>).  Every atomic access,
  channel operation and database statement is a step of its own, and the steps of all threads and of
  other users of the database interleave freely.  Relaxed atomics are modelled as sequentially
  consistent.

  A record is named by its position in \<open>ws_handed\<close>.  \<open>ws_open\<close>, \<open>ws_handed\<close>, \<open>ws_stored\<close>, \<open>ws_lost\<close>,
  \<open>ws_vanished\<close>, \<open>ws_log\<close>, \<open>ws_taken\<close>, \<open>ws_replies\<close> and \<open>ws_closed\<close> observe the program and steer nothing.
\<close>

definition QUEUE_CAPACITY :: nat where "QUEUE_CAPACITY = 8192"
definition WRITE_BATCH :: nat where "WRITE_BATCH = 128"
definition PRUNE_INTERVAL_MS :: int where "PRUNE_INTERVAL_MS = 900000"

section \<open>State\<close>

datatype write_msg = WStart | WRecord nat | WFlush nat | WShutdown nat

text \<open>The records among messages.\<close>

fun queued :: "write_msg list \<Rightarrow> nat list" where
  "queued [] = []"
| "queued (WRecord k # q) = k # queued q"
| "queued (_ # q) = queued q"

text \<open>Where a call of \<open>record\<close> is: before the step it is named after.\<close>

datatype recorder = RCount nat | RActive nat | RSend nat | RUndo nat | RDrop nat

record job =
  jb_records :: "nat list"
  jb_flush :: "nat option"
  jb_closing :: bool

text \<open>Where the writer thread is; \<open>Closing\<close> holds the two values it has loaded.\<close>

datatype phase =
  NoWriter
| Waiting
| Gathering "nat list"
| Opening job
| Writing job bool
| Failed job string
| Written job "string + unit"
| Pruning job "string + unit"
| Health job "string + unit" int
| Checking job "string + unit" int
| Checked job "string + unit" int nat
| Closing job "string + unit" int nat bool nat
| Replying job "string + unit"
| Stopped

record writer_state =
  ws_days :: "int \<times> int \<times> usage_db"
  ws_threads :: "recorder list"
  ws_queue :: "write_msg list"
  ws_active :: nat
  ws_pending :: nat
  ws_dropped :: nat
  ws_errors :: nat
  ws_phase :: phase
  ws_conn :: bool
  ws_session :: "string option"
  ws_last_error :: "string option"
  ws_last_prune :: int
  ws_open :: nat
  ws_handed :: "usage_record list"
  ws_stored :: "nat list"
  ws_lost :: "nat list"
  ws_vanished :: "nat list"
  ws_log :: "write_msg list"
  ws_taken :: nat
  ws_replies :: "(nat \<times> (string + unit)) list"
  ws_closed :: "nat option"

definition ws_start :: "int \<times> int \<times> usage_db \<Rightarrow> writer_state" where
  "ws_start days = \<lparr> ws_days = days, ws_threads = [], ws_queue = [], ws_active = 0, ws_pending = 0, ws_dropped = 0,
     ws_errors = 0, ws_phase = NoWriter, ws_conn = False, ws_session = None, ws_last_error = None, ws_last_prune = 0,
     ws_open = 0, ws_handed = [], ws_stored = [], ws_lost = [], ws_vanished = [], ws_log = [], ws_taken = 0,
     ws_replies = [], ws_closed = None \<rparr>"

definition fetch_add :: "nat \<Rightarrow> nat \<Rightarrow> nat" where
  "fetch_add c a = (c + a) mod 2 ^ 64"

section \<open>Recording\<close>

definition begin_recording :: "writer_state \<Rightarrow> writer_state" where
  "begin_recording s = s\<lparr> ws_active := fetch_add (ws_active s) 1, ws_open := ws_open s + 1 \<rparr>"

text \<open>\<open>writer\<close>: the first call starts the thread; the queue is empty then and takes \<open>Start\<close>.\<close>

definition start_writer :: "writer_state \<Rightarrow> writer_state" where
  "start_writer s =
     (if ws_phase s = NoWriter then s\<lparr> ws_phase := Waiting, ws_queue := [WStart], ws_log := ws_log s @ [WStart] \<rparr> else s)"

definition accepts :: "writer_state \<Rightarrow> bool" where
  "accepts s \<longleftrightarrow> ws_phase s \<noteq> NoWriter \<and> ws_phase s \<noteq> Stopped \<and> length (ws_queue s) < QUEUE_CAPACITY"

definition enqueue_write :: "write_msg \<Rightarrow> writer_state \<Rightarrow> writer_state" where
  "enqueue_write m s = s\<lparr> ws_queue := ws_queue s @ [m], ws_log := ws_log s @ [m] \<rparr>"

definition hand_over :: "usage_record \<Rightarrow> writer_state \<Rightarrow> writer_state" where
  "hand_over r s = s\<lparr> ws_open := ws_open s - 1, ws_handed := ws_handed s @ [r],
     ws_threads := ws_threads s @ [RCount (length (ws_handed s))] \<rparr>"

text \<open>One step of \<open>record\<close>; a send that is refused (or a writer that cannot start) gives the record up.\<close>

fun recorder_step :: "recorder \<Rightarrow> writer_state \<Rightarrow> recorder option \<times> writer_state" where
  "recorder_step (RCount k) s = (Some (RActive k), s\<lparr> ws_pending := fetch_add (ws_pending s) 1 \<rparr>)"
| "recorder_step (RActive k) s = (Some (RSend k), s\<lparr> ws_active := ws_active s - 1 \<rparr>)"
| "recorder_step (RSend k) s =
     (if accepts s then (None, enqueue_write (WRecord k) s) else (Some (RUndo k), s\<lparr> ws_lost := ws_lost s @ [k] \<rparr>))"
| "recorder_step (RUndo k) s = (Some (RDrop k), s\<lparr> ws_pending := fetch_sub (ws_pending s) 1 \<rparr>)"
| "recorder_step (RDrop k) s = (None, s\<lparr> ws_dropped := fetch_add (ws_dropped s) 1 \<rparr>)"

definition record_at :: "nat \<Rightarrow> writer_state \<Rightarrow> writer_state" where
  "record_at i s =
     (case recorder_step (ws_threads s ! i) s of
        (Some r, s') \<Rightarrow> s'\<lparr> ws_threads := (ws_threads s)[i := r] \<rparr>
      | (None, s') \<Rightarrow> s'\<lparr> ws_threads := take i (ws_threads s) @ drop (Suc i) (ws_threads s) \<rparr>)"

text \<open>
  \<open>drain\<close> up to its wait for the reply: the answer it gives at once, if any.  \<open>i\<close> names the reply channel.
\<close>

definition drain :: "bool \<Rightarrow> nat \<Rightarrow> writer_state \<Rightarrow> writer_state \<times> (string + unit) option" where
  "drain closing i s =
     (if ws_phase s = NoWriter then (s, Some (Inr ()))
      else if accepts s then (enqueue_write (if closing then WShutdown i else WFlush i) s, None)
      else (s, Some (Inl (if ws_phase s = Stopped then ''sending on a closed channel'' else ''sending on a full channel''))))"

section \<open>The writer thread\<close>

text \<open>What the world answers to the writer: time-outs, opening the database, the lock file of a session, statements, clocks.\<close>

record writer_input =
  wi_timeout :: bool
  wi_open :: "string option"
  wi_session :: "string + string"
  wi_update :: "string option"
  wi_batch :: batch_env
  wi_now :: int
  wi_prune_begin :: "string option"
  wi_prune_commit :: commit_outcome
  wi_health :: "string option"

definition note_error :: "string option \<Rightarrow> writer_state \<Rightarrow> writer_state" where
  "note_error e s = (case e of None \<Rightarrow> s | Some x \<Rightarrow> s\<lparr> ws_last_error := Some x \<rparr>)"

definition on_db :: "(usage_db \<Rightarrow> usage_db) \<Rightarrow> writer_state \<Rightarrow> writer_state" where
  "on_db f s = (case ws_days s of (low, low_hour, db) \<Rightarrow> s\<lparr> ws_days := (low, low_hour, f db) \<rparr>)"

definition the_db :: "writer_state \<Rightarrow> usage_db" where
  "the_db s = snd (snd (ws_days s))"

text \<open>\<open>WriterSession::update\<close>: values that are not given keep what the row has.\<close>

definition session_update :: "int \<Rightarrow> string \<Rightarrow> nat \<Rightarrow> int option \<Rightarrow> int option \<Rightarrow> bool \<Rightarrow> usage_db \<Rightarrow> usage_db" where
  "session_update now i pending commit delay shut db =
     (let old = hm_get (db_sessions db) i;
          keep = (\<lambda>new f. case new of Some x \<Rightarrow> Some x | None \<Rightarrow> Option.bind old f)
      in db\<lparr> db_sessions := hm_insert i
           \<lparr> se_updated = now, se_closed = shut, se_pending = min pending i64_max, se_last_commit = keep commit se_last_commit,
             se_write_delay = keep delay se_write_delay \<rparr> (db_sessions db) \<rparr>)"

definition health_update :: "int \<Rightarrow> string \<Rightarrow> nat \<Rightarrow> nat \<Rightarrow> string option \<Rightarrow> usage_db \<Rightarrow> usage_db" where
  "health_update now i dropped errors error db =
     db\<lparr> db_writers := hm_insert i \<lparr> wt_updated = now, wt_dropped = int (min dropped i64_max), wt_errors = int (min errors i64_max),
           wt_last_error = error \<rparr> (db_writers db) \<rparr>"

fun take_message :: "write_msg \<Rightarrow> nat list \<Rightarrow> phase" where
  "take_message WStart rs = Gathering rs"
| "take_message (WRecord k) rs = Gathering (rs @ [k])"
| "take_message (WFlush i) rs = Opening \<lparr> jb_records = rs, jb_flush = Some i, jb_closing = False \<rparr>"
| "take_message (WShutdown i) rs = Opening \<lparr> jb_records = rs, jb_flush = Some i, jb_closing = True \<rparr>"

definition gathered :: "nat list \<Rightarrow> phase" where
  "gathered rs = Opening \<lparr> jb_records = rs, jb_flush = None, jb_closing = False \<rparr>"

definition receive_write :: "nat list \<Rightarrow> writer_state \<Rightarrow> writer_state" where
  "receive_write rs s =
     (case ws_queue s of
        [] \<Rightarrow> s\<lparr> ws_phase := gathered rs \<rparr>
      | m # q \<Rightarrow> s\<lparr> ws_queue := q, ws_taken := ws_taken s + 1, ws_phase := take_message m rs \<rparr>)"

definition batch_of :: "writer_state \<Rightarrow> job \<Rightarrow> usage_record list" where
  "batch_of s j = map ((!) (ws_handed s)) (jb_records j)"

text \<open>A batch that is not written is given up.\<close>

definition give_up :: "job \<Rightarrow> string \<Rightarrow> writer_state \<Rightarrow> writer_state" where
  "give_up j e s = s\<lparr> ws_lost := ws_lost s @ jb_records j, ws_phase := Failed j e \<rparr>"

definition open_database :: "writer_input \<Rightarrow> writer_state \<Rightarrow> writer_state" where
  "open_database inp s =
     (if ws_conn s then s else case wi_open inp of None \<Rightarrow> s\<lparr> ws_conn := True \<rparr> | Some e \<Rightarrow> s\<lparr> ws_last_error := Some e \<rparr>)"

definition start_session :: "writer_input \<Rightarrow> writer_state \<Rightarrow> writer_state" where
  "start_session inp s =
     (if ws_session s \<noteq> None then s
      else case wi_session inp of Inr i \<Rightarrow> s\<lparr> ws_session := Some i \<rparr> | Inl e \<Rightarrow> s\<lparr> ws_last_error := Some e \<rparr>)"

definition update_session :: "writer_input \<Rightarrow> (string \<Rightarrow> usage_db \<Rightarrow> usage_db) \<Rightarrow> writer_state \<Rightarrow> writer_state" where
  "update_session inp f s =
     (case ws_session s of
        None \<Rightarrow> s
      | Some i \<Rightarrow> if wi_update inp = None then on_db (f i) s else note_error (wi_update inp) s)"

definition open_batch :: "writer_input \<Rightarrow> job \<Rightarrow> writer_state \<Rightarrow> writer_state" where
  "open_batch inp j s =
     (let s1 = start_session inp (open_database inp s)
      in if ws_conn s1
         then (update_session inp (\<lambda>i. session_update (wi_now inp) i (max (ws_pending s1) (length (jb_records j))) None None False) s1)
                \<lparr> ws_phase := Writing j False \<rparr>
         else give_up j (case ws_last_error s1 of None \<Rightarrow> ''Usage storage unavailable'' | Some e \<Rightarrow> e) s1)"

definition try_batch :: "writer_input \<Rightarrow> job \<Rightarrow> bool \<Rightarrow> writer_state \<Rightarrow> writer_state" where
  "try_batch inp j retried s =
     (let (db', res) = write_batch (wi_batch inp) (batch_of s j) (the_db s);
          s1 = on_db (\<lambda>_. db') s
      in case res of
           Inr u \<Rightarrow> s1\<lparr> ws_stored := ws_stored s @ jb_records j, ws_phase := Written j (Inr u) \<rparr>
         | Inl e \<Rightarrow> if retried then give_up j e s1 else s1\<lparr> ws_phase := Writing j True \<rparr>)"

definition count_failure :: "job \<Rightarrow> string \<Rightarrow> writer_state \<Rightarrow> writer_state" where
  "count_failure j e s = s\<lparr> ws_dropped := fetch_add (ws_dropped s) (length (jb_records j)), ws_errors := fetch_add (ws_errors s) 1,
     ws_last_error := Some e, ws_phase := Written j (Inl e) \<rparr>"

definition settle_batch :: "job \<Rightarrow> string + unit \<Rightarrow> writer_state \<Rightarrow> writer_state" where
  "settle_batch j res s = s\<lparr> ws_pending := ws_pending s - length (jb_records j), ws_phase := Pruning j res \<rparr>"

definition prune_usage :: "writer_input \<Rightarrow> job \<Rightarrow> string + unit \<Rightarrow> writer_state \<Rightarrow> writer_state" where
  "prune_usage inp j res s =
     (if \<not> ws_conn s then s\<lparr> ws_phase := Replying j res \<rparr>
      else let now = wi_now inp;
               s1 = (if PRUNE_INTERVAL_MS < now - ws_last_prune s
                     then (case ws_days s of (low, low_hour, db) \<Rightarrow>
                            (case usage_prune (wi_prune_begin inp) (wi_prune_commit inp) now db of
                               (db', out) \<Rightarrow>
                                 note_error (case out of Inl e \<Rightarrow> Some e | Inr u \<Rightarrow> None)
                                   (s\<lparr> ws_days := (max low (now div DAY_MS * DAY_MS - DETAIL_DAYS * DAY_MS),
                                                max low_hour (now div DAY_MS * DAY_MS - HOURLY_DAYS * DAY_MS), db'),
                                     ws_last_prune := now \<rparr>)))
                     else s)
           in s1\<lparr> ws_phase := Health j res now \<rparr>)"

definition report_health :: "string \<Rightarrow> writer_input \<Rightarrow> job \<Rightarrow> string + unit \<Rightarrow> int \<Rightarrow> writer_state \<Rightarrow> writer_state" where
  "report_health wid inp j res now s =
     (let s1 = (if wi_health inp = None
                then on_db (health_update (wi_now inp) wid (ws_dropped s) (ws_errors s) (ws_last_error s)) s
                else note_error (wi_health inp) s)
      in s1\<lparr> ws_phase := (if ws_session s = None then Replying j res else Checking j res now) \<rparr>)"

definition session_row_of :: "writer_input \<Rightarrow> job \<Rightarrow> string + unit \<Rightarrow> int \<Rightarrow> nat \<Rightarrow> bool \<Rightarrow> writer_state \<Rightarrow> string \<Rightarrow> usage_db \<Rightarrow> usage_db" where
  "session_row_of inp j res now pending shut s i =
     (let times = map ud_completed_at (batch_of s j);
          committed = (\<not> isl res \<and> times \<noteq> [])
      in session_update (wi_now inp) i pending (if committed then Some now else None)
           (if committed then Some (max (now - Min (set times)) 0) else None) shut)"

definition close_session ::
  "writer_input \<Rightarrow> job \<Rightarrow> string + unit \<Rightarrow> int \<Rightarrow> nat \<Rightarrow> bool \<Rightarrow> nat \<Rightarrow> writer_state \<Rightarrow> writer_state" where
  "close_session inp j res now pending inactive n s =
     (let shut = (jb_closing j \<and> \<not> isl res \<and> inactive \<and> ws_pending s = 0)
      in (update_session inp (session_row_of inp j res now pending shut s) s)
           \<lparr> ws_phase := Replying j res, ws_closed := (if shut then Some n else ws_closed s) \<rparr>)"

definition send_reply :: "job \<Rightarrow> string + unit \<Rightarrow> writer_state \<Rightarrow> writer_state" where
  "send_reply j res s =
     (let s1 = (case jb_flush j of None \<Rightarrow> s | Some i \<Rightarrow> s\<lparr> ws_replies := ws_replies s @ [(i, res)] \<rparr>)
      in if jb_closing j
         then s1\<lparr> ws_phase := Stopped, ws_queue := [], ws_vanished := queued (ws_queue s) \<rparr>
         else s1\<lparr> ws_phase := Waiting \<rparr>)"

definition writer_step :: "string \<Rightarrow> writer_input \<Rightarrow> writer_state \<Rightarrow> writer_state" where
  "writer_step wid inp s =
     (case ws_phase s of
        NoWriter \<Rightarrow> s
      | Waiting \<Rightarrow> if ws_queue s = [] \<and> \<not> wi_timeout inp then s else receive_write [] s
      | Gathering rs \<Rightarrow> if WRITE_BATCH \<le> length rs then s\<lparr> ws_phase := gathered rs \<rparr> else receive_write rs s
      | Opening j \<Rightarrow> open_batch inp j s
      | Writing j retried \<Rightarrow> try_batch inp j retried s
      | Failed j e \<Rightarrow> count_failure j e s
      | Written j res \<Rightarrow> settle_batch j res s
      | Pruning j res \<Rightarrow> prune_usage inp j res s
      | Health j res now \<Rightarrow> report_health wid inp j res now s
      | Checking j res now \<Rightarrow> s\<lparr> ws_phase := Checked j res now (ws_pending s) \<rparr>
      | Checked j res now p \<Rightarrow> s\<lparr> ws_phase := Closing j res now p (ws_active s = 0) (length (ws_handed s)) \<rparr>
      | Closing j res now p inactive n \<Rightarrow> close_session inp j res now p inactive n s
      | Replying j res \<Rightarrow> send_reply j res s
      | Stopped \<Rightarrow> s)"

section \<open>Steps\<close>

text \<open>
  No more than \<open>MAX_IN_PROGRESS\<close> requests are in progress at a time, so the counters of requests in
  progress cannot wrap around; \<open>DROPPED\<close> and \<open>WRITE_ERRORS\<close> may.
\<close>

definition MAX_IN_PROGRESS :: nat where "MAX_IN_PROGRESS = 2 ^ 32"

inductive ws_step :: "string \<Rightarrow> writer_state \<Rightarrow> writer_state \<Rightarrow> bool" for wid where
  ws_begin: "ws_open s + length (ws_threads s) < MAX_IN_PROGRESS \<Longrightarrow> ws_step wid s (begin_recording s)"
| ws_spawn: "ws_step wid s (start_writer s)"
| ws_hand: "0 < ws_open s \<Longrightarrow> ws_step wid s (hand_over r s)"
| ws_record: "i < length (ws_threads s) \<Longrightarrow> ws_step wid s (record_at i s)"
| ws_drain: "WFlush i \<notin> set (ws_log s) \<Longrightarrow> WShutdown i \<notin> set (ws_log s) \<Longrightarrow> ws_step wid s (fst (drain closing i s))"
| ws_writer: "ws_step wid s (writer_step wid inp s)"
| ws_database: "db_step (ws_days s) d \<Longrightarrow> ws_step wid s (s\<lparr> ws_days := d \<rparr>)"

definition ws_init :: "writer_state \<Rightarrow> bool" where
  "ws_init s \<longleftrightarrow> (\<exists>days. reach db_init db_step days \<and> s = ws_start days)"


section \<open>The invariant\<close>

text \<open>
  What a call of \<open>record\<close> contributes to the counters: it is busy until \<open>ACTIVE\<close> is lowered, counted as
  pending until its message is sent or taken back, unreported while a loss is not yet counted.
\<close>

fun busy :: "recorder \<Rightarrow> nat" where
  "busy (RCount k) = 1" | "busy (RActive k) = 1" | "busy _ = 0"

fun counted :: "recorder \<Rightarrow> nat" where
  "counted (RCount k) = 0" | "counted (RDrop k) = 0" | "counted _ = 1"

fun unreported :: "recorder \<Rightarrow> nat" where
  "unreported (RUndo k) = 1" | "unreported (RDrop k) = 1" | "unreported _ = 0"

fun carried :: "recorder \<Rightarrow> nat multiset" where
  "carried (RCount k) = {#k#}" | "carried (RActive k) = {#k#}" | "carried (RSend k) = {#k#}" | "carried _ = {#}"

fun sending :: "recorder \<Rightarrow> nat multiset" where
  "sending (RSend k) = {#k#}" | "sending _ = {#}"

fun unwritten :: "phase \<Rightarrow> nat list" where
  "unwritten (Gathering rs) = rs" | "unwritten (Opening j) = jb_records j" | "unwritten (Writing j retried) = jb_records j"
| "unwritten _ = []"

fun unsettled :: "phase \<Rightarrow> nat" where
  "unsettled (Gathering rs) = length rs" | "unsettled (Opening j) = length (jb_records j)"
| "unsettled (Writing j retried) = length (jb_records j)" | "unsettled (Failed j e) = length (jb_records j)"
| "unsettled (Written j res) = length (jb_records j)" | "unsettled _ = 0"

fun failing :: "phase \<Rightarrow> nat" where
  "failing (Failed j e) = length (jb_records j)" | "failing _ = 0"

fun job_of :: "phase \<Rightarrow> job option" where
  "job_of (Opening j) = Some j" | "job_of (Writing j retried) = Some j" | "job_of (Failed j e) = Some j"
| "job_of (Written j res) = Some j" | "job_of (Pruning j res) = Some j" | "job_of (Health j res now) = Some j"
| "job_of (Checking j res now) = Some j" | "job_of (Checked j res now p) = Some j"
| "job_of (Closing j res now p inactive n) = Some j" | "job_of (Replying j res) = Some j" | "job_of _ = None"

abbreviation all_of :: "('a \<Rightarrow> 'b :: comm_monoid_add) \<Rightarrow> 'a list \<Rightarrow> 'b" where
  "all_of f xs \<equiv> sum_list (map f xs)"

definition counts_inv :: "writer_state \<Rightarrow> bool" where
  "counts_inv s \<longleftrightarrow> ws_active s = ws_open s + all_of busy (ws_threads s)
     \<and> ws_pending s = all_of counted (ws_threads s) + length (queued (ws_queue s)) + unsettled (ws_phase s)
         + length (ws_vanished s)
     \<and> ws_open s + length (ws_threads s) \<le> MAX_IN_PROGRESS \<and> length (ws_queue s) \<le> QUEUE_CAPACITY
     \<and> length (ws_vanished s) \<le> QUEUE_CAPACITY
     \<and> unsettled (ws_phase s) \<le> WRITE_BATCH
     \<and> (ws_phase s = NoWriter \<or> ws_phase s = Stopped \<longrightarrow> ws_queue s = [])"

definition places_inv :: "writer_state \<Rightarrow> bool" where
  "places_inv s \<longleftrightarrow> all_of carried (ws_threads s) + mset (queued (ws_queue s)) + mset (unwritten (ws_phase s))
       + mset (ws_stored s) + mset (ws_lost s) + mset (ws_vanished s) = mset [0..<length (ws_handed s)]
     \<and> (ws_phase s \<noteq> Stopped \<longrightarrow> ws_vanished s = [])"

definition dropped_inv :: "writer_state \<Rightarrow> bool" where
  "dropped_inv s \<longleftrightarrow> (ws_dropped s + all_of unreported (ws_threads s) + failing (ws_phase s)) mod 2 ^ 64 = length (ws_lost s) mod 2 ^ 64"

definition asks :: "nat \<Rightarrow> write_msg \<Rightarrow> bool" where
  "asks i m \<longleftrightarrow> m = WFlush i \<or> m = WShutdown i"

definition log_inv :: "writer_state \<Rightarrow> bool" where
  "log_inv s \<longleftrightarrow> ws_taken s \<le> length (ws_log s) \<and> (ws_phase s \<noteq> Stopped \<longrightarrow> ws_queue s = drop (ws_taken s) (ws_log s))
     \<and> set (queued (take (ws_taken s) (ws_log s))) \<subseteq> set (unwritten (ws_phase s)) \<union> set (ws_stored s) \<union> set (ws_lost s)
     \<and> (\<forall>j i. job_of (ws_phase s) = Some j \<longrightarrow> jb_flush j = Some i \<longrightarrow> 0 < ws_taken s \<and> asks i (ws_log s ! (ws_taken s - 1)))
     \<and> (\<forall>(i, res) \<in> set (ws_replies s). \<exists>n < length (ws_log s). asks i (ws_log s ! n)
          \<and> set (queued (take n (ws_log s))) \<subseteq> set (ws_stored s) \<union> set (ws_lost s))"

definition closed_inv :: "writer_state \<Rightarrow> bool" where
  "closed_inv s \<longleftrightarrow> (\<forall>n. ws_closed s = Some n \<longrightarrow> {0..<n} \<subseteq> set (ws_stored s) \<union> set (ws_lost s))
     \<and> (case ws_phase s of
          Closing j res now p inactive n \<Rightarrow> inactive \<longrightarrow>
            {0..<n} \<subseteq> set_mset (all_of sending (ws_threads s)) \<union> set (queued (ws_queue s)) \<union> set (ws_stored s) \<union> set (ws_lost s)
        | _ \<Rightarrow> True)"

text \<open>
  A stored record, or the record that was stored first under its id, stays in the database until its
  range is cleared or retention passes its day.
\<close>

definition covered :: "int \<times> int \<times> usage_db \<Rightarrow> usage_record \<Rightarrow> bool" where
  "covered days r \<longleftrightarrow> (case days of (low, low_hour, db) \<Rightarrow>
     r \<in> set (db_records db) \<or> bucket_of DAY_MS r < low
     \<or> (\<exists>(from_day, to_day, cleared_at) \<in> set (db_deletions db). from_day \<le> bucket_of DAY_MS r \<and> bucket_of DAY_MS r < to_day))"

definition kept :: "int \<times> int \<times> usage_db \<Rightarrow> usage_record \<Rightarrow> bool" where
  "kept days r \<longleftrightarrow> (\<exists>r'. ud_request_id r' = ud_request_id r \<and> covered days r')"

definition stored_inv :: "writer_state \<Rightarrow> bool" where
  "stored_inv s \<longleftrightarrow> reach db_init db_step (ws_days s)
     \<and> (\<forall>k \<in> set (ws_stored s). k < length (ws_handed s) \<and> kept (ws_days s) (ws_handed s ! k))"


section \<open>The database\<close>

lemma clear_events:
  assumes "clear_router_usage b c now from_day to_day db = (db', res)"
  shows "db' = db \<or> (db_events db' = filter (\<lambda>e. \<not> (from_day \<le> ev_day e \<and> ev_day e < to_day)) (db_events db)
    \<and> db_deletions db' = db_deletions db @ [(from_day, to_day, now)])"
  using assms by (cases b; cases c) (auto simp: clear_router_usage_def performance_clear_def Let_def split: option.splits)

lemma prune_events:
  assumes "usage_prune b c now db = (db', res)"
  shows "db_deletions db' = db_deletions db \<and> (db' = db \<or>
    db_events db' = filter (\<lambda>e. \<not> ev_day e < now div DAY_MS * DAY_MS - DETAIL_DAYS * DAY_MS) (db_events db))"
  using assms by (cases b; cases c) (auto simp: usage_prune_def performance_prune_def Let_def)

lemma write_batch_Inr: "write_batch be rs db = (db', Inr u) \<Longrightarrow> db' = fold apply_insert rs db"
  unfolding write_batch_def by (erule transaction_cases) (auto dest: insert_batch_Inr)

lemma write_batch_cases: "write_batch be rs db = (db', res) \<Longrightarrow> db' = db \<or> db' = fold apply_insert rs db"
  unfolding write_batch_def by (erule transaction_cases) (auto dest: insert_batch_Inr)

lemma apply_insert_keeps: "db_deletions (apply_insert r db) = db_deletions db" "set (db_records db) \<subseteq> set (db_records (apply_insert r db))"
  by (auto simp: apply_insert_def db_records_def insert_event_def)

lemma batch_deletions: "db_deletions (fold apply_insert rs db) = db_deletions db"
  by (induction rs arbitrary: db) (simp_all add: apply_insert_keeps(1))

lemma batch_records: "set (db_records db) \<subseteq> set (db_records (fold apply_insert rs db))"
  by (induction rs arbitrary: db) (use apply_insert_keeps(2) in fastforce)+

lemma kept_written:
  assumes "write_batch be rs db = (db', Inr u)" "r \<in> set rs"
  shows "kept (low, low_hour, db') r"
proof -
  have "absorbed db' r" unfolding write_batch_Inr [OF assms(1)] using absorbed_batch assms(2) by blast
  then consider "is_deleted db' r" | r' where "r' \<in> set (db_records db')" "ud_request_id r' = ud_request_id r"
    by (auto simp: absorbed_def has_event_def list_ex_iff db_records_def)
  then show ?thesis
  proof cases
    case 1
    then have "covered (low, low_hour, db') r" by (auto simp: covered_def is_deleted_def list_ex_iff)
    then show ?thesis unfolding kept_def by blast
  next
    case (2 r')
    then have "covered (low, low_hour, db') r'" by (simp add: covered_def)
    then show ?thesis using 2(2) unfolding kept_def by blast
  qed
qed

lemma covered_step: "db_step d d' \<Longrightarrow> db_inv d \<Longrightarrow> covered d r \<Longrightarrow> covered d' r"
proof (induction rule: db_step.induct)
  case (step_write low low_hour db be rs)
  obtain db' res where w: "write_batch be rs db = (db', res)" by fastforce
  have "db_deletions db' = db_deletions db" "set (db_records db) \<subseteq> set (db_records db')"
    using write_batch_cases [OF w] by (auto simp: batch_deletions dest: subsetD [OF batch_records])
  then show ?case using step_write(2) by (auto simp: covered_def w)
next
  case (step_clear low low_hour db b c now from_day to_day)
  obtain db' res where w: "clear_router_usage b c now from_day to_day db = (db', res)" by fastforce
  have "r \<in> set (db_records db') \<or> (from_day \<le> bucket_of DAY_MS r \<and> bucket_of DAY_MS r < to_day)"
    if "r \<in> set (db_records db)"
      "db_events db' = filter (\<lambda>e. \<not> (from_day \<le> ev_day e \<and> ev_day e < to_day)) (db_events db)"
    using step_clear(1) that by (fastforce simp: db_inv_def events_ok_def db_records_def)
  then show ?case using step_clear(2) clear_events [OF w] by (auto simp: covered_def w)
next
  case (step_prune low low_hour db now b c)
  obtain db' res where w: "usage_prune b c now db = (db', res)" by fastforce
  have "r \<in> set (db_records db') \<or> bucket_of DAY_MS r < now div DAY_MS * DAY_MS - DETAIL_DAYS * DAY_MS"
    if "r \<in> set (db_records db)"
      "db_events db' = filter (\<lambda>e. \<not> ev_day e < now div DAY_MS * DAY_MS - DETAIL_DAYS * DAY_MS) (db_events db)"
    using step_prune(1) that by (fastforce simp: db_inv_def events_ok_def db_records_def)
  then show ?case using step_prune(2) prune_events [OF w] by (auto simp: covered_def w)
next
  case (step_health low low_hour db ws ss)
  then show ?case by (simp add: covered_def db_records_def)
qed

lemma kept_step: "db_step d d' \<Longrightarrow> db_inv d \<Longrightarrow> kept d r \<Longrightarrow> kept d' r"
  unfolding kept_def using covered_step by blast


section \<open>The steps of the writer thread\<close>

text \<open>Fields that only the writer thread and the database use.\<close>

definition blank :: "writer_state \<Rightarrow> writer_state" where
  "blank s = s\<lparr> ws_days := (0, 0, usage_db_empty), ws_conn := False, ws_session := None, ws_last_error := None, ws_last_prune := 0 \<rparr>"

definition aside :: "writer_state \<Rightarrow> writer_state \<Rightarrow> bool" where
  "aside s t \<longleftrightarrow> blank t = blank s"

lemma aside_refl: "aside s s"
  by (simp add: aside_def)

lemma aside_trans: "aside s t \<Longrightarrow> aside t u \<Longrightarrow> aside s u"
  by (simp add: aside_def)

lemma aside_field:
  "aside s (s\<lparr> ws_days := d \<rparr>)" "aside s (s\<lparr> ws_conn := c \<rparr>)" "aside s (s\<lparr> ws_session := i \<rparr>)"
  "aside s (s\<lparr> ws_last_error := e \<rparr>)" "aside s (s\<lparr> ws_days := d, ws_last_prune := p \<rparr>)"
  by (simp_all add: aside_def blank_def)

lemma aside_steps:
  "aside s (note_error e s)" "aside s (on_db f s)" "aside s (open_database inp s)" "aside s (start_session inp s)"
  "aside s (update_session inp g s)"
proof -
  show 1: "aside s (note_error e s)" for e s by (simp add: note_error_def aside_refl aside_field split: option.split)
  show 2: "aside s (on_db f s)" for f s by (simp add: on_db_def aside_field split: prod.split)
  show "aside s (open_database inp s)" by (simp add: open_database_def aside_refl aside_field split: option.split)
  show "aside s (start_session inp s)" by (simp add: start_session_def aside_refl aside_field split: sum.split)
  show "aside s (update_session inp g s)" by (simp add: update_session_def aside_refl 1 2 split: option.split)
qed

lemma aside_same:
  assumes "aside s t"
  shows "ws_threads t = ws_threads s" "ws_queue t = ws_queue s" "ws_active t = ws_active s" "ws_pending t = ws_pending s"
    "ws_dropped t = ws_dropped s" "ws_phase t = ws_phase s" "ws_open t = ws_open s" "ws_handed t = ws_handed s"
    "ws_stored t = ws_stored s" "ws_lost t = ws_lost s" "ws_vanished t = ws_vanished s" "ws_log t = ws_log s"
    "ws_taken t = ws_taken s" "ws_replies t = ws_replies s" "ws_closed t = ws_closed s"
  using assms by (cases s; cases t; simp add: aside_def blank_def)+

text \<open>Phases between the settling of a batch and its reply.\<close>

definition between :: "phase \<Rightarrow> phase \<Rightarrow> bool" where
  "between p p' \<longleftrightarrow> unwritten p = [] \<and> unwritten p' = [] \<and> unsettled p = 0 \<and> unsettled p' = 0 \<and> failing p = 0 \<and> failing p' = 0
     \<and> job_of p' = job_of p \<and> p \<noteq> NoWriter \<and> p' \<noteq> NoWriter \<and> p \<noteq> Stopped \<and> p' \<noteq> Stopped
     \<and> (\<forall>j res now pend inactive n. p' \<noteq> Closing j res now pend inactive n)"

lemma between_moves:
  "between (Pruning j res) (Replying j res)" "between (Pruning j res) (Health j res now)"
  "between (Health j res now) (Replying j res)" "between (Health j res now) (Checking j res now)"
  "between (Checking j res now) (Checked j res now p)"
  by (simp_all add: between_def)

lemma prune_usage_aside:
  assumes "ws_conn s"
  shows "\<exists>s'. aside s s' \<and> prune_usage inp j res s = s'\<lparr> ws_phase := Health j res (wi_now inp) \<rparr>"
  using assms aside_refl [of s] aside_trans [OF aside_field(5) aside_steps(1)]
  by (fastforce simp: prune_usage_def Let_def split: prod.split)

lemma writer_step_cases:
  assumes "writer_step wid inp s = t"
  obtains (idle) "t = s"
  | (receive) rs where "ws_phase s = Waiting \<and> rs = [] \<or> ws_phase s = Gathering rs \<and> length rs < WRITE_BATCH" "t = receive_write rs s"
  | (full) rs where "ws_phase s = Gathering rs" "t = s\<lparr> ws_phase := gathered rs \<rparr>"
  | (attempt) j s' retried where "ws_phase s = Opening j \<or> ws_phase s = Writing j False" "aside s s'" "t = s'\<lparr> ws_phase := Writing j retried \<rparr>"
  | (abandon) j s' e where "ws_phase s = Opening j \<or> ws_phase s = Writing j True" "aside s s'" "t = give_up j e s'"
  | (commit) j retried db' s' where "ws_phase s = Writing j retried"
      "write_batch (wi_batch inp) (batch_of s j) (the_db s) = (db', Inr ())" "ws_days s' = (fst (ws_days s), fst (snd (ws_days s)), db')" "aside s s'"
      "t = s'\<lparr> ws_stored := ws_stored s @ jb_records j, ws_phase := Written j (Inr ()) \<rparr>"
  | (count) j e where "ws_phase s = Failed j e" "t = count_failure j e s"
  | (settle) j res where "ws_phase s = Written j res" "t = settle_batch j res s"
  | (move) p s' where "between (ws_phase s) p" "aside s s'" "t = s'\<lparr> ws_phase := p \<rparr>"
  | (check) j res now p where "ws_phase s = Checked j res now p"
      "t = s\<lparr> ws_phase := Closing j res now p (ws_active s = 0) (length (ws_handed s)) \<rparr>"
  | (close) j res now p inactive n shut s' where "ws_phase s = Closing j res now p inactive n" "shut \<Longrightarrow> inactive \<and> ws_pending s = 0"
      "aside s s'" "t = s'\<lparr> ws_phase := Replying j res, ws_closed := (if shut then Some n else ws_closed s) \<rparr>"
  | (answer) j res where "ws_phase s = Replying j res" "t = send_reply j res s"
proof (cases "ws_phase s")
  case NoWriter
  then show ?thesis using assms idle by (simp add: writer_step_def)
next
  case Waiting
  then show ?thesis using assms idle receive [of "[]"] by (auto simp: writer_step_def split: if_splits)
next
  case (Gathering rs)
  then show ?thesis using assms full receive [of rs] by (auto simp: writer_step_def split: if_splits)
next
  case (Opening j)
  let ?s1 = "start_session inp (open_database inp s)"
  have 1: "aside s ?s1" using aside_trans aside_steps by blast
  show ?thesis
  proof (cases "ws_conn ?s1")
    case True
    then have "t = (update_session inp (\<lambda>i. session_update (wi_now inp) i (max (ws_pending ?s1) (length (jb_records j))) None None False) ?s1)
      \<lparr> ws_phase := Writing j False \<rparr>"
      using assms Opening by (simp add: writer_step_def open_batch_def Let_def)
    then show ?thesis using attempt Opening aside_trans [OF 1 aside_steps(5)] by blast
  next
    case False
    then have "t = give_up j (case ws_last_error ?s1 of None \<Rightarrow> ''Usage storage unavailable'' | Some e \<Rightarrow> e) ?s1"
      using assms Opening by (simp add: writer_step_def open_batch_def Let_def)
    then show ?thesis using abandon [OF _ 1] Opening by blast
  qed
next
  case (Writing j retried)
  obtain db' res where w: "write_batch (wi_batch inp) (batch_of s j) (the_db s) = (db', res)" by fastforce
  have days: "ws_days (on_db (\<lambda>_. db') s) = (fst (ws_days s), fst (snd (ws_days s)), db')" by (cases "ws_days s") (simp add: on_db_def)
  show ?thesis
  proof (cases res)
    case (Inl e)
    then have "t = (if retried then give_up j e (on_db (\<lambda>_. db') s) else (on_db (\<lambda>_. db') s)\<lparr> ws_phase := Writing j True \<rparr>)"
      using assms Writing by (simp add: writer_step_def try_batch_def w Let_def)
    then show ?thesis
      using Writing abandon [OF _ aside_steps(2)] attempt [OF _ aside_steps(2)] by (cases retried) auto
  next
    case (Inr u)
    then have "t = (on_db (\<lambda>_. db') s)\<lparr> ws_stored := ws_stored s @ jb_records j, ws_phase := Written j (Inr ()) \<rparr>"
      using assms Writing by (simp add: writer_step_def try_batch_def w Let_def)
    then show ?thesis using commit [OF Writing _ days aside_steps(2)] w Inr by simp
  qed
next
  case (Failed j e)
  then show ?thesis using assms count by (simp add: writer_step_def)
next
  case (Written j res)
  then show ?thesis using assms settle by (simp add: writer_step_def)
next
  case (Pruning j res)
  show ?thesis
  proof (cases "ws_conn s")
    case True
    then obtain s' where "aside s s'" "t = s'\<lparr> ws_phase := Health j res (wi_now inp) \<rparr>"
      using prune_usage_aside [of s inp j res] assms by (auto simp: writer_step_def Pruning)
    then show ?thesis using move [of "Health j res (wi_now inp)"] by (simp add: Pruning between_moves)
  next
    case False
    then show ?thesis
      using assms move [OF _ aside_refl, of "Replying j res"] by (simp add: writer_step_def Pruning prune_usage_def between_moves)
  qed
next
  case (Health j res now)
  let ?s1 = "if wi_health inp = None
    then on_db (health_update (wi_now inp) wid (ws_dropped s) (ws_errors s) (ws_last_error s)) s
    else note_error (wi_health inp) s"
  let ?p = "if ws_session s = None then Replying j res else Checking j res now"
  have "aside s ?s1" by (simp add: aside_steps)
  moreover have "t = ?s1\<lparr> ws_phase := ?p \<rparr>" using assms Health by (simp add: writer_step_def report_health_def Let_def)
  ultimately show ?thesis using move [of ?p ?s1] by (simp add: Health between_moves)
next
  case (Checking j res now)
  then show ?thesis using assms move [OF _ aside_refl] by (auto simp: writer_step_def intro: between_moves)
next
  case (Checked j res now p)
  then show ?thesis using assms check by (simp add: writer_step_def)
next
  case (Closing j res now p inactive n)
  let ?shut = "jb_closing j \<and> \<not> isl res \<and> inactive \<and> ws_pending s = 0"
  have "t = (update_session inp (session_row_of inp j res now p ?shut s) s)
      \<lparr> ws_phase := Replying j res, ws_closed := (if ?shut then Some n else ws_closed s) \<rparr>"
    using assms by (simp add: writer_step_def Closing close_session_def Let_def)
  then show ?thesis using close [OF Closing _ aside_steps(5), of ?shut] by blast
next
  case (Replying j res)
  then show ?thesis using assms answer by (simp add: writer_step_def)
next
  case Stopped
  then show ?thesis using assms idle by (simp add: writer_step_def)
qed


section \<open>The database under the writer\<close>

lemma session_db_step: "db_step (low, low_hour, db) (low, low_hour, session_update now i p c d shut db)"
  using step_health [where low = low and low_hour = low_hour and db = db and ws = "db_writers db"
      and ss = "db_sessions (session_update now i p c d shut db)"]
  by (simp add: session_update_def Let_def)

lemma health_db_step: "db_step (low, low_hour, db) (low, low_hour, health_update now i n e x db)"
  using step_health [where low = low and low_hour = low_hour and db = db
      and ws = "db_writers (health_update now i n e x db)" and ss = "db_sessions db"]
  by (simp add: health_update_def)

definition db_moves :: "writer_state \<Rightarrow> writer_state \<Rightarrow> bool" where
  "db_moves s t \<longleftrightarrow> ws_days t = ws_days s \<or> db_step (ws_days s) (ws_days t)"

lemma other_fields_days:
  "ws_days (note_error e s) = ws_days s" "ws_days (open_database inp s) = ws_days s" "ws_days (start_session inp s) = ws_days s"
  by (simp_all add: note_error_def open_database_def start_session_def split: option.split sum.split)

lemma update_session_moves:
  assumes "\<And>i db low low_hour. db_step (low, low_hour, db) (low, low_hour, f i db)"
  shows "db_moves s (update_session inp f s)"
  using assms by (auto simp: db_moves_def update_session_def on_db_def other_fields_days split: option.split prod.split)

lemma writer_step_moves: "db_moves s (writer_step wid inp s)"
proof (cases "ws_phase s")
  case (Opening j)
  let ?s1 = "start_session inp (open_database inp s)"
  have "db_moves ?s1 (update_session inp (\<lambda>i. session_update now i n None None False) ?s1)" for now n
    by (rule update_session_moves) (rule session_db_step)
  then show ?thesis by (simp add: db_moves_def writer_step_def Opening open_batch_def give_up_def other_fields_days Let_def)
next
  case (Writing j retried)
  obtain low low_hour db where d: "ws_days s = (low, low_hour, db)" using prod_cases3 by blast
  obtain db' res where w: "write_batch (wi_batch inp) (batch_of s j) db = (db', res)" by fastforce
  have "ws_days (writer_step wid inp s) = (low, low_hour, db')"
    by (simp add: writer_step_def Writing try_batch_def the_db_def on_db_def d w give_up_def Let_def split: sum.split)
  then show ?thesis using step_write [of low low_hour db "wi_batch inp" "batch_of s j"] by (simp add: db_moves_def d w)
next
  case (Pruning j res)
  obtain low low_hour db where d: "ws_days s = (low, low_hour, db)" using prod_cases3 by blast
  obtain db' out where w: "usage_prune (wi_prune_begin inp) (wi_prune_commit inp) (wi_now inp) db = (db', out)" by fastforce
  show ?thesis
    using step_prune [of low low_hour db "wi_now inp" "wi_prune_begin inp" "wi_prune_commit inp"]
    by (simp add: db_moves_def writer_step_def Pruning prune_usage_def other_fields_days d w Let_def)
next
  case (Health j res now)
  obtain low low_hour db where d: "ws_days s = (low, low_hour, db)" using prod_cases3 by blast
  show ?thesis
    by (simp add: db_moves_def writer_step_def Health report_health_def on_db_def d other_fields_days health_db_step Let_def)
next
  case (Closing j res now p inactive n)
  have "db_moves s (update_session inp (session_row_of inp j res now p shut s) s)" for shut
    by (rule update_session_moves) (simp add: session_row_of_def session_db_step Let_def)
  then show ?thesis by (simp add: db_moves_def writer_step_def Closing close_session_def Let_def)
qed (simp_all add: db_moves_def writer_step_def receive_write_def count_failure_def settle_batch_def send_reply_def Let_def
  split: list.split option.split)

lemma record_at_cases:
  obtains (update) r s' where "recorder_step (ws_threads s ! i) s = (Some r, s')" "record_at i s = s'\<lparr> ws_threads := (ws_threads s)[i := r] \<rparr>"
  | (finish) s' where "recorder_step (ws_threads s ! i) s = (None, s')"
      "record_at i s = s'\<lparr> ws_threads := take i (ws_threads s) @ drop (Suc i) (ws_threads s) \<rparr>"
  by (cases "recorder_step (ws_threads s ! i) s") (auto simp: record_at_def split: option.splits)

lemma ws_step_moves: "ws_step wid s t \<Longrightarrow> db_moves s t"
proof (induction rule: ws_step.induct)
  case (ws_record i s)
  then show ?case by (cases "ws_threads s ! i") (simp_all add: db_moves_def record_at_def enqueue_write_def)
next
  case (ws_writer s inp)
  then show ?case by (rule writer_step_moves)
qed (simp_all add: db_moves_def begin_recording_def start_writer_def hand_over_def drain_def enqueue_write_def)

section \<open>Preservation\<close>

lemma all_of_split:
  assumes "i < length xs"
  shows "all_of f xs = f (xs ! i) + all_of f (take i xs @ drop (Suc i) xs)"
    "all_of f (xs[i := x]) = f x + all_of f (take i xs @ drop (Suc i) xs)"
proof -
  show "all_of f (xs[i := x]) = f x + all_of f (take i xs @ drop (Suc i) xs)"
    using assms by (simp add: upd_conv_take_nth_drop ac_simps)
  have "all_of f xs = all_of f (take i xs @ xs ! i # drop (Suc i) xs)" using id_take_nth_drop [OF assms] by simp
  then show "all_of f xs = f (xs ! i) + all_of f (take i xs @ drop (Suc i) xs)" by (simp add: ac_simps)
qed

lemma queued_append [simp]: "queued (p @ q) = queued p @ queued q"
  by (induction p rule: queued.induct) simp_all

lemma take_message_phase:
  "unwritten (take_message m rs) = rs @ queued [m]" "unsettled (take_message m rs) = length rs + length (queued [m])"
  "failing (take_message m rs) = 0" "take_message m rs \<noteq> NoWriter" "take_message m rs \<noteq> Stopped"
  by (cases m; simp)+

lemma gathered_phase:
  "unwritten (gathered rs) = rs" "unsettled (gathered rs) = length rs" "failing (gathered rs) = 0" "gathered rs \<noteq> NoWriter" "gathered rs \<noteq> Stopped"
  by (simp_all add: gathered_def)


lemma threads_bound: "all_of counted ts \<le> length ts" "all_of busy ts \<le> length ts"
proof -
  have 1: "counted r \<le> 1" "busy r \<le> 1" for r by (cases r; simp)+
  show "all_of counted ts \<le> length ts" "all_of busy ts \<le> length ts"
    using sum_list_mono [of ts counted "\<lambda>_. 1"] sum_list_mono [of ts busy "\<lambda>_. 1"] 1 by (simp_all add: sum_list_triv)
qed

lemma queued_length: "length (queued q) \<le> length q"
  by (induction q rule: queued.induct) simp_all

lemma counts_small:
  assumes "counts_inv s"
  shows "ws_active s + 1 < 2 ^ 64" "ws_pending s + 1 < 2 ^ 64"
proof -
  have "ws_active s \<le> 2 ^ 32" using assms threads_bound(2) [of "ws_threads s"] by (simp add: counts_inv_def MAX_IN_PROGRESS_def)
  then show "ws_active s + 1 < 2 ^ 64" by simp
  have "ws_pending s \<le> 2 ^ 32 + 2 * 8192 + 128"
    using assms(1) threads_bound(1) [of "ws_threads s"] queued_length [of "ws_queue s"]
    by (simp add: counts_inv_def MAX_IN_PROGRESS_def QUEUE_CAPACITY_def WRITE_BATCH_def)
  then show "ws_pending s + 1 < 2 ^ 64" by simp
qed

lemma queued_Cons: "queued (m # q) = queued [m] @ queued q"
  by (cases m) simp_all

lemma writer_counts:
  assumes "counts_inv s" "places_inv s"
  shows "counts_inv (writer_step wid inp s)"
  using refl [of "writer_step wid inp s"]
proof (cases rule: writer_step_cases)
  case (receive rs)
  then show ?thesis
    using assms(1) unfolding counts_inv_def receive(2) receive_write_def
    by (cases "ws_queue s"; cases "hd (ws_queue s)") (auto simp: gathered_phase WRITE_BATCH_def)
next
  case (full rs)
  then show ?thesis using assms(1) by (auto simp: counts_inv_def gathered_phase)
next
  case (move p s')
  then show ?thesis using assms(1) by (auto simp: counts_inv_def between_def aside_same)
next
  case (answer j res)
  then show ?thesis using assms le_trans [OF queued_length [of "ws_queue s"]]
    by (auto simp: counts_inv_def places_inv_def send_reply_def Let_def split: option.split)
qed (use assms(1) in \<open>auto simp: counts_inv_def give_up_def count_failure_def settle_batch_def aside_same\<close>)

lemma step_counts:
  assumes "ws_step wid s t" "counts_inv s" "places_inv s"
  shows "counts_inv t"
  using assms
proof (induction rule: ws_step.induct)
  case (ws_begin s)
  then show ?case using counts_small(1) [of s] by (simp add: counts_inv_def begin_recording_def fetch_add_def mod_less)
next
  case (ws_spawn s)
  then show ?case by (auto simp: counts_inv_def start_writer_def QUEUE_CAPACITY_def)
next
  case (ws_hand s r)
  then show ?case by (auto simp: counts_inv_def hand_over_def)
next
  case (ws_record i s)
  note small = counts_small [OF ws_record(2)]
  note split = all_of_split [OF ws_record(1)]
  show ?case
    using ws_record(1,2) small split [of busy] split [of counted]
    by (cases "ws_threads s ! i")
      (auto simp: counts_inv_def record_at_def enqueue_write_def accepts_def fetch_add_def fetch_sub_def)
next
  case (ws_drain i s shut)
  then show ?case by (auto simp: counts_inv_def drain_def enqueue_write_def accepts_def)
next
  case (ws_writer s inp)
  then show ?case by (intro writer_counts)
next
  case (ws_database s d)
  then show ?case by (simp add: counts_inv_def)
qed


lemma writer_places:
  assumes "places_inv s"
  shows "places_inv (writer_step wid inp s)"
  using refl [of "writer_step wid inp s"]
proof (cases rule: writer_step_cases)
  case (receive rs)
  show ?thesis
  proof (cases "ws_queue s")
    case Nil
    then show ?thesis using assms receive by (auto simp: places_inv_def receive_write_def gathered_phase)
  next
    case (Cons m q)
    then show ?thesis
      using assms receive queued_Cons [of m q] by (auto simp: places_inv_def receive_write_def take_message_phase ac_simps)
  qed
next
  case (full rs)
  then show ?thesis using assms by (auto simp: places_inv_def gathered_phase)
next
  case (move p s')
  then show ?thesis using assms by (auto simp: places_inv_def between_def aside_same)
next
  case (answer j res)
  then show ?thesis using assms by (auto simp: places_inv_def send_reply_def ac_simps Let_def split: option.split)
qed (use assms in \<open>auto simp: places_inv_def give_up_def count_failure_def settle_batch_def aside_same ac_simps\<close>)

lemma step_places:
  assumes "ws_step wid s t" "places_inv s" "counts_inv s"
  shows "places_inv t"
  using assms
proof (induction rule: ws_step.induct)
  case (ws_spawn s)
  then show ?case by (auto simp: places_inv_def start_writer_def counts_inv_def)
next
  case (ws_hand s r)
  then show ?case by (simp add: places_inv_def hand_over_def ac_simps)
next
  case (ws_record i s)
  then show ?case
    using all_of_split [OF ws_record(1), of carried]
    by (cases "ws_threads s ! i") (auto simp: places_inv_def record_at_def enqueue_write_def accepts_def ac_simps)
next
  case (ws_writer s inp)
  then show ?case by (intro writer_places)
qed (auto simp: places_inv_def begin_recording_def drain_def enqueue_write_def accepts_def)

lemma fetch_add_mod: "(fetch_add d n + x) mod 2 ^ 64 = (d + n + x) mod 2 ^ 64"
  by (simp add: fetch_add_def mod_add_left_eq)

lemma add_mod_cong: "a mod m = b mod m \<Longrightarrow> (a + c) mod m = (b + c) mod (m :: nat)"
  by (metis mod_add_left_eq)

lemma step_dropped:
  assumes "ws_step wid s t" "dropped_inv s" "counts_inv s"
  shows "dropped_inv t"
  using assms
proof (induction rule: ws_step.induct)
  case (ws_hand s r)
  then show ?case by (simp add: dropped_inv_def hand_over_def)
next
  case (ws_record i s)
  let ?rest = "all_of unreported (take i (ws_threads s) @ drop (Suc i) (ws_threads s))"
  have rest: "(ws_dropped s + (unreported (ws_threads s ! i) + ?rest) + failing (ws_phase s)) mod 2 ^ 64 = length (ws_lost s) mod 2 ^ 64"
    using ws_record(2) all_of_split(1) [OF ws_record(1), of unreported] by (simp add: dropped_inv_def)
  note new = all_of_split(2) [OF ws_record(1), of unreported]
  show ?case
  proof (cases "ws_threads s ! i")
    case (RSend k)
    then have "(ws_dropped s + (1 + ?rest) + failing (ws_phase s)) mod 2 ^ 64 = (length (ws_lost s) + 1) mod 2 ^ 64"
      using add_mod_cong [OF rest, of 1] by (simp add: ac_simps)
    then show ?thesis using rest new RSend by (simp add: dropped_inv_def record_at_def enqueue_write_def)
  next
    case (RDrop k)
    have "(fetch_add (ws_dropped s) 1 + (?rest + failing (ws_phase s))) mod 2 ^ 64 = length (ws_lost s) mod 2 ^ 64"
      unfolding fetch_add_mod using rest RDrop by (simp add: ac_simps)
    then show ?thesis by (simp add: dropped_inv_def record_at_def RDrop add.assoc)
  qed (use rest new in \<open>simp_all add: dropped_inv_def record_at_def\<close>)
next
  case (ws_writer s inp)
  show ?case
    using refl [of "writer_step wid inp s"]
  proof (cases rule: writer_step_cases)
    case (receive rs)
    then show ?thesis
      using ws_writer(1) by (cases "ws_queue s") (auto simp: dropped_inv_def receive_write_def take_message_phase gathered_phase)
  next
    case (full rs)
    then show ?thesis using ws_writer(1) by (auto simp: dropped_inv_def gathered_phase)
  next
    case (abandon j s' e)
    have "(ws_dropped s + all_of unreported (ws_threads s) + failing (ws_phase s) + length (jb_records j)) mod 2 ^ 64
      = (length (ws_lost s) + length (jb_records j)) mod 2 ^ 64"
      using ws_writer(1) unfolding dropped_inv_def by (rule add_mod_cong)
    moreover have "failing (ws_phase s) = 0" using abandon(1) by auto
    ultimately show ?thesis by (simp add: abandon(3) dropped_inv_def give_up_def aside_same [OF abandon(2)])
  next
    case (count j e)
    then show ?thesis
      using ws_writer(1) fetch_add_mod [of "ws_dropped s" "length (jb_records j)" "all_of unreported (ws_threads s)"]
      by (simp add: dropped_inv_def count_failure_def ac_simps)
  next
    case (move p s')
    then show ?thesis using ws_writer(1) by (auto simp: dropped_inv_def between_def aside_same)
  next
    case (answer j res)
    then show ?thesis using ws_writer(1) by (auto simp: dropped_inv_def send_reply_def Let_def split: option.split)
  qed (use ws_writer(1) in \<open>auto simp: dropped_inv_def settle_batch_def aside_same\<close>)
qed (auto simp: dropped_inv_def begin_recording_def start_writer_def drain_def enqueue_write_def accepts_def)


lemma queued_set: "k \<in> set (queued q) \<longleftrightarrow> WRecord k \<in> set q"
  by (induction q rule: queued.induct) auto

lemma step_stored:
  assumes "ws_step wid s t" "stored_inv s" "places_inv s"
  shows "stored_inv t"
proof -
  have r: "reach db_init db_step (ws_days s)" using assms(2) by (simp add: stored_inv_def)
  note db = usage_database.reach_inv [OF r]
  have moves: "db_moves s t" using assms(1) by (rule ws_step_moves)
  then have r': "reach db_init db_step (ws_days t)" using r reach_step by (auto simp: db_moves_def)
  have keep: "kept (ws_days t) x" if "kept (ws_days s) x" for x
    using moves kept_step [OF _ db that] that unfolding db_moves_def by metis
  have old: "\<forall>k \<in> set (ws_stored s). k < length (ws_handed s) \<and> kept (ws_days t) (ws_handed s ! k)"
    using assms(2) keep by (simp add: stored_inv_def)
  show ?thesis
    using assms(1) old r' assms(3)
  proof (induction rule: ws_step.induct)
    case (ws_hand s r)
    then show ?case by (auto simp: stored_inv_def hand_over_def nth_append)
  next
    case (ws_record i s)
    then show ?case by (cases "ws_threads s ! i") (auto simp: stored_inv_def record_at_def enqueue_write_def split: if_splits)
  next
    case (ws_writer s inp)
    show ?case
      using refl [of "writer_step wid inp s"]
    proof (cases rule: writer_step_cases)
      case (commit j retried db' s')
      have sub: "k < length (ws_handed s)" if "k \<in> set (jb_records j)" for k
      proof -
        have "k \<in># mset [0..<length (ws_handed s)]"
          using ws_writer(3) commit(1) that unfolding places_inv_def by (metis set_mset_mset union_iff unwritten.simps(3))
        then show ?thesis by simp
      qed
      have "kept (ws_days s') (ws_handed s ! k)" if "k \<in> set (jb_records j)" for k
        using kept_written [OF commit(2)] that unfolding commit(3) batch_of_def by simp
      then show ?thesis using ws_writer(1,2) sub by (auto simp: stored_inv_def commit(5) aside_same [OF commit(4)])
    next
      case (receive rs)
      then show ?thesis using ws_writer by (cases "ws_queue s") (auto simp: stored_inv_def receive_write_def)
    qed (use ws_writer(1,2) in \<open>auto simp: stored_inv_def give_up_def count_failure_def settle_batch_def send_reply_def
        aside_same Let_def split: option.splits if_splits\<close>)
  qed (auto simp: stored_inv_def begin_recording_def start_writer_def drain_def enqueue_write_def split: if_splits)
qed


lemma done_mono:
  assumes "(\<forall>(i, res) \<in> set rs. \<exists>n < length l. asks i (l ! n) \<and> set (queued (take n l)) \<subseteq> A)" "A \<subseteq> B"
  shows "(\<forall>(i, res) \<in> set rs. \<exists>n < length (l @ m). asks i ((l @ m) ! n) \<and> set (queued (take n (l @ m))) \<subseteq> B)"
proof clarify
  fix i res assume "(i, res) \<in> set rs"
  then obtain n where "n < length l" "asks i (l ! n)" "set (queued (take n l)) \<subseteq> A" using assms(1) by fast
  then show "\<exists>n < length (l @ m). asks i ((l @ m) ! n) \<and> set (queued (take n (l @ m))) \<subseteq> B"
    using assms(2) by (intro exI [of _ n]) (auto simp: nth_append)
qed

lemmas done_more = done_mono [where m = "[]", simplified]

lemma log_inv_I:
  assumes "ws_taken t \<le> length (ws_log t)" "ws_phase t \<noteq> Stopped \<Longrightarrow> ws_queue t = drop (ws_taken t) (ws_log t)"
    "set (queued (take (ws_taken t) (ws_log t))) \<subseteq> set (unwritten (ws_phase t)) \<union> set (ws_stored t) \<union> set (ws_lost t)"
    "\<And>j i. job_of (ws_phase t) = Some j \<Longrightarrow> jb_flush j = Some i \<Longrightarrow> 0 < ws_taken t \<and> asks i (ws_log t ! (ws_taken t - 1))"
    "\<forall>(i, res) \<in> set (ws_replies t). \<exists>n < length (ws_log t). asks i (ws_log t ! n)
      \<and> set (queued (take n (ws_log t))) \<subseteq> set (ws_stored t) \<union> set (ws_lost t)"
  shows "log_inv t"
  using assms unfolding log_inv_def by blast

lemma log_inv_enqueue:
  assumes "log_inv s" "accepts s"
  shows "log_inv (enqueue_write m s)"
  using assms done_mono [of "ws_replies s" "ws_log s" "set (ws_stored s) \<union> set (ws_lost s)", OF _ subset_refl]
  by (auto simp: log_inv_def enqueue_write_def accepts_def nth_append)

lemma writer_log:
  assumes "log_inv s" "counts_inv s"
  shows "log_inv (writer_step wid inp s)"
proof -
  have replied: "\<forall>(i, res) \<in> set (ws_replies s). \<exists>n < length (ws_log s). asks i (ws_log s ! n)
      \<and> set (queued (take n (ws_log s))) \<subseteq> set (ws_stored s) \<union> set (ws_lost s)"
    using assms(1) unfolding log_inv_def by blast
  show ?thesis
    using refl [of "writer_step wid inp s"]
  proof (cases rule: writer_step_cases)
    case (receive rs)
    show ?thesis
    proof (cases "ws_queue s")
      case Nil
      then show ?thesis using assms(1) receive by (auto simp: log_inv_def receive_write_def gathered_def)
    next
      case (Cons m q)
      have "ws_phase s \<noteq> Stopped" using receive(1) by auto
      then have d: "drop (ws_taken s) (ws_log s) = m # q" using assms(1) Cons by (simp add: log_inv_def)
      then have n: "ws_taken s < length (ws_log s)" by (metis drop_eq_Nil leI list.distinct(1))
      have m: "ws_log s ! ws_taken s = m" "drop (Suc (ws_taken s)) (ws_log s) = q"
        using d Cons_nth_drop_Suc [OF n] by simp_all
      show ?thesis
        using assms(1) receive(1) n m
        by (cases m) (auto simp: receive(2) receive_write_def Cons log_inv_def take_Suc_conv_app_nth asks_def)
    qed
  next
    case (full rs)
    then show ?thesis using assms(1) by (auto simp: log_inv_def gathered_def)
  next
    case (move p s')
    then show ?thesis using assms(1) by (auto simp: log_inv_def between_def aside_same)
  next
    case (abandon j s' e)
    have "\<forall>(i, res) \<in> set (ws_replies s). \<exists>n < length (ws_log s). asks i (ws_log s ! n)
        \<and> set (queued (take n (ws_log s))) \<subseteq> set (ws_stored s) \<union> set (ws_lost s @ jb_records j)"
      by (rule done_more [OF replied]) auto
    moreover have p: "unwritten (ws_phase s) = jb_records j" "job_of (ws_phase s) = Some j" "ws_phase s \<noteq> Stopped"
      using abandon(1) by auto
    moreover have "set (queued (take (ws_taken s) (ws_log s))) \<subseteq> set (ws_stored s) \<union> set (ws_lost s @ jb_records j)"
      using assms(1) p(1) by (auto simp: log_inv_def)
    ultimately show ?thesis
      using assms(1) unfolding abandon(3) by (intro log_inv_I) (simp_all add: log_inv_def give_up_def aside_same [OF abandon(2)])
  next
    case (commit j retried db' s')
    have "\<forall>(i, res) \<in> set (ws_replies s). \<exists>n < length (ws_log s). asks i (ws_log s ! n)
        \<and> set (queued (take n (ws_log s))) \<subseteq> set (ws_stored s @ jb_records j) \<union> set (ws_lost s)"
      by (rule done_more [OF replied]) auto
    moreover have "set (queued (take (ws_taken s) (ws_log s))) \<subseteq> set (ws_stored s @ jb_records j) \<union> set (ws_lost s)"
      using assms(1) commit(1) by (auto simp: log_inv_def)
    ultimately show ?thesis
      using assms(1) commit(1) unfolding commit(5) by (intro log_inv_I) (simp_all add: log_inv_def aside_same [OF commit(4)])
  next
    case (answer j res)
    have "set (queued (take (ws_taken s - 1) (ws_log s))) \<subseteq> set (queued (take (ws_taken s) (ws_log s)))"
      by (auto simp: queued_set dest: in_set_takeD [of _ "ws_taken s - 1" "take (ws_taken s) (ws_log s)", simplified])
    then have "\<exists>n < length (ws_log s). asks i (ws_log s ! n) \<and> set (queued (take n (ws_log s))) \<subseteq> set (ws_stored s) \<union> set (ws_lost s)"
      if "jb_flush j = Some i" for i
      using assms(1) answer(1) that by (intro exI [of _ "ws_taken s - 1"]) (auto simp: log_inv_def)
    then show ?thesis using assms(1) answer by (auto simp: log_inv_def send_reply_def Let_def split: option.split)
  next
    case (attempt j s' retried)
    then show ?thesis using assms(1) by (elim disjE) (simp_all add: log_inv_def aside_same [OF attempt(2)])
  next
    case (close j res now p inactive n shut s')
    then show ?thesis using assms(1) by (simp add: log_inv_def aside_same [OF close(3)])
  qed (use assms(1) in \<open>simp_all add: log_inv_def count_failure_def settle_batch_def\<close>)
qed

lemma step_log:
  assumes "ws_step wid s t" "log_inv s" "counts_inv s"
  shows "log_inv t"
  using assms
proof (induction rule: ws_step.induct)
  case (ws_spawn s)
  then show ?case
    using done_mono [of "ws_replies s" "ws_log s" "set (ws_stored s) \<union> set (ws_lost s)" _ "[WStart]", OF _ subset_refl]
    by (auto simp: log_inv_def start_writer_def counts_inv_def)
next
  case (ws_record i s)
  show ?case
  proof (cases "ws_threads s ! i")
    case (RSend k)
    then show ?thesis
      using ws_record(2) log_inv_enqueue [OF ws_record(2), of "WRecord k"]
        done_more [of "ws_replies s" "ws_log s" "set (ws_stored s) \<union> set (ws_lost s)" "set (ws_stored s) \<union> set (ws_lost s @ [k])"]
      by (auto simp: record_at_def log_inv_def)
  qed (use ws_record in \<open>simp_all add: log_inv_def record_at_def\<close>)
next
  case (ws_drain i s shut)
  then show ?case using log_inv_enqueue by (simp add: drain_def)
next
  case (ws_writer s inp)
  then show ?case by (intro writer_log)
qed (auto simp: log_inv_def begin_recording_def hand_over_def)


lemma all_of_mset: "set_mset (all_of f xs) = (\<Union>x \<in> set xs. set_mset (f x))"
  by (induction xs) auto

lemma not_busy: "all_of busy ts = 0 \<Longrightarrow> all_of carried ts = all_of sending ts"
proof (induction ts)
  case (Cons r ts)
  then show ?case by (cases r) auto
qed simp

lemma none_counted: "all_of counted ts = 0 \<Longrightarrow> all_of sending ts = {#}"
proof (induction ts)
  case (Cons r ts)
  then show ?case by (cases r) auto
qed simp

lemma writer_closed:
  assumes "closed_inv s" "counts_inv s" "places_inv s"
  shows "closed_inv (writer_step wid inp s)"
  using refl [of "writer_step wid inp s"]
proof (cases rule: writer_step_cases)
  case (check j res now p)
  have "{0..<length (ws_handed s)} \<subseteq> set_mset (all_of sending (ws_threads s)) \<union> set (queued (ws_queue s)) \<union> set (ws_stored s) \<union> set (ws_lost s)"
    if "ws_active s = 0"
  proof -
    have "all_of carried (ws_threads s) = all_of sending (ws_threads s)"
      using that assms(2) by (intro not_busy) (simp add: counts_inv_def)
    then have "all_of sending (ws_threads s) + mset (queued (ws_queue s)) + mset (ws_stored s) + mset (ws_lost s)
      = mset [0..<length (ws_handed s)]"
      using assms(3) check(1) by (auto simp: places_inv_def)
    from arg_cong [OF this, of set_mset] show ?thesis by (auto simp del: set_mset_sum_list)
  qed
  then show ?thesis using assms(1) check by (simp add: closed_inv_def)
next
  case (close j res now p inactive n shut s')
  have "{0..<n} \<subseteq> set (ws_stored s) \<union> set (ws_lost s)" if shut
  proof -
    have zero: "all_of counted (ws_threads s) = 0" "length (queued (ws_queue s)) = 0"
      using close(2) [OF that] assms(2) by (auto simp: counts_inv_def)
    then show ?thesis using none_counted [OF zero(1)] close(1) close(2) [OF that] assms(1) by (simp add: closed_inv_def)
  qed
  then show ?thesis using assms(1) close by (auto simp: closed_inv_def aside_same)
next
  case (receive rs)
  then show ?thesis
    using assms(1)
    by (cases "ws_queue s"; cases "hd (ws_queue s)") (auto simp: closed_inv_def receive_write_def gathered_def split: phase.splits)
next
  case (move p s')
  then show ?thesis using assms(1) by (auto simp: closed_inv_def between_def aside_same split: phase.splits)
next
  case (abandon j s' e)
  then show ?thesis using assms(1) by (auto simp: closed_inv_def give_up_def aside_same split: phase.splits)
next
  case (answer j res)
  then show ?thesis using assms(1) by (auto simp: closed_inv_def send_reply_def Let_def split: option.split)
qed (use assms(1) in \<open>auto simp: closed_inv_def count_failure_def settle_batch_def gathered_def aside_same split: phase.splits\<close>)

text \<open>Records move on from threads to the queue and to their fate.\<close>

lemma closed_mono:
  assumes "closed_inv s" "ws_phase t = ws_phase s" "ws_closed t = ws_closed s"
    "set (ws_stored s) \<union> set (ws_lost s) \<subseteq> set (ws_stored t) \<union> set (ws_lost t)"
    "set_mset (all_of sending (ws_threads s)) \<union> set (queued (ws_queue s))
      \<subseteq> set_mset (all_of sending (ws_threads t)) \<union> set (queued (ws_queue t)) \<union> set (ws_stored t) \<union> set (ws_lost t)"
  shows "closed_inv t"
  using assms unfolding closed_inv_def by (cases "ws_phase s") (auto simp del: set_mset_sum_list)

lemma step_closed:
  assumes "ws_step wid s t" "closed_inv s" "counts_inv s" "places_inv s"
  shows "closed_inv t"
  using assms
proof (induction rule: ws_step.induct)
  case (ws_record i s)
  define S where "S = set_mset (all_of sending (take i (ws_threads s) @ drop (Suc i) (ws_threads s)))"
  have s: "set_mset (all_of sending (ws_threads s)) = set_mset (sending (ws_threads s ! i)) \<union> S"
    "set_mset (all_of sending ((ws_threads s)[i := r])) = set_mset (sending r) \<union> S" for r
    unfolding S_def all_of_split [OF ws_record(1), of sending] by simp_all
  show ?case
  proof (rule closed_mono [OF ws_record(2)])
    show "set_mset (all_of sending (ws_threads s)) \<union> set (queued (ws_queue s)) \<subseteq> set_mset (all_of sending (ws_threads (record_at i s)))
      \<union> set (queued (ws_queue (record_at i s))) \<union> set (ws_stored (record_at i s)) \<union> set (ws_lost (record_at i s))"
      unfolding s(1)
      by (cases "ws_threads s ! i") (auto simp: record_at_def enqueue_write_def s(2) S_def [symmetric] simp del: set_mset_sum_list map_append sum_list_append)
  qed (cases "ws_threads s ! i"; auto simp: record_at_def enqueue_write_def)+
next
  case (ws_writer s inp)
  then show ?case by (intro writer_closed)
next
  case (ws_spawn s)
  then show ?case by (auto simp: closed_inv_def start_writer_def)
next
  case (ws_hand s r)
  then show ?case by (cases "ws_phase s") (auto simp: closed_inv_def hand_over_def)
next
  case (ws_drain i s shut)
  then show ?case by (cases "ws_phase s") (auto simp: closed_inv_def drain_def enqueue_write_def)
qed (auto simp: closed_inv_def begin_recording_def split: phase.splits)

definition ws_inv :: "writer_state \<Rightarrow> bool" where
  "ws_inv s \<longleftrightarrow> counts_inv s \<and> places_inv s \<and> dropped_inv s \<and> log_inv s \<and> closed_inv s \<and> stored_inv s"

interpretation writer: invariant_system ws_init "ws_step wid" ws_inv for wid
proof (unfold_locales, goal_cases)
  case (1 s)
  then obtain days where "reach db_init db_step days" "s = ws_start days" by (auto simp: ws_init_def)
  then show ?case
    by (simp add: ws_inv_def ws_start_def counts_inv_def places_inv_def dropped_inv_def log_inv_def closed_inv_def stored_inv_def)
next
  case (2 s t)
  then show ?case
    using step_counts step_places step_dropped step_log step_closed step_stored unfolding ws_inv_def by metis
qed


section \<open>Every flush is answered\<close>



















section \<open>A concrete run\<close>

definition calm_input :: writer_input where
  "calm_input = \<lparr> wi_timeout = False, wi_open = None, wi_session = Inl ''no lock'', wi_update = None, wi_batch = clean_batch, wi_now = 5,
     wi_prune_begin = None, wi_prune_commit = Committed, wi_health = None \<rparr>"

text \<open>One request is recorded and the queue is flushed.\<close>

definition demo_sent_record :: writer_state where
  "demo_sent_record = fst (drain False 7 (record_at 0 (record_at 0 (record_at 0
     (hand_over demo_record (begin_recording (start_writer (ws_start (0, 0, usage_db_empty)))))))))"

definition demo_flushed :: writer_state where
  "demo_flushed = (writer_step ''w'' calm_input ^^ 9) demo_sent_record"

lemma demo_sent_fields:
  "demo_sent_record = (ws_start (0, 0, usage_db_empty))\<lparr> ws_phase := Waiting, ws_queue := [WStart, WRecord 0, WFlush 7],
     ws_log := [WStart, WRecord 0, WFlush 7], ws_pending := 1, ws_handed := [demo_record] \<rparr>"
  by (simp add: demo_sent_record_def ws_start_def start_writer_def begin_recording_def hand_over_def record_at_def drain_def
    enqueue_write_def accepts_def fetch_add_def QUEUE_CAPACITY_def)

lemma demo_flushed_fields:
  "ws_replies demo_flushed = [(7, Inr ())] \<and> ws_stored demo_flushed = [0] \<and> ws_log demo_flushed = [WStart, WRecord 0, WFlush 7]
   \<and> ws_handed demo_flushed = [demo_record] \<and> ws_lost demo_flushed = [] \<and> ws_pending demo_flushed = 0 \<and> ws_phase demo_flushed = Waiting"
  by (simp add: demo_flushed_def demo_sent_fields eval_nat_numeral ws_start_def writer_step_def receive_write_def WRITE_BATCH_def open_batch_def
    open_database_def start_session_def update_session_def calm_input_def try_batch_def clean_write on_db_def the_db_def settle_batch_def
    prune_usage_def PRUNE_INTERVAL_MS_def report_health_def send_reply_def batch_of_def Let_def)

lemma demo_sent_reached: "reach ws_init (ws_step wid) demo_sent_record"
proof -
  let ?s0 = "ws_start (0, 0, usage_db_empty)"
  let ?s1 = "start_writer ?s0"
  let ?s2 = "begin_recording ?s1"
  let ?s3 = "hand_over demo_record ?s2"
  have d: "reach db_init db_step (0, 0, usage_db_empty)" by (rule reach_init) (simp add: db_init_def)
  have "reach ws_init (ws_step wid) ?s0" by (rule reach_init) (use d in \<open>auto simp: ws_init_def\<close>)
  then have "reach ws_init (ws_step wid) ?s1" by (rule reach_step) (rule ws_spawn)
  then have "reach ws_init (ws_step wid) ?s2"
    by (rule reach_step) (rule ws_begin, simp add: start_writer_def ws_start_def MAX_IN_PROGRESS_def)
  then have "reach ws_init (ws_step wid) ?s3"
    by (rule reach_step) (rule ws_hand, simp add: begin_recording_def start_writer_def ws_start_def)
  then have "reach ws_init (ws_step wid) (record_at 0 ?s3)"
    by (rule reach_step) (rule ws_record, simp add: hand_over_def)
  then have "reach ws_init (ws_step wid) (record_at 0 (record_at 0 ?s3))"
    by (rule reach_step) (rule ws_record, simp add: hand_over_def begin_recording_def start_writer_def ws_start_def record_at_def)
  then have "reach ws_init (ws_step wid) (record_at 0 (record_at 0 (record_at 0 ?s3)))"
    by (rule reach_step) (rule ws_record, simp add: hand_over_def begin_recording_def start_writer_def ws_start_def record_at_def)
  then show ?thesis unfolding demo_sent_record_def
    by (rule reach_step) (rule ws_drain; simp add: hand_over_def begin_recording_def start_writer_def ws_start_def record_at_def enqueue_write_def
        accepts_def QUEUE_CAPACITY_def)
qed

lemma demo_flushed_reached: "reach ws_init (ws_step ''w'') demo_flushed"
proof -
  have "reach ws_init (ws_step ''w'') ((writer_step ''w'' calm_input ^^ n) demo_sent_record)" for n
    by (induction n) (auto simp: demo_sent_reached intro: reach_step ws_writer)
  then show ?thesis by (simp add: demo_flushed_def)
qed

section \<open>Properties\<close>

text \<open>
  C38. No usage record is lost unnoticed: in every reachable state, whatever the threads that record, the
  writer, its failures and other users of the database do, every record that was handed over is in
  exactly one place (with its recording thread, in the queue, in the batch being written, stored,
  given up, or left behind in the queue of a writer that was shut down); \<open>PENDING\<close> and \<open>ACTIVE\<close> count
  exactly what is outstanding, \<open>DROPPED\<close> exactly what was given up, apart from losses that are just being
  counted; and queue and batches stay within their bounds.
\<close>

theorem writer_accounts:
  assumes "reach ws_init (ws_step wid) s"
  shows "mset (concat (map (sorted_list_of_multiset \<circ> carried) (ws_threads s)) @ queued (ws_queue s) @ unwritten (ws_phase s)
        @ ws_stored s @ ws_lost s @ ws_vanished s) = mset [0..<length (ws_handed s)]
    \<and> ws_active s = ws_open s + sum_list (map busy (ws_threads s))
    \<and> ws_pending s = sum_list (map counted (ws_threads s)) + length (queued (ws_queue s)) + unsettled (ws_phase s)
        + length (ws_vanished s)
    \<and> (ws_dropped s + sum_list (map unreported (ws_threads s)) + failing (ws_phase s)) mod 2 ^ 64 = length (ws_lost s) mod 2 ^ 64
    \<and> length (ws_queue s) \<le> 8192 \<and> length (unwritten (ws_phase s)) \<le> 128
    \<and> (ws_phase s \<noteq> Stopped \<longrightarrow> ws_vanished s = [])"
proof -
  note inv = writer.reach_inv [OF assms, unfolded ws_inv_def]
  have "mset (concat (map (sorted_list_of_multiset \<circ> carried) ts)) = all_of carried ts" for ts
    by (induction ts) simp_all
  moreover have "length (unwritten (ws_phase s)) \<le> unsettled (ws_phase s)" by (cases "ws_phase s") auto
  ultimately show ?thesis
    using inv by (simp add: counts_inv_def places_inv_def dropped_inv_def QUEUE_CAPACITY_def WRITE_BATCH_def ac_simps)
qed

text \<open>
  C39. What \<open>flush\<close> and a closed session promise: when a flush or shutdown has been answered, every
  record that entered the queue before it has been stored or counted among the losses; when a
  session is marked closed, the same holds of every record that had been handed over when the writer looked
  at the requests in progress; and a stored record stays in the database until its range is cleared or
  retention passes its day.
\<close>

theorem flush_and_close:
  assumes "reach ws_init (ws_step wid) s"
  shows "((i, res) \<in> set (ws_replies s) \<longrightarrow> (\<exists>before m after. ws_log s = before @ m # after \<and> asks i m
        \<and> (\<forall>k. WRecord k \<in> set before \<longrightarrow> k \<in> set (ws_stored s) \<or> k \<in> set (ws_lost s))))
    \<and> (ws_closed s = Some n \<longrightarrow> (\<forall>k < n. k \<in> set (ws_stored s) \<or> k \<in> set (ws_lost s)))
    \<and> (\<forall>k \<in> set (ws_stored s). kept (ws_days s) (ws_handed s ! k))"
proof -
  note inv = writer.reach_inv [OF assms, unfolded ws_inv_def]
  have "\<exists>before m after. ws_log s = before @ m # after \<and> asks i m
      \<and> (\<forall>k. WRecord k \<in> set before \<longrightarrow> k \<in> set (ws_stored s) \<or> k \<in> set (ws_lost s))" if "(i, res) \<in> set (ws_replies s)"
  proof -
    obtain p where p: "p < length (ws_log s)" "asks i (ws_log s ! p)" "set (queued (take p (ws_log s))) \<subseteq> set (ws_stored s) \<union> set (ws_lost s)"
      using inv \<open>(i, res) \<in> set (ws_replies s)\<close> by (fastforce simp: log_inv_def)
    then show ?thesis
      by (intro exI [of _ "take p (ws_log s)"] exI [of _ "ws_log s ! p"] exI [of _ "drop (Suc p) (ws_log s)"])
        (auto simp: id_take_nth_drop [OF p(1), symmetric] queued_set subset_iff)
  qed
  moreover have "\<forall>k < n. k \<in> set (ws_stored s) \<or> k \<in> set (ws_lost s)" if "ws_closed s = Some n"
    using inv that by (fastforce simp: closed_inv_def)
  ultimately show ?thesis using inv by (simp add: stored_inv_def)
qed


theorem writer_accounts_witness:
  "mset (ws_stored demo_flushed @ ws_lost demo_flushed) \<subseteq># mset [0..<length (ws_handed demo_flushed)]"
  using writer_accounts [OF demo_flushed_reached] demo_flushed_fields by simp

theorem flush_and_close_witness:
  "kept (ws_days demo_flushed) demo_record \<and> (\<exists>before m after. ws_log demo_flushed = before @ m # after \<and> asks 7 m)"
proof -
  note f = demo_flushed_fields
  note all = flush_and_close [OF demo_flushed_reached, of 7 "Inr ()" 0]
  have "(7, Inr ()) \<in> set (ws_replies demo_flushed)" "0 \<in> set (ws_stored demo_flushed)" "ws_handed demo_flushed ! 0 = demo_record"
    using f by simp_all
  then show ?thesis using all by metis
qed


end
