(* ===== verification/Spec2Isabelle.thy ===== *)
theory Spec2Isabelle
  imports Admission Atomic_Budget Router_Runtime Router_Limits Usage_Quota Usage_Histogram Request_Body Quota_Request Tool_History Proxy_Config Usage_Protocol Proxy_Protocol Proxy_Routing Proxy_Auth Proxy_Discovery Usage_Record Proxy_Delivery Proxy_Upstream Usage_Tables Usage_Reports Usage_Writer
begin

text \<open>
  This library models the API router of the llama-server manager: the part of the Rust program under
  \<open>src-tauri/src\<close> that accepts OpenAI- and Anthropic-style HTTP requests, decides who may use which
  running llama-server instance, forwards the request, relays the answer and accounts for it.  File
  names below are relative to \<open>src-tauri/src/commands\<close> unless they start with \<open>src\<close>.

  \<^bold>\<open>How the parts interact.\<close>  A request first meets the security middleware (\<open>Proxy_Auth\<close>): origin, body
  length, key, rate limit (\<open>Router_Runtime\<close>), the admission gate (\<open>Admission\<close>) and the shared budget of
  request bytes (\<open>Atomic_Budget\<close>).  The request handler (\<open>Proxy_Upstream\<close>) then checks the chat history
  (\<open>Tool_History\<close>), finds the candidate targets for the model name (\<open>Proxy_Routing\<close>, over the configuration of
  \<open>Proxy_Config\<close>), acquires one of them (\<open>Router_Runtime\<close>: circuit breaker and strategy), normalises
  and counts the request for the token quota (\<open>Quota_Request\<close>) and the context window (\<open>Request_Body\<close>), checks the
  authorization again, reserves tokens (\<open>Usage_Quota\<close>), forwards, and buffers or relays the answer
  (\<open>Proxy_Protocol\<close>), whose lines the token account reads (\<open>Usage_Protocol\<close>).  The body goes to the client through
  a bounded delivery task (\<open>Proxy_Delivery\<close>).  When the request is over, its account (\<open>Usage_Record\<close>)
  settles the quota and hands one record to the usage database (\<open>Usage_Tables\<close>), which the reports read (\<open>Usage_Reports\<close>).
  Probes and discovery (\<open>Proxy_Discovery\<close>) run beside the requests.

  \<^bold>\<open>Which theory models what.\<close>
  \<^item> \<open>Router_Prelude\<close>, \<open>Rust_Strings\<close>, \<open>Json_Value\<close>, \<open>Accumulation\<close>: what the source uses of Rust's library.  Integers
    whose width matters are words or carry their bound, with the saturating, checked or wrapping operation
    the source calls; hash maps are association lists with distinct keys; strings are their UTF-8 bytes;
    JSON values are a datatype.
  \<^item> \<open>Proxy_Models\<close> (\<open>src/models.rs\<close>, \<open>src/vector_policy.rs\<close>): configuration records and public model names.
  \<^item> \<open>Admission\<close> (\<open>proxy_admission.rs\<close>): record \<open>adm\<close>; enqueueing, selection, cancellation, release, resizing
    and their interleavings \<open>adm_step\<close>.
  \<^item> \<open>Atomic_Budget\<close> (\<open>atomic_counter.rs\<close>, the budgets of \<open>proxy_runtime.rs\<close> and \<open>proxy_delivery.rs\<close>): one turn of a
    compare-and-swap loop, and any number of threads over one counter (\<open>cas_step\<close>).
  \<^item> \<open>Router_Runtime\<close>, \<open>Router_Limits\<close> (\<open>proxy_runtime.rs\<close>): record \<open>rr\<close>; target health, circuit breaker,
    selection by strategy, permits with identities, token buckets, metrics; the limits over time.
  \<^item> \<open>Usage_Quota\<close> (\<open>usage_quota.rs\<close>, \<open>usage_quota_maintenance.rs\<close>, \<open>periods\<close> of \<open>usage_budgets.rs\<close>): record \<open>ledger\<close>
    with its two tables; reserving, settling, reconciling, pruning, each as one transaction.
  \<^item> \<open>Request_Body\<close>, \<open>Quota_Request\<close>, \<open>Tool_History\<close> (\<open>proxy.rs\<close>, \<open>proxy_quota_request.rs\<close>, \<open>proxy_quota.rs\<close>, \<open>proxy_tool_history.rs\<close>):
    what is read from and checked of a request body.
  \<^item> \<open>Proxy_Config\<close>, \<open>Proxy_Routing\<close>, \<open>Proxy_Auth\<close>, \<open>Proxy_Discovery\<close>, \<open>Proxy_Upstream\<close> (\<open>proxy.rs\<close>, \<open>proxy_errors.rs\<close>): the
    configuration, the resolution of model names, the middleware, the discovery endpoints and the
    handler; record \<open>gateway\<close> is the state one request passes through its stages.
  \<^item> \<open>Proxy_Protocol\<close>, \<open>Usage_Protocol\<close> (\<open>proxy_protocol.rs\<close>, \<open>usage_diagnostics.rs\<close>, \<open>usage_protocol.rs\<close>): error envelopes, rewriting of
    model names, token accounts of answers and event streams.
  \<^item> \<open>Usage_Record\<close> (\<open>proxy_usage.rs\<close>), \<open>Proxy_Delivery\<close> (\<open>proxy_delivery.rs\<close>): the account of a request; the
    delivery task and the client's stream as two interleaved state machines (\<open>dl_step\<close>).
  \<^item> \<open>Usage_Histogram\<close> (\<open>usage_histogram.rs\<close>), \<open>Usage_Tables\<close> (\<open>usage_store.rs\<close>, the writing half of
    \<open>usage_performance.rs\<close>): latency histograms; record \<open>usage_db\<close>, its inserts, batches, retention and deletion.
  \<^item> \<open>Usage_Reports\<close> (\<open>usage_store.rs\<close>, \<open>usage_performance.rs\<close>, \<open>usage_requests.rs\<close>, \<open>usage_budgets.rs\<close>, \<open>usage_health.rs\<close>): usage, latency, budget
    and health reports and the pages of single requests.
  \<^item> \<open>Usage_Writer\<close> (\<open>usage_store.rs\<close>): the queue in front of the database and its writer thread as interleaved steps.

  \<^bold>\<open>Interfaces.\<close>  \<open>map_store\<close> (what a keyed store promises) is interpreted on the hash maps (\<open>hm\<close>);
  \<open>idempotent_norm\<close> on trimming, lower-casing and model rewriting (\<open>trim\<close>, \<open>lower\<close>, \<open>rewrite\<close>); \<open>cas_budget\<close> on
  the two byte budgets (\<open>reserve\<close>, \<open>body\<close>); \<open>accumulation\<close> (rows add up in any order and grouping) on
  histograms, summaries and aggregates (\<open>histograms\<close>, \<open>summaries\<close>, \<open>aggregates\<close>); \<open>invariant_system\<close> (an
  invariant of initial states that steps preserve holds in every reachable state) on every step system:
  \<open>gate\<close>, \<open>targets\<close>, \<open>quota\<close>, \<open>delivery\<close>, \<open>usage_database\<close>, \<open>writer\<close>.

  \<^bold>\<open>What the lemmas show.\<close>  For every stateful component an invariant that each operation, hence each
  interleaving, keeps: the gate's counters are its permits, a target's active count is its live permits, a counter of
  bytes is its reservations, the ledger's balances are its pending and settled requests, the aggregate
  tables are the sums of the events ever stored.  For every decision (admission, selection, authorization,
  routing, preflight, quota, classification of failures) an exact description of its outcome on each
  branch.  For the composition: a request is forwarded only after every check passed, gives back everything it took
  on every path, leaves exactly one record and one settlement per permit, and its client receives a prefix of the answer that
  is complete unless an error is reported; every failure has the error envelope of the client's API format, except that
  an OpenAI client gets an upstream failure that is not JSON or is an event stream as it came.  Fairness, termination and liveness: weighted rotation, progress of waiting keys, complete
  pruning, an end to every delivery.

  \<^bold>\<open>Parameters and hypotheses.\<close>  Code outside the repository is an argument of the definitions: the JSON
  parser and printer, header decoding and the key digest (record \<open>web\<close>), the HTTP client (\<open>ve_send\<close>, \<open>ve_props\<close>,
  \<open>ve_call\<close>, \<open>fetch\<close>), the line codec (\<open>ve_lines\<close>), the URL parser, month boundaries of the
  clock library, which SQLite call fails and whether a failing commit was durable (\<open>faults\<close>, \<open>usage_faults\<close>, \<open>commit_outcome\<close>).
  Clocks and random identifiers are arguments.  While a request is suspended other requests may change the shared state
  arbitrarily (\<open>ve_others\<close>, \<open>ve_others_ledger\<close>); where a property counts permits it assumes \<open>calm\<close>:
  the others leave this request's permits and the counts as they found them.  \<open>honest\<close> in the
  quota ledger means that upstreams report no more tokens than were reserved.

  \<^bold>\<open>Bounds and termination.\<close>  No definition uses fuel: loops of the source are structural recursion or carry a
  termination measure, and loops that wait for other tasks are step relations.  Limits of the source (queue sizes,
  chunk sizes, byte budgets, retention periods) are constants of the same name.  Floating-point
  values (latencies, refill rates) are rationals; rounding is not modelled.

  \<^bold>\<open>Not modelled.\<close>  The launching and supervision of llama-server processes (\<open>server.rs\<close>, \<open>src/runtime_service\<close>,
  \<open>src/engine_process.rs\<close>), checkpoints of slots (\<open>src/checkpoint.rs\<close>), downloads (\<open>download.rs\<close>), hardware and
  log telemetry (\<open>telemetry.rs\<close>, \<open>monitoring.rs\<close>, \<open>nvml.rs\<close>, \<open>adlx.rs\<close>), scanning of model files (\<open>scanner.rs\<close>), the
  cluster and management layers, configuration persistence and the user interface: they are dominated by operating-system
  calls, files and processes, and the router meets them only through the list of running instances, which is an argument
  here.  Of the router itself the socket listener, the periodic probe timer and the encoding of
  database rows as JSON text are left out.
\<close>

end
